(* ===== verification/Ray_Prelude.thy ===== *)
theory Ray_Prelude
  imports Main "HOL-Library.Word" "HOL-Library.Sublist" "HOL-Library.AList" "HOL-Library.Multiset"
begin

text \<open>
  Shared vocabulary of the development: the machine integers and addresses of the Rust
  sources, byte buffers with the slice operations the packet code uses
  (\<open>get\<close>, \<open>get(a..b)\<close>, \<open>copy_from_slice\<close>), the big-endian conversions
  \<open>from_be_bytes\<close> / \<open>to_be_bytes\<close>, and the generic list lemmas the components use.

  Conventions. A \<open>Vec<u8>\<close>, \<open>&[u8]\<close> or \<open>Bytes\<close> is a list of 8-bit words. A \<open>usize\<close>
  that only counts bytes of a packet is a \<open>nat\<close>. A \<open>tokio\<close>/\<open>std\<close> \<open>Instant\<close> is the number of
  nanoseconds since an arbitrary origin and a \<open>Duration\<close> a number of nanoseconds, so that
  \<open>saturating_duration_since\<close> is the truncating subtraction of \<open>nat\<close>. An \<open>EndpointId\<close> is its
  32-byte key read as a big-endian number, which keeps the byte order of the keys.
\<close>

unbundle bit_operations_syntax

text \<open>Packet offsets are sums with numerals; they stay sums instead of becoming towers of \<open>Suc\<close>.\<close>

declare add_2_eq_Suc [simp del] add_2_eq_Suc' [simp del]

named_theorems wire_simps \<open>lengths, reads and writes of byte buffers\<close>
named_theorems codec_simps \<open>big-endian encodings and their inverses\<close>

subsection \<open>Types\<close>

type_synonym u8 = "8 word"
type_synonym u16 = "16 word"
type_synonym u32 = "32 word"
type_synonym u64 = "64 word"
type_synonym bytes = "u8 list"
type_synonym instant = nat
type_synonym duration = nat
type_synonym endpoint_id = "256 word"
type_synonym ipv4_addr = "32 word"
type_synonym ipv6_addr = "128 word"

datatype ip_addr = V4 ipv4_addr | V6 ipv6_addr

abbreviation secs :: "nat \<Rightarrow> duration" where
  "secs n \<equiv> n * 1000000000"

abbreviation millis :: "nat \<Rightarrow> duration" where
  "millis n \<equiv> n * 1000000"

subsection \<open>Byte buffers\<close>

text \<open>\<open>get p i\<close> is \<open>p.get(i)\<close>, \<open>get_range p a b\<close> is \<open>p.get(a..b)\<close>, \<open>slice p a b\<close> the panicking
  \<open>&p[a..b]\<close> (used only under a length check) and \<open>put p off bs\<close> is
  \<open>p[off..off + bs.len()].copy_from_slice(bs)\<close>.\<close>

definition get :: "'a list \<Rightarrow> nat \<Rightarrow> 'a option" where
  "get p i = (if i < length p then Some (p ! i) else None)"

definition slice :: "'a list \<Rightarrow> nat \<Rightarrow> nat \<Rightarrow> 'a list" where
  "slice p a b = take (b - a) (drop a p)"

definition get_range :: "'a list \<Rightarrow> nat \<Rightarrow> nat \<Rightarrow> 'a list option" where
  "get_range p a b = (if a \<le> b \<and> b \<le> length p then Some (slice p a b) else None)"

definition put :: "'a list \<Rightarrow> nat \<Rightarrow> 'a list \<Rightarrow> 'a list" where
  "put p off bs = take off p @ bs @ drop (off + length bs) p"

subsection \<open>Big-endian numbers\<close>

definition be_nat :: "bytes \<Rightarrow> nat" where
  "be_nat bs = foldl (\<lambda>acc b. acc * 256 + unat b) 0 bs"

fun be_bytes :: "nat \<Rightarrow> nat \<Rightarrow> bytes" where
  "be_bytes 0 x = []"
| "be_bytes (Suc n) x = be_bytes n (x div 256) @ [word_of_nat (x mod 256)]"

definition from_be16 :: "bytes \<Rightarrow> u16" where
  "from_be16 bs = word_of_nat (be_nat bs)"

definition to_be16 :: "u16 \<Rightarrow> bytes" where
  "to_be16 w = be_bytes 2 (unat w)"

definition from_be32 :: "bytes \<Rightarrow> u32" where
  "from_be32 bs = word_of_nat (be_nat bs)"

definition to_be32 :: "u32 \<Rightarrow> bytes" where
  "to_be32 w = be_bytes 4 (unat w)"

definition from_be64 :: "bytes \<Rightarrow> u64" where
  "from_be64 bs = word_of_nat (be_nat bs)"

definition to_be64 :: "u64 \<Rightarrow> bytes" where
  "to_be64 w = be_bytes 8 (unat w)"

text \<open>\<open>Ipv4Addr::octets\<close>, \<open>Ipv6Addr::octets\<close> and their inverses.\<close>

definition v4_octets :: "ipv4_addr \<Rightarrow> bytes" where
  "v4_octets ip = be_bytes 4 (unat ip)"

definition v4_of_octets :: "bytes \<Rightarrow> ipv4_addr" where
  "v4_of_octets bs = word_of_nat (be_nat bs)"

definition v6_octets :: "ipv6_addr \<Rightarrow> bytes" where
  "v6_octets ip = be_bytes 16 (unat ip)"

definition v6_of_octets :: "bytes \<Rightarrow> ipv6_addr" where
  "v6_of_octets bs = word_of_nat (be_nat bs)"

subsection \<open>Lemmas on byte buffers\<close>

lemma get_Some_iff [simp]: "get p i = Some x \<longleftrightarrow> i < length p \<and> p ! i = x"
  by (auto simp: get_def)

lemma get_None_iff [simp]: "get p i = None \<longleftrightarrow> length p \<le> i"
  by (auto simp: get_def)

lemma get_range_Some_iff:
  "get_range p a b = Some bs \<longleftrightarrow> a \<le> b \<and> b \<le> length p \<and> bs = slice p a b"
  by (auto simp: get_range_def)

lemma length_slice [wire_simps]: "b \<le> length p \<Longrightarrow> length (slice p a b) = b - a"
  by (simp add: slice_def)

lemma nth_slice [wire_simps]:
  "b \<le> length p \<Longrightarrow> i < b - a \<Longrightarrow> slice p a b ! i = p ! (a + i)"
  by (simp add: slice_def)

lemma length_put [wire_simps]: "off + length bs \<le> length p \<Longrightarrow> length (put p off bs) = length p"
  by (simp add: put_def)

lemma nth_put:
  assumes "off + length bs \<le> length p" and "i < length p"
  shows "put p off bs ! i = (if off \<le> i \<and> i < off + length bs then bs ! (i - off) else p ! i)"
  using assms by (auto simp: put_def nth_append min_def)

lemma slice_put_same [wire_simps]:
  assumes "off + length bs \<le> length p"
  shows "slice (put p off bs) off (off + length bs) = bs"
  using assms by (simp add: slice_def put_def)

lemma slice_put_disjoint [wire_simps]:
  assumes "off + length bs \<le> length p" and "b \<le> length p" and "b \<le> off \<or> off + length bs \<le> a"
  shows "slice (put p off bs) a b = slice p a b"
proof (rule nth_equalityI)
  show "length (slice (put p off bs) a b) = length (slice p a b)"
    using assms by (simp add: wire_simps)
next
  fix i assume "i < length (slice (put p off bs) a b)"
  then have i: "i < b - a" using assms by (simp add: wire_simps)
  then show "slice (put p off bs) a b ! i = slice p a b ! i"
    using assms by (auto simp: wire_simps nth_put)
qed

lemma slice_append_left [wire_simps]: "b \<le> length p \<Longrightarrow> slice (p @ q) a b = slice p a b"
  by (simp add: slice_def take_drop)

lemma slice_append_right [wire_simps]:
  "length p \<le> a \<Longrightarrow> slice (p @ q) a b = slice q (a - length p) (b - length p)"
  by (simp add: slice_def)

lemma slice_full: "slice p 0 (length p) = p"
  by (simp add: slice_def)

subsection \<open>Lemmas on big-endian numbers\<close>

lemma unat_word_bound: "unat (w :: 'a::len word) < 2 ^ LENGTH('a)"
  by (rule unsigned_less)

lemma unat_of_nat_small: "n < 2 ^ LENGTH('a::len) \<Longrightarrow> unat (word_of_nat n :: 'a word) = n"
  by (simp add: unat_of_nat)

lemma be_nat_Nil [simp, codec_simps]: "be_nat [] = 0"
  by (simp add: be_nat_def)

lemma be_nat_snoc [codec_simps]: "be_nat (bs @ [b]) = be_nat bs * 256 + unat b"
  by (simp add: be_nat_def)

lemma be_nat_Cons: "be_nat (b # bs) = unat b * 256 ^ length bs + be_nat bs"
proof (induction bs rule: rev_induct)
  case (snoc c bs)
  then show ?case using be_nat_snoc [of "b # bs" c] by (simp add: be_nat_snoc algebra_simps)
qed (simp add: be_nat_def)

lemma be_nat_two: "be_nat [a, b] = unat a * 256 + unat b"
  by (simp add: be_nat_def)

lemma be_nat_four:
  "be_nat [a, b, c, d] = ((unat a * 256 + unat b) * 256 + unat c) * 256 + unat d"
  by (simp add: be_nat_def)

lemma length_be_bytes [simp, codec_simps]: "length (be_bytes n x) = n"
  by (induction n arbitrary: x) auto

lemma unat_byte_bound: "unat (b :: u8) < 256"
  using unat_word_bound [of b] by simp

lemma be_nat_bound: "be_nat bs < 256 ^ length bs"
proof (induction bs rule: rev_induct)
  case Nil
  show ?case by simp
next
  case (snoc b bs)
  have "unat b < 256" by (rule unat_byte_bound)
  with snoc.IH have "be_nat bs * 256 + unat b < 256 ^ length bs * 256"
    by linarith
  then show ?case by (simp add: be_nat_snoc)
qed

lemma be_nat_be_bytes [codec_simps]: "be_nat (be_bytes n x) = x mod 256 ^ n"
proof (induction n arbitrary: x)
  case 0
  show ?case by simp
next
  case (Suc n)
  have "unat (word_of_nat (x mod 256) :: u8) = x mod 256"
    by (simp add: unat_of_nat)
  then have "be_nat (be_bytes (Suc n) x) = (x div 256) mod 256 ^ n * 256 + x mod 256"
    by (simp add: be_nat_snoc Suc)
  also have "\<dots> = x mod (256 * 256 ^ n)"
    by (simp add: mod_mult2_eq)
  finally show ?case by simp
qed

lemma be_bytes_be_nat [codec_simps]: "length bs = n \<Longrightarrow> be_bytes n (be_nat bs) = bs"
proof (induction bs arbitrary: n rule: rev_induct)
  case Nil
  then show ?case by simp
next
  case (snoc b bs)
  from unat_byte_bound [of b] have "(be_nat bs * 256 + unat b) div 256 = be_nat bs"
    and "(be_nat bs * 256 + unat b) mod 256 = unat b" by simp_all
  with snoc show ?case by (auto simp: be_nat_snoc)
qed

lemma be_bytes_numeral:
  "be_bytes (numeral k) x = be_bytes (pred_numeral k) (x div 256) @ [word_of_nat (x mod 256)]"
  by (simp only: numeral_eq_Suc be_bytes.simps)

lemma be_bytes_two: "be_bytes 2 x = [word_of_nat (x div 256 mod 256), word_of_nat (x mod 256)]"
  by (simp add: numeral_2_eq_2)

text \<open>
  Every fixed-width integer of the wire formats is a codec: \<open>dec\<close> inverts \<open>enc\<close> on values and
  \<open>enc\<close> inverts \<open>dec\<close> on buffers of the right width. What a client relies on is the law for
  buffers: a field that was written and not overwritten since is read back.
\<close>

locale wire_codec =
  fixes width :: nat
    and enc :: "'v \<Rightarrow> bytes"
    and dec :: "bytes \<Rightarrow> 'v"
  assumes length_enc: "length (enc v) = width"
    and dec_enc: "dec (enc v) = v"
    and enc_dec: "length bs = width \<Longrightarrow> enc (dec bs) = bs"
begin

lemma read_written:
  assumes "off + width \<le> length p"
  shows "dec (slice (put p off (enc v)) off (off + width)) = v"
proof -
  from assms have "slice (put p off (enc v)) off (off + length (enc v)) = enc v"
    by (intro slice_put_same) (simp add: length_enc)
  then show ?thesis by (simp add: length_enc dec_enc)
qed

lemma read_untouched:
  assumes "off + length bs \<le> length p" and "at + width \<le> length p"
    and "at + width \<le> off \<or> off + length bs \<le> at"
  shows "dec (slice (put p off bs) at (at + width)) = dec (slice p at (at + width))"
  using assms by (simp add: slice_put_disjoint)

lemma enc_inject: "enc v = enc w \<longleftrightarrow> v = w"
  by (metis dec_enc)

end

lemma word_be_codec:
  assumes "LENGTH('a::len) = 8 * n"
  shows "wire_codec n (\<lambda>w :: 'a word. be_bytes n (unat w)) (\<lambda>bs. word_of_nat (be_nat bs))"
proof
  have p: "(256 :: nat) ^ n = 2 ^ LENGTH('a)"
    by (simp add: assms power_mult)
  fix v :: "'a word" and bs :: bytes
  show "length (be_bytes n (unat v)) = n" by simp
  show "word_of_nat (be_nat (be_bytes n (unat v))) = v"
    by (simp add: be_nat_be_bytes p)
  assume bs: "length bs = n"
  have "be_nat bs < 2 ^ LENGTH('a)"
    using be_nat_bound [of bs] by (simp add: bs p)
  then have "unat (word_of_nat (be_nat bs) :: 'a word) = be_nat bs"
    by (rule unat_of_nat_small)
  then show "be_bytes n (unat (word_of_nat (be_nat bs) :: 'a word)) = bs"
    by (simp add: be_bytes_be_nat bs)
qed

interpretation be16: wire_codec 2 to_be16 from_be16
  unfolding to_be16_def from_be16_def by (rule word_be_codec) simp

interpretation be32: wire_codec 4 to_be32 from_be32
  unfolding to_be32_def from_be32_def by (rule word_be_codec) simp

interpretation be64: wire_codec 8 to_be64 from_be64
  unfolding to_be64_def from_be64_def by (rule word_be_codec) simp

interpretation v4c: wire_codec 4 v4_octets v4_of_octets
  unfolding v4_octets_def v4_of_octets_def by (rule word_be_codec) simp

interpretation v6c: wire_codec 16 v6_octets v6_of_octets
  unfolding v6_octets_def v6_of_octets_def by (rule word_be_codec) simp

lemmas codec_lengths [simp, wire_simps] =
  be16.length_enc be32.length_enc be64.length_enc v4c.length_enc v6c.length_enc

lemmas codec_inverses [simp, codec_simps] =
  be16.dec_enc be32.dec_enc be64.dec_enc v4c.dec_enc v6c.dec_enc

lemma unat_from_be16: "length bs = 2 \<Longrightarrow> unat (from_be16 bs) = be_nat bs"
  unfolding from_be16_def using be_nat_bound [of bs] by (simp add: unat_of_nat_small)

lemma be_nat_to_be16: "be_nat (to_be16 w) = unat w"
  using unat_word_bound [of w] by (simp add: to_be16_def be_nat_be_bytes)

subsection \<open>Generic list lemmas\<close>

lemma length4_cases: "length xs = 4 \<Longrightarrow> \<exists>a b c d. xs = [a, b, c, d]"
  by (auto simp: length_Suc_conv eval_nat_numeral)

lemma find_map_filter:
  "find P xs = Some x \<Longrightarrow> x \<in> set xs \<and> P x"
  by (auto simp: find_Some_iff)

lemma sum_list_upd_nat:
  fixes f :: "'a \<Rightarrow> nat"
  assumes "i < length xs"
  shows "sum_list (map f (xs[i := x])) + f (xs ! i) = sum_list (map f xs) + f x"
  using assms
proof (induction xs arbitrary: i)
  case Nil
  then show ?case by simp
next
  case (Cons y ys)
  then show ?case by (cases i) (auto simp: algebra_simps)
qed

lemma set_update_subset: "set (AList.update k v xs) \<subseteq> insert (k, v) (set xs)"
  by (induction xs) auto

lemma set_delete_subset: "set (AList.delete k xs) \<subseteq> set xs"
  by (auto simp: AList.delete_eq)

lemma set_map_filter: "set (List.map_filter f xs) = {y. \<exists>x \<in> set xs. f x = Some y}"
  by (force simp: List.map_filter_def)

section \<open>Saturating counters\<close>

definition saturating_inc :: "u32 \<Rightarrow> u32" where
  "saturating_inc n = (if n = - 1 then n else n + 1)"

definition saturating_dec :: "u32 \<Rightarrow> u32" where
  "saturating_dec n = (if n = 0 then 0 else n - 1)"

lemma uint_saturating_inc: "uint (saturating_inc n) = min (2 ^ 32 - 1) (uint n + 1)"
proof (cases "n = - 1")
  case True
  then show ?thesis by (simp add: saturating_inc_def unsigned_minus_1_eq_mask mask_eq_exp_minus_1)
next
  case False
  have "uint n < 2 ^ LENGTH(32)" by (rule uint_lt2p)
  moreover have "uint n \<noteq> 2 ^ 32 - 1"
  proof
    assume "uint n = 2 ^ 32 - 1"
    then have "uint n = uint (- 1 :: u32)" by (simp add: unsigned_minus_1_eq_mask mask_eq_exp_minus_1)
    then have "n = - 1" by (rule word_uint_eqI)
    with False show False by contradiction
  qed
  ultimately have "uint n + 1 < 2 ^ 32" by simp
  then show ?thesis using False by (simp add: saturating_inc_def uint_plus_if')
qed

lemma uint_saturating_dec: "uint (saturating_dec n) = max 0 (uint n - 1)"
proof (cases "n = 0")
  case False
  then have "uint n \<noteq> 0" by (simp add: uint_0_iff)
  then have "1 \<le> uint n" using uint_ge_0 [of n] by linarith
  then show ?thesis using False by (simp add: saturating_dec_def uint_sub_if')
qed (simp add: saturating_dec_def)

end
