(* ===== verification/Packet.thy ===== *)
theory Packet
  imports Ray_Prelude
begin

text \<open>
  The IP packet classifier of \<open>src/firewall/packet.rs\<close>: \<open>parse_packet_info\<close> for whole packets,
  \<open>parse_ipv6_fragment\<close> for IPv6 fragments, the extension-header walk \<open>ipv6_chain\<close> both share, and
  the ICMP predicates of \<open>src/firewall.rs\<close> they use. The lemmas show that every field is read inside
  the buffer, that the two parsers never accept the same packet, and that a later fragment never
  exposes payload bytes as ports.
\<close>

subsection \<open>ICMP predicates (\<open>src/firewall.rs\<close>)\<close>

definition is_icmp :: "u8 \<Rightarrow> bool" where
  "is_icmp proto \<longleftrightarrow> proto = 1 \<or> proto = 58"

definition is_icmp_echo_request :: "u8 \<Rightarrow> u8 \<Rightarrow> bool" where
  "is_icmp_echo_request proto icmp_ty \<longleftrightarrow> (proto = 1 \<and> icmp_ty = 8) \<or> (proto = 58 \<and> icmp_ty = 128)"

definition is_icmp_echo_reply :: "u8 \<Rightarrow> u8 \<Rightarrow> bool" where
  "is_icmp_echo_reply proto icmp_ty \<longleftrightarrow> (proto = 1 \<and> icmp_ty = 0) \<or> (proto = 58 \<and> icmp_ty = 129)"

subsection \<open>Packet fields\<close>

record packet_info =
  src_ip :: ip_addr
  dst_ip :: ip_addr
  protocol :: u8
  src_port :: u16
  dst_port :: u16
  tcp_flags :: u8
  icmp_type :: u8
  icmp_id :: u16
  transport_offset :: nat

definition read_port :: "bytes \<Rightarrow> u8 \<Rightarrow> nat \<Rightarrow> nat \<Rightarrow> u16" where
  "read_port packet proto header_len offset =
     (if proto \<noteq> 6 \<and> proto \<noteq> 17 then 0
      else case get_range packet (header_len + offset) (header_len + offset + 2) of
             None \<Rightarrow> 0
           | Some bs \<Rightarrow> from_be16 bs)"

definition read_tcp_flags :: "bytes \<Rightarrow> u8 \<Rightarrow> nat \<Rightarrow> u8" where
  "read_tcp_flags packet proto header_len =
     (if proto = 6 then (case get packet (header_len + 13) of None \<Rightarrow> 0 | Some b \<Rightarrow> b) else 0)"

definition read_icmp_type :: "bytes \<Rightarrow> u8 \<Rightarrow> nat \<Rightarrow> u8" where
  "read_icmp_type packet proto header_len =
     (if is_icmp proto then (case get packet header_len of None \<Rightarrow> 0 | Some b \<Rightarrow> b) else 0)"

definition read_icmp_id :: "bytes \<Rightarrow> u8 \<Rightarrow> nat \<Rightarrow> u16" where
  "read_icmp_id packet proto header_len =
     (let kind = read_icmp_type packet proto header_len
      in if \<not> is_icmp_echo_request proto kind \<and> \<not> is_icmp_echo_reply proto kind then 0
         else case get_range packet (header_len + 4) (header_len + 6) of
                None \<Rightarrow> 0
              | Some bs \<Rightarrow> from_be16 bs)"

definition mk_packet_info :: "bytes \<Rightarrow> u8 \<Rightarrow> nat \<Rightarrow> ip_addr \<Rightarrow> ip_addr \<Rightarrow> packet_info" where
  "mk_packet_info packet proto header_len src dst =
     \<lparr> src_ip = src, dst_ip = dst, protocol = proto,
       src_port = read_port packet proto header_len 0,
       dst_port = read_port packet proto header_len 2,
       tcp_flags = read_tcp_flags packet proto header_len,
       icmp_type = read_icmp_type packet proto header_len,
       icmp_id = read_icmp_id packet proto header_len,
       transport_offset = header_len \<rparr>"

subsection \<open>IPv4\<close>

definition parse_ipv4 :: "bytes \<Rightarrow> packet_info option" where
  "parse_ipv4 packet =
     (if length packet < 20 then None
      else let ihl = unat (packet ! 0 AND 15) in
        if ihl < 5 then None
        else let header_len = ihl * 4 in
          if length packet < header_len then None
          else let frag_offset = from_be16 [packet ! 6, packet ! 7] AND 0x1FFF in
            if frag_offset \<noteq> 0 then None
            else Some (mk_packet_info packet (packet ! 9) header_len
                         (V4 (v4_of_octets [packet ! 12, packet ! 13, packet ! 14, packet ! 15]))
                         (V4 (v4_of_octets [packet ! 16, packet ! 17, packet ! 18, packet ! 19]))))"

subsection \<open>IPv6: the extension-header walk\<close>

definition ipv6_tlv_ext_headers :: "u8 list" where
  "ipv6_tlv_ext_headers = [0, 43, 60, 135, 139, 140]"

definition ipv6_ah :: u8 where "ipv6_ah = 51"

definition ipv6_fragment_nh :: u8 where "ipv6_fragment_nh = 44"

record fragment_header =
  fh_offset :: u16
  fh_id :: u32

record ipv6_chain =
  ch_protocol :: u8
  ch_offset :: nat
  ch_fragment :: "fragment_header option"

text \<open>One iteration of the \<open>for _ in 0..MAX_HEADERS\<close> loop: the \<open>match next\<close> either returns from the
  function or yields the length of the header to skip and the fragment header seen so far.\<close>

datatype chain_step = Done "ipv6_chain option" | Skip nat "fragment_header option"

definition read_fragment_header :: "bytes \<Rightarrow> nat \<Rightarrow> fragment_header option" where
  "read_fragment_header packet off =
     (case get_range packet off (off + 8) of
        None \<Rightarrow> None
      | Some h \<Rightarrow> Some \<lparr> fh_offset = drop_bit 3 (from_be16 [h ! 2, h ! 3]),
                          fh_id = from_be32 [h ! 4, h ! 5, h ! 6, h ! 7] \<rparr>)"

definition chain_match :: "bytes \<Rightarrow> u8 \<Rightarrow> nat \<Rightarrow> fragment_header option \<Rightarrow> chain_step" where
  "chain_match packet nxt off frag =
     (if nxt = ipv6_fragment_nh then
        (if frag \<noteq> None then Done None
         else case read_fragment_header packet off of
                None \<Rightarrow> Done None
              | Some header \<Rightarrow>
                  if fh_offset header \<noteq> 0
                  then Done (Some \<lparr> ch_protocol = ipv6_fragment_nh, ch_offset = off + 8,
                                    ch_fragment = Some header \<rparr>)
                  else Skip 8 (Some header))
      else if nxt = ipv6_ah then
        (case get packet (off + 1) of
           None \<Rightarrow> Done None
         | Some l \<Rightarrow> Skip ((unat l + 2) * 4) frag)
      else if nxt \<in> set ipv6_tlv_ext_headers then
        (case get packet (off + 1) of
           None \<Rightarrow> Done None
         | Some l \<Rightarrow> Skip ((unat l + 1) * 8) frag)
      else Done (Some \<lparr> ch_protocol = nxt, ch_offset = off, ch_fragment = frag \<rparr>))"

fun chain_loop :: "nat \<Rightarrow> bytes \<Rightarrow> u8 \<Rightarrow> nat \<Rightarrow> fragment_header option \<Rightarrow> ipv6_chain option" where
  "chain_loop 0 packet nxt off frag = None"
| "chain_loop (Suc n) packet nxt off frag =
     (case chain_match packet nxt off frag of
        Done r \<Rightarrow> r
      | Skip len frag' \<Rightarrow>
          (case get packet off of
             None \<Rightarrow> None
           | Some nxt' \<Rightarrow>
               if off + len \<ge> length packet then None
               else chain_loop n packet nxt' (off + len) frag'))"

definition max_headers :: nat where "max_headers = 8"

definition walk_ipv6_chain :: "bytes \<Rightarrow> ipv6_chain option" where
  "walk_ipv6_chain packet = chain_loop max_headers packet (packet ! 6) 40 None"

definition ipv6_upper_layer :: "bytes \<Rightarrow> (u8 \<times> nat) option" where
  "ipv6_upper_layer packet =
     (case walk_ipv6_chain packet of
        None \<Rightarrow> None
      | Some chain \<Rightarrow>
          if ch_fragment chain = None then Some (ch_protocol chain, ch_offset chain) else None)"

definition v6_src :: "bytes \<Rightarrow> ipv6_addr" where
  "v6_src packet = v6_of_octets (slice packet 8 24)"

definition v6_dst :: "bytes \<Rightarrow> ipv6_addr" where
  "v6_dst packet = v6_of_octets (slice packet 24 40)"

definition parse_ipv6 :: "bytes \<Rightarrow> packet_info option" where
  "parse_ipv6 packet =
     (if length packet < 40 then None
      else case ipv6_upper_layer packet of
             None \<Rightarrow> None
           | Some (proto, header_len) \<Rightarrow>
               if (proto = 6 \<or> proto = 17) \<and> length packet < header_len + 4 then None
               else Some (mk_packet_info packet proto header_len
                            (V6 (v6_src packet)) (V6 (v6_dst packet))))"

definition parse_packet_info :: "bytes \<Rightarrow> packet_info option" where
  "parse_packet_info packet =
     (case get packet 0 of
        None \<Rightarrow> None
      | Some b \<Rightarrow> (if drop_bit 4 b = 4 then parse_ipv4 packet
                  else if drop_bit 4 b = 6 then parse_ipv6 packet
                  else None))"

definition is_link_scoped_v6 :: "bytes \<Rightarrow> bool" where
  "is_link_scoped_v6 packet =
     (if length packet < 40 \<or> drop_bit 4 (packet ! 0) \<noteq> 6 then False
      else let d0 = packet ! 24; d1 = packet ! 25;
               link_local_unicast = (d0 = 0xfe \<and> d1 AND 0xc0 = 0x80);
               link_scoped_multicast = (d0 = 0xff \<and> (d1 AND 0x0f = 1 \<or> d1 AND 0x0f = 2))
           in link_local_unicast \<or> link_scoped_multicast)"

subsection \<open>IPv6 fragments\<close>

record fragment_key =
  fk_src :: ipv6_addr
  fk_dst :: ipv6_addr
  fk_id :: u32

record ipv6_fragment =
  if_info :: packet_info
  if_key :: fragment_key
  if_first :: bool

definition carries_upper_header :: "bytes \<Rightarrow> u8 \<Rightarrow> nat \<Rightarrow> bool" where
  "carries_upper_header packet proto offset =
     (if proto = 6 then
        (case get packet (offset + 12) of
           None \<Rightarrow> False
         | Some b \<Rightarrow> (let needed = unat (drop_bit 4 b) * 4
                      in needed \<ge> 20 \<and> length packet \<ge> offset + needed))
      else let needed = (if proto = 17 then 8 else if proto = 58 then 8 else 0)
           in length packet \<ge> offset + needed)"

definition parse_ipv6_fragment :: "bytes \<Rightarrow> ipv6_fragment option" where
  "parse_ipv6_fragment packet =
     (if length packet < 40 \<or> drop_bit 4 (packet ! 0) \<noteq> 6 then None
      else case walk_ipv6_chain packet of
             None \<Rightarrow> None
           | Some chain \<Rightarrow>
               (case ch_fragment chain of
                  None \<Rightarrow> None
                | Some fragment \<Rightarrow>
                    (let is_first = (fh_offset fragment = 0) in
                     if is_first \<and> \<not> carries_upper_header packet (ch_protocol chain) (ch_offset chain)
                     then None
                     else Some \<lparr> if_info = mk_packet_info packet (ch_protocol chain) (ch_offset chain)
                                             (V6 (v6_src packet)) (V6 (v6_dst packet)),
                                 if_key = \<lparr> fk_src = v6_src packet, fk_dst = v6_dst packet,
                                            fk_id = fh_id fragment \<rparr>,
                                 if_first = is_first \<rparr>)))"

subsection \<open>Lemmas\<close>

lemma mk_packet_info_sel [simp]:
  "src_ip (mk_packet_info p proto off s d) = s"
  "dst_ip (mk_packet_info p proto off s d) = d"
  "protocol (mk_packet_info p proto off s d) = proto"
  "src_port (mk_packet_info p proto off s d) = read_port p proto off 0"
  "dst_port (mk_packet_info p proto off s d) = read_port p proto off 2"
  "tcp_flags (mk_packet_info p proto off s d) = read_tcp_flags p proto off"
  "icmp_type (mk_packet_info p proto off s d) = read_icmp_type p proto off"
  "icmp_id (mk_packet_info p proto off s d) = read_icmp_id p proto off"
  "transport_offset (mk_packet_info p proto off s d) = off"
  by (simp_all add: mk_packet_info_def)

lemma chain_loop_numeral:
  "chain_loop (numeral k) packet nxt off frag =
     (case chain_match packet nxt off frag of
        Done r \<Rightarrow> r
      | Skip len frag' \<Rightarrow>
          (case get packet off of
             None \<Rightarrow> None
           | Some nxt' \<Rightarrow>
               if off + len \<ge> length packet then None
               else chain_loop (pred_numeral k) packet nxt' (off + len) frag'))"
  by (simp add: numeral_eq_Suc)

text \<open>What the walk returns: an offset inside the packet (or right behind the fixed header), an
  upper-layer protocol that is not an extension header unless the packet is a later fragment.\<close>

definition is_upper_protocol :: "u8 \<Rightarrow> bool" where
  "is_upper_protocol proto \<longleftrightarrow>
     proto \<noteq> ipv6_fragment_nh \<and> proto \<noteq> ipv6_ah \<and> proto \<notin> set ipv6_tlv_ext_headers"

definition chain_ok :: "bytes \<Rightarrow> ipv6_chain \<Rightarrow> bool" where
  "chain_ok packet chain \<longleftrightarrow>
     40 \<le> ch_offset chain \<and> ch_offset chain \<le> length packet \<and>
     (case ch_fragment chain of
        None \<Rightarrow> is_upper_protocol (ch_protocol chain)
      | Some f \<Rightarrow> if fh_offset f = 0 then is_upper_protocol (ch_protocol chain)
                 else ch_protocol chain = ipv6_fragment_nh)"

lemma chain_match_Done_ok:
  assumes "chain_match packet nxt off frag = Done (Some chain)" and "40 \<le> off" and "off \<le> length packet"
    and "\<And>f. frag = Some f \<Longrightarrow> fh_offset f = 0"
  shows "chain_ok packet chain"
proof (cases "nxt = ipv6_fragment_nh")
  case True
  with assms show ?thesis
    by (auto simp: chain_match_def chain_ok_def read_fragment_header_def get_range_Some_iff
        split: if_splits option.splits)
next
  case False
  with assms show ?thesis
    by (auto simp: chain_match_def chain_ok_def is_upper_protocol_def
        split: if_splits option.splits)
qed

lemma chain_match_Skip_frag:
  assumes "chain_match packet nxt off frag = Skip len frag'"
    and "\<And>f. frag = Some f \<Longrightarrow> fh_offset f = 0"
  shows "frag' = Some f \<Longrightarrow> fh_offset f = 0"
  using assms by (auto simp: chain_match_def split: if_splits option.splits)

lemma chain_loop_ok:
  assumes "chain_loop n packet nxt off frag = Some chain" and "40 \<le> off" and "off \<le> length packet"
    and "\<And>f. frag = Some f \<Longrightarrow> fh_offset f = 0"
  shows "chain_ok packet chain"
  using assms
proof (induction n packet nxt off frag rule: chain_loop.induct)
  case (1 packet nxt off frag)
  then show ?case by simp
next
  case (2 n packet nxt off frag)
  show ?case
  proof (cases "chain_match packet nxt off frag")
    case (Done r)
    with "2.prems" show ?thesis by (auto intro: chain_match_Done_ok)
  next
    case (Skip len frag')
    with "2.prems" obtain nxt' where nxt': "get packet off = Some nxt'"
      and lt: "\<not> off + len \<ge> length packet"
      and rest: "chain_loop n packet nxt' (off + len) frag' = Some chain"
      by (auto simp del: get_Some_iff split: option.splits if_splits)
    show ?thesis
      by (rule "2.IH" [OF Skip nxt' lt rest])
        (use "2.prems" lt chain_match_Skip_frag [OF Skip] in auto)
  qed
qed

lemma walk_ipv6_chain_ok:
  "walk_ipv6_chain packet = Some chain \<Longrightarrow> 40 \<le> length packet \<Longrightarrow> chain_ok packet chain"
  unfolding walk_ipv6_chain_def by (rule chain_loop_ok) auto

lemma ipv6_upper_layer_ok:
  assumes "ipv6_upper_layer packet = Some (proto, off)" and "40 \<le> length packet"
  shows "40 \<le> off \<and> off \<le> length packet \<and> is_upper_protocol proto"
proof -
  from assms(1) obtain chain where "walk_ipv6_chain packet = Some chain"
    and "ch_fragment chain = None" and "proto = ch_protocol chain" and "off = ch_offset chain"
    by (auto simp: ipv6_upper_layer_def split: option.splits if_splits)
  with walk_ipv6_chain_ok [of packet chain] assms(2) show ?thesis
    by (auto simp: chain_ok_def)
qed

lemma parse_packet_info_cases [consumes 1, case_names ipv4 ipv6]:
  assumes "parse_packet_info p = Some i"
  obtains "p \<noteq> []" and "drop_bit 4 (p ! 0) = 4" and "parse_ipv4 p = Some i"
  | "p \<noteq> []" and "drop_bit 4 (p ! 0) = 6" and "parse_ipv6 p = Some i"
  using assms by (auto simp: parse_packet_info_def split: option.splits if_splits)

lemma parse_ipv4_SomeD:
  assumes "parse_ipv4 p = Some i"
  shows "20 \<le> transport_offset i \<and> transport_offset i \<le> length p \<and> 20 \<le> length p \<and>
    transport_offset i = unat (p ! 0 AND 15) * 4 \<and>
    from_be16 [p ! 6, p ! 7] AND 0x1FFF = 0 \<and>
    i = mk_packet_info p (p ! 9) (unat (p ! 0 AND 15) * 4)
          (V4 (v4_of_octets [p ! 12, p ! 13, p ! 14, p ! 15]))
          (V4 (v4_of_octets [p ! 16, p ! 17, p ! 18, p ! 19]))"
  using assms by (auto simp: parse_ipv4_def Let_def split: if_splits)

lemma parse_ipv6_SomeD:
  assumes "parse_ipv6 p = Some i"
  shows "40 \<le> transport_offset i \<and> transport_offset i \<le> length p \<and> 40 \<le> length p \<and>
    is_upper_protocol (protocol i) \<and>
    ((protocol i = 6 \<or> protocol i = 17) \<longrightarrow> transport_offset i + 4 \<le> length p) \<and>
    ipv6_upper_layer p = Some (protocol i, transport_offset i) \<and>
    i = mk_packet_info p (protocol i) (transport_offset i) (V6 (v6_src p)) (V6 (v6_dst p))"
proof -
  from assms obtain proto off where up: "ipv6_upper_layer p = Some (proto, off)"
    and len: "\<not> length p < 40" and i: "i = mk_packet_info p proto off (V6 (v6_src p)) (V6 (v6_dst p))"
    and ports: "\<not> ((proto = 6 \<or> proto = 17) \<and> length p < off + 4)"
    by (auto simp: parse_ipv6_def split: if_splits option.splits)
  with ipv6_upper_layer_ok [OF up] show ?thesis by auto
qed

lemma parse_ipv6_fragment_SomeD:
  assumes "parse_ipv6_fragment p = Some f"
  shows "\<exists>chain h. walk_ipv6_chain p = Some chain \<and> ch_fragment chain = Some h \<and>
    if_first f = (fh_offset h = 0) \<and> 40 \<le> length p \<and> drop_bit 4 (p ! 0) = 6 \<and> chain_ok p chain \<and>
    (if_first f \<longrightarrow> carries_upper_header p (ch_protocol chain) (ch_offset chain)) \<and>
    if_info f = mk_packet_info p (ch_protocol chain) (ch_offset chain) (V6 (v6_src p)) (V6 (v6_dst p)) \<and>
    if_key f = \<lparr> fk_src = v6_src p, fk_dst = v6_dst p, fk_id = fh_id h \<rparr>"
  using assms walk_ipv6_chain_ok [of p]
  by (auto simp: parse_ipv6_fragment_def Let_def split: if_splits option.splits)

lemma carries_tcp_header:
  assumes "carries_upper_header p 6 off"
  shows "off + 20 \<le> length p"
  using assms by (auto simp: carries_upper_header_def Let_def split: option.splits)

lemma whole_not_fragment:
  assumes "parse_packet_info p = Some i"
  shows "parse_ipv6_fragment p = None"
  using assms
proof (cases rule: parse_packet_info_cases)
  case ipv4
  then show ?thesis by (simp add: parse_ipv6_fragment_def)
next
  case ipv6
  from parse_ipv6_SomeD [OF ipv6(3)] have "ipv6_upper_layer p \<noteq> None" by auto
  then show ?thesis
    by (auto simp: ipv6_upper_layer_def parse_ipv6_fragment_def split: option.splits if_splits)
qed

subsection \<open>Properties\<close>

text \<open>C35. Whatever bytes arrive, a packet that classifies has its whole IP header and the
  reported transport offset inside the buffer, and an IPv6 packet classified as TCP or UDP carries
  its four port bytes: no rule is ever matched against ports that were not read.\<close>

theorem parse_packet_info_in_bounds:
  assumes "parse_packet_info p = Some i"
  shows "20 \<le> transport_offset i \<and> transport_offset i \<le> length p \<and>
    (drop_bit 4 (p ! 0) = 6 \<and> (protocol i = 6 \<or> protocol i = 17) \<longrightarrow>
       src_port i = from_be16 (slice p (transport_offset i) (transport_offset i + 2)) \<and>
       dst_port i = from_be16 (slice p (transport_offset i + 2) (transport_offset i + 4)) \<and>
       transport_offset i + 4 \<le> length p)"
  using assms
proof (cases rule: parse_packet_info_cases)
  case ipv4
  then show ?thesis using parse_ipv4_SomeD [of p i] by auto
next
  case ipv6
  from parse_ipv6_SomeD [OF ipv6(3)]
  have i: "i = mk_packet_info p (protocol i) (transport_offset i) (V6 (v6_src p)) (V6 (v6_dst p))"
    and b: "40 \<le> transport_offset i" "transport_offset i \<le> length p"
      "(protocol i = 6 \<or> protocol i = 17) \<longrightarrow> transport_offset i + 4 \<le> length p" by auto
  from i have "src_port i = read_port p (protocol i) (transport_offset i) 0"
    "dst_port i = read_port p (protocol i) (transport_offset i) 2"
    by (metis mk_packet_info_sel(4), metis mk_packet_info_sel(5))
  with b show ?thesis by (auto simp: read_port_def get_range_def add.assoc)
qed

definition sample_udp4 :: bytes where
  "sample_udp4 = [0x45, 0, 0, 28, 0, 0, 0, 0, 64, 17, 0, 0, 10, 0, 0, 1, 10, 0, 0, 2,
                  0x30, 0x39, 0, 53, 0, 8, 0, 0]"

theorem parse_packet_info_in_bounds_witness:
  "\<exists>i. parse_packet_info sample_udp4 = Some i \<and> protocol i = 17 \<and> dst_port i = 53 \<and>
     transport_offset i = 20 \<and> transport_offset i \<le> length sample_udp4"
proof -
  let ?i = "mk_packet_info sample_udp4 17 20 (V4 (v4_of_octets [10, 0, 0, 1])) (V4 (v4_of_octets [10, 0, 0, 2]))"
  have p: "parse_packet_info sample_udp4 = Some ?i"
    by (simp add: parse_packet_info_def parse_ipv4_def sample_udp4_def get_def from_be16_def be_nat_def)
  have "dst_port ?i = 53"
    by (simp add: read_port_def get_range_def slice_def sample_udp4_def from_be16_def be_nat_def)
  with p parse_packet_info_in_bounds [OF p] show ?thesis by auto
qed

text \<open>The two classifiers are disjoint: a packet accepted as whole is never an IPv6 fragment, so
  a fragment cannot reach rule matching by the whole-packet path.\<close>

theorem whole_and_fragment_exclusive:
  assumes "parse_packet_info p = Some i"
  shows "parse_ipv6_fragment p = None"
  using assms by (rule whole_not_fragment)

theorem whole_and_fragment_exclusive_witness:
  "parse_packet_info sample_udp4 \<noteq> None \<and> parse_ipv6_fragment sample_udp4 = None"
proof -
  have "parse_packet_info sample_udp4 =
      Some (mk_packet_info sample_udp4 17 20 (V4 (v4_of_octets [10, 0, 0, 1])) (V4 (v4_of_octets [10, 0, 0, 2])))"
    by (simp add: parse_packet_info_def parse_ipv4_def sample_udp4_def get_def from_be16_def be_nat_def)
  from this whole_and_fragment_exclusive [OF this] show ?thesis by simp
qed

text \<open>C34. A later fragment exposes none of its payload as transport fields, and a first fragment carries
  its whole transport header: for TCP the header its data offset declares, options included and never
  less than 20 bytes, for UDP and ICMPv6 the eight bytes of theirs.\<close>

theorem fragment_fields:
  assumes "parse_ipv6_fragment p = Some f"
  shows "(\<not> if_first f \<longrightarrow>
           protocol (if_info f) = ipv6_fragment_nh \<and> src_port (if_info f) = 0 \<and>
           dst_port (if_info f) = 0 \<and> tcp_flags (if_info f) = 0 \<and>
           icmp_type (if_info f) = 0 \<and> icmp_id (if_info f) = 0) \<and>
         (if_first f \<and> protocol (if_info f) = 6 \<longrightarrow>
            transport_offset (if_info f) + 20 \<le> length p \<and>
            20 \<le> unat (drop_bit 4 (p ! (transport_offset (if_info f) + 12))) * 4 \<and>
            transport_offset (if_info f) + unat (drop_bit 4 (p ! (transport_offset (if_info f) + 12))) * 4 \<le> length p) \<and>
         (if_first f \<and> protocol (if_info f) \<in> {17, 58} \<longrightarrow> transport_offset (if_info f) + 8 \<le> length p)"
proof -
  from parse_ipv6_fragment_SomeD [OF assms] obtain chain h where
    ok: "chain_ok p chain" and frag: "ch_fragment chain = Some h"
    and first: "if_first f = (fh_offset h = 0)"
    and carries: "if_first f \<longrightarrow> carries_upper_header p (ch_protocol chain) (ch_offset chain)"
    and info: "if_info f = mk_packet_info p (ch_protocol chain) (ch_offset chain) (V6 (v6_src p)) (V6 (v6_dst p))"
    by blast
  have "\<not> if_first f \<Longrightarrow> ch_protocol chain = 44"
    using ok frag first by (auto simp: chain_ok_def ipv6_fragment_nh_def)
  then have "\<not> if_first f \<longrightarrow>
           protocol (if_info f) = ipv6_fragment_nh \<and> src_port (if_info f) = 0 \<and>
           dst_port (if_info f) = 0 \<and> tcp_flags (if_info f) = 0 \<and>
           icmp_type (if_info f) = 0 \<and> icmp_id (if_info f) = 0"
    by (simp add: info ipv6_fragment_nh_def read_port_def read_tcp_flags_def read_icmp_type_def
        read_icmp_id_def is_icmp_def is_icmp_echo_request_def is_icmp_echo_reply_def)
  moreover have "if_first f \<and> protocol (if_info f) = 6 \<longrightarrow>
            transport_offset (if_info f) + 20 \<le> length p \<and>
            20 \<le> unat (drop_bit 4 (p ! (transport_offset (if_info f) + 12))) * 4 \<and>
            transport_offset (if_info f) + unat (drop_bit 4 (p ! (transport_offset (if_info f) + 12))) * 4 \<le> length p"
    using carries by (auto simp: info carries_upper_header_def get_def Let_def split: if_splits option.splits)
  moreover have "if_first f \<and> protocol (if_info f) \<in> {17, 58} \<longrightarrow> transport_offset (if_info f) + 8 \<le> length p"
    using carries by (auto simp: info carries_upper_header_def)
  ultimately show ?thesis by blast
qed

definition sample_frag6 :: bytes where
  "sample_frag6 = [0x60, 0, 0, 0, 0, 12, 44, 64,
                   1, 1, 1, 1, 1, 1, 1, 1, 1, 1, 1, 1, 1, 1, 1, 1,
                   2, 2, 2, 2, 2, 2, 2, 2, 2, 2, 2, 2, 2, 2, 2, 2,
                   6, 0, 0, 8, 0, 0, 0, 7, 0, 80, 0, 22]"

text \<open>A first fragment with a TCP header of 24 bytes.\<close>

definition sample_frag6_first :: bytes where
  "sample_frag6_first = [0x60, 0, 0, 0, 0, 32, 44, 64,
                   1, 1, 1, 1, 1, 1, 1, 1, 1, 1, 1, 1, 1, 1, 1, 1,
                   2, 2, 2, 2, 2, 2, 2, 2, 2, 2, 2, 2, 2, 2, 2, 2,
                   6, 0, 0, 1, 0, 0, 0, 7,
                   0, 80, 0, 22, 0, 0, 0, 0, 0, 0, 0, 0, 0x60, 2, 0, 0, 0, 0, 0, 0, 2, 4, 5, 0xb4]"

theorem fragment_fields_witness:
  "(\<exists>f. parse_ipv6_fragment sample_frag6 = Some f \<and> \<not> if_first f \<and> src_port (if_info f) = 0) \<and>
   (\<exists>f. parse_ipv6_fragment sample_frag6_first = Some f \<and> if_first f \<and> protocol (if_info f) = 6 \<and>
      transport_offset (if_info f) + 24 \<le> length sample_frag6_first)"
proof -
  have "drop_bit 4 (sample_frag6_first ! 60) = 6" by (simp add: sample_frag6_first_def)
  moreover have "\<exists>f. parse_ipv6_fragment sample_frag6_first = Some f \<and> if_first f \<and> protocol (if_info f) = 6 \<and>
      transport_offset (if_info f) = 48"
    by (simp add: parse_ipv6_fragment_def sample_frag6_first_def walk_ipv6_chain_def max_headers_def
        chain_match_def read_fragment_header_def get_range_def slice_def ipv6_fragment_nh_def
        from_be16_def be_nat_def chain_loop_numeral carries_upper_header_def get_def ipv6_tlv_ext_headers_def
        ipv6_ah_def Let_def)
  then obtain f where "parse_ipv6_fragment sample_frag6_first = Some f" "if_first f" "protocol (if_info f) = 6"
      "transport_offset (if_info f) = 48" by blast
  ultimately have first: "\<exists>f. parse_ipv6_fragment sample_frag6_first = Some f \<and> if_first f \<and> protocol (if_info f) = 6 \<and>
      transport_offset (if_info f) + 24 \<le> length sample_frag6_first"
    using fragment_fields [of sample_frag6_first f] by (intro exI [of _ f]) simp
  have "\<exists>f. parse_ipv6_fragment sample_frag6 = Some f \<and> \<not> if_first f"
    by (simp add: parse_ipv6_fragment_def sample_frag6_def walk_ipv6_chain_def max_headers_def
        chain_match_def read_fragment_header_def get_range_def slice_def ipv6_fragment_nh_def
        from_be16_def be_nat_def chain_loop_numeral Let_def)
  with fragment_fields first show ?thesis by blast
qed

text \<open>An IPv4 packet with the more-fragments bit set and offset zero is classified like a whole one: only a
  non-zero offset is refused.\<close>

lemma ipv4_first_fragment_classified:
  "parse_packet_info (sample_udp4 [6 := 0x20]) =
     Some (mk_packet_info (sample_udp4 [6 := 0x20]) 17 20 (V4 (v4_of_octets [10, 0, 0, 1])) (V4 (v4_of_octets [10, 0, 0, 2])))"
  by (simp add: parse_packet_info_def parse_ipv4_def sample_udp4_def get_def from_be16_def be_nat_def)

end
