(* ===== verification/Firewall.thy ===== *)
theory Firewall
  imports Packet
begin

text \<open>
  The device firewall of \<open>src/firewall.rs\<close>: the rule list with first-match evaluation, the
  connection tracker, \<open>SharedFirewall\<close> with its packet operations (\<open>evaluate_packet\<close>, \<open>explain\<close>,
  \<open>admits_reply\<close>, the evictor) and its serialized configuration edits. The live configuration
  (an \<open>ArcSwap\<close>) and the tracker (a concurrent map whose entry guard makes each packet one step) are
  one state record; the clock is an argument of the operations that read it, and the mesh SSH port,
  global state of \<open>src/forward.rs\<close>, an argument of the operations that read it.
\<close>

subsection \<open>Rules and configuration\<close>

datatype direction = In | Out

datatype proto_filter = Tcp | Udp | Icmp | AnyProto

datatype action = Allow | Deny

definition is_allow :: "action \<Rightarrow> bool" where "is_allow a \<longleftrightarrow> a = Allow"

definition is_deny :: "action \<Rightarrow> bool" where "is_deny a \<longleftrightarrow> a = Deny"

datatype peer_filter =
    AnyPeer
  | Identity endpoint_id
  | Except "string list" "endpoint_id list"

record port_range =
  pr_start :: u16
  pr_end :: u16

definition port_range_contains :: "port_range \<Rightarrow> u16 \<Rightarrow> bool" where
  "port_range_contains r p \<longleftrightarrow> pr_start r \<le> p \<and> p \<le> pr_end r"

datatype rule_origin = Local | Network string | Ssh

record firewall_rule =
  fr_direction :: direction
  fr_action :: action
  fr_protocol :: proto_filter
  fr_port :: "port_range option"
  fr_peer :: peer_filter
  fr_network :: "string option"
  fr_origin :: rule_origin

definition ssh_passthrough_rule :: "u16 \<Rightarrow> firewall_rule" where
  "ssh_passthrough_rule p =
     \<lparr> fr_direction = In, fr_action = Allow, fr_protocol = Tcp,
       fr_port = Some \<lparr> pr_start = p, pr_end = p \<rparr>,
       fr_peer = AnyPeer, fr_network = None, fr_origin = Ssh \<rparr>"

definition same_selector :: "firewall_rule \<Rightarrow> firewall_rule \<Rightarrow> bool" where
  "same_selector a b \<longleftrightarrow>
     fr_direction a = fr_direction b \<and> fr_protocol a = fr_protocol b \<and> fr_port a = fr_port b \<and>
     fr_peer a = fr_peer b \<and> fr_network a = fr_network b"

definition dedup_by_selector :: "firewall_rule list \<Rightarrow> firewall_rule list" where
  "dedup_by_selector rules =
     rev (foldl (\<lambda>deduped rule. if list_ex (\<lambda>r. same_selector r rule) deduped then deduped
                               else deduped @ [rule]) [] (rev rules))"

record firewall_config =
  default_inbound :: action
  default_outbound :: action
  cfg_reject :: bool
  disabled :: bool
  rules :: "firewall_rule list"

definition default_icmp_rule :: firewall_rule where
  "default_icmp_rule =
     \<lparr> fr_direction = In, fr_action = Allow, fr_protocol = Icmp, fr_port = None,
       fr_peer = AnyPeer, fr_network = None, fr_origin = Local \<rparr>"

definition default_config :: firewall_config where
  "default_config =
     \<lparr> default_inbound = Deny, default_outbound = Allow, cfg_reject = False, disabled = False,
       rules = [default_icmp_rule] \<rparr>"

definition ssh_default_port :: u16 where "ssh_default_port = 22"

definition cfg_rejects_denied :: "u16 \<Rightarrow> firewall_config \<Rightarrow> packet_info \<Rightarrow> bool" where
  "cfg_rejects_denied ssh_port cfg info \<longleftrightarrow>
     cfg_reject cfg \<or>
     (protocol info = 6 \<and> (dst_port info = ssh_default_port \<or> dst_port info = ssh_port))"

definition cfg_replace_network_rules ::
    "string \<Rightarrow> firewall_rule list \<Rightarrow> firewall_config \<Rightarrow> firewall_config" where
  "cfg_replace_network_rules net new_rules cfg =
     cfg\<lparr> rules := filter (\<lambda>r. fr_origin r \<noteq> Network net) (rules cfg) @ new_rules \<rparr>"

definition rename_rule :: "string \<Rightarrow> string \<Rightarrow> firewall_rule \<Rightarrow> firewall_rule \<times> bool" where
  "rename_rule old new r =
     (let (r1, b1) = (if fr_network r = Some old then (r\<lparr> fr_network := Some new \<rparr>, True) else (r, False));
          (r2, b2) = (if fr_origin r1 = Network old then (r1\<lparr> fr_origin := Network new \<rparr>, True) else (r1, b1))
      in (r2, b2))"

definition cfg_rename_network ::
    "string \<Rightarrow> string \<Rightarrow> firewall_config \<Rightarrow> bool \<times> firewall_config" where
  "cfg_rename_network old new cfg =
     (list_ex (\<lambda>r. snd (rename_rule old new r)) (rules cfg),
      cfg\<lparr> rules := map (\<lambda>r. fst (rename_rule old new r)) (rules cfg) \<rparr>)"

subsection \<open>Rule matching\<close>

definition protocol_matches :: "proto_filter \<Rightarrow> u8 \<Rightarrow> bool" where
  "protocol_matches flt ip_proto =
     (case flt of
        AnyProto \<Rightarrow> True
      | Tcp \<Rightarrow> ip_proto = 6
      | Udp \<Rightarrow> ip_proto = 17
      | Icmp \<Rightarrow> ip_proto = 1 \<or> ip_proto = 58)"

definition peer_matches :: "peer_filter \<Rightarrow> endpoint_id \<Rightarrow> bool" where
  "peer_matches flt peer =
     (case flt of
        AnyPeer \<Rightarrow> True
      | Identity i \<Rightarrow> i = peer
      | Except hostnames identities \<Rightarrow> peer \<notin> set identities)"

definition rule_matches ::
    "direction \<Rightarrow> u8 \<Rightarrow> u16 \<Rightarrow> endpoint_id \<Rightarrow> (string \<Rightarrow> bool) \<Rightarrow> firewall_rule \<Rightarrow> bool" where
  "rule_matches dir proto dport peer shares_network rule \<longleftrightarrow>
     fr_direction rule = dir \<and>
     protocol_matches (fr_protocol rule) proto \<and>
     (case fr_port rule of None \<Rightarrow> True | Some rg \<Rightarrow> port_range_contains rg dport) \<and>
     peer_matches (fr_peer rule) peer \<and>
     (case fr_network rule of None \<Rightarrow> True | Some net \<Rightarrow> shares_network net)"

fun match_rule_from :: "(firewall_rule \<Rightarrow> bool) \<Rightarrow> nat \<Rightarrow> firewall_rule list \<Rightarrow> (nat \<times> firewall_rule) option" where
  "match_rule_from P index [] = None"
| "match_rule_from P index (rule # rest) =
     (if \<not> P rule then match_rule_from P (index + 1) rest else Some (index, rule))"

definition match_rule ::
    "firewall_config \<Rightarrow> direction \<Rightarrow> u8 \<Rightarrow> u16 \<Rightarrow> endpoint_id \<Rightarrow> (string \<Rightarrow> bool) \<Rightarrow>
     (nat \<times> firewall_rule) option" where
  "match_rule cfg dir proto dport peer shares_network =
     match_rule_from (rule_matches dir proto dport peer shares_network) 0 (rules cfg)"

definition default_for :: "firewall_config \<Rightarrow> direction \<Rightarrow> action" where
  "default_for cfg dir = (case dir of Out \<Rightarrow> default_outbound cfg | In \<Rightarrow> default_inbound cfg)"

subsection \<open>Connection tracking\<close>

definition tcp_flow_timeout :: duration where "tcp_flow_timeout = secs 300"
definition tcp_closing_timeout :: duration where "tcp_closing_timeout = secs 30"
definition udp_flow_timeout :: duration where "udp_flow_timeout = secs 30"

record flow =
  fl_proto :: u8
  fl_local_ip :: ip_addr
  fl_local_port :: u16
  fl_peer_ip :: ip_addr
  fl_peer_port :: u16
  fl_icmp_id :: u16

definition flow_of :: "direction \<Rightarrow> packet_info \<Rightarrow> flow" where
  "flow_of dir info =
     (case dir of
        Out \<Rightarrow> \<lparr> fl_proto = protocol info,
                 fl_local_ip = src_ip info, fl_local_port = src_port info,
                 fl_peer_ip = dst_ip info, fl_peer_port = dst_port info,
                 fl_icmp_id = icmp_id info \<rparr>
      | In \<Rightarrow> \<lparr> fl_proto = protocol info,
                fl_local_ip = dst_ip info, fl_local_port = dst_port info,
                fl_peer_ip = src_ip info, fl_peer_port = src_port info,
                fl_icmp_id = icmp_id info \<rparr>)"

datatype flow_state =
    Active instant
  | HalfClosed instant direction
  | Closing instant

definition flow_active :: "flow_state \<Rightarrow> u8 \<Rightarrow> instant \<Rightarrow> bool" where
  "flow_active st proto now =
     (let (seen, timeout) =
        (case st of
           Active last_seen \<Rightarrow> (last_seen, if proto = 6 then tcp_flow_timeout else udp_flow_timeout)
         | HalfClosed last_seen _ \<Rightarrow> (last_seen, if proto = 6 then tcp_flow_timeout else udp_flow_timeout)
         | Closing since \<Rightarrow> (since, tcp_closing_timeout))
      in now - seen < timeout)"

definition flow_record :: "direction \<Rightarrow> packet_info \<Rightarrow> instant \<Rightarrow> flow_state \<Rightarrow> flow_state" where
  "flow_record dir info now st =
     (if protocol info = 6 \<and> dir = Out \<and> tcp_flags info AND 2 \<noteq> 0 then Active now
      else let fin = (protocol info = 6 \<and> tcp_flags info AND 1 \<noteq> 0) in
        (case st of
           Active last_seen \<Rightarrow> if \<not> fin then Active now else HalfClosed now dir
         | HalfClosed last_seen first \<Rightarrow>
             if fin \<and> first \<noteq> dir then Closing now else HalfClosed now first
         | Closing since \<Rightarrow> Closing since))"

type_synonym conntrack = "flow \<rightharpoonup> flow_state"

definition conntrack_eligible :: "packet_info \<Rightarrow> bool" where
  "conntrack_eligible info \<longleftrightarrow>
     \<not> is_icmp (protocol info) \<or> is_icmp_echo_reply (protocol info) (icmp_type info)"

definition is_closing :: "flow_state \<Rightarrow> bool" where
  "is_closing st = (case st of Closing _ \<Rightarrow> True | _ \<Rightarrow> False)"

definition track_packet ::
    "direction \<Rightarrow> flow \<Rightarrow> packet_info \<Rightarrow> instant \<Rightarrow> conntrack \<Rightarrow> bool \<times> conntrack" where
  "track_packet dir fl info now ct =
     (if (dir = In \<and> \<not> conntrack_eligible info) \<or>
         (dir = Out \<and> is_icmp (fl_proto fl) \<and> \<not> is_icmp_echo_request (fl_proto fl) (icmp_type info))
      then (False, ct)
      else case ct fl of
        Some st \<Rightarrow>
          (let active = flow_active st (fl_proto fl) now in
           if fl_proto fl = 6 \<and> tcp_flags info AND 4 \<noteq> 0
           then (dir = Out \<or> active, ct(fl := None))
           else if dir = In \<and> (\<not> active \<or> (is_closing st \<and> tcp_flags info AND 2 \<noteq> 0))
           then (False, ct)
           else if \<not> active \<and> fl_proto fl = 6 \<and> tcp_flags info AND 1 \<noteq> 0
           then (False, ct)
           else (True, ct(fl \<mapsto> flow_record dir info now st)))
      | None \<Rightarrow>
          (if dir = In \<or> (fl_proto fl = 6 \<and> tcp_flags info AND 5 \<noteq> 0)
           then (False, ct)
           else (True, ct(fl \<mapsto> Active now))))"

text \<open>One pass of the evictor: \<open>conntrack.retain\<close>.\<close>

definition evict_idle :: "instant \<Rightarrow> conntrack \<Rightarrow> conntrack" where
  "evict_idle now ct =
     (\<lambda>fl. case ct fl of
             None \<Rightarrow> None
           | Some st \<Rightarrow> if flow_active st (fl_proto fl) now then Some st else None)"

subsection \<open>\<open>SharedFirewall\<close>\<close>

record shared_firewall =
  inner :: firewall_config
  conntrack :: conntrack

definition new_firewall :: "firewall_config \<Rightarrow> shared_firewall" where
  "new_firewall cfg = \<lparr> inner = cfg, conntrack = Map.empty \<rparr>"

definition fw_track :: "direction \<Rightarrow> packet_info \<Rightarrow> instant \<Rightarrow> shared_firewall \<Rightarrow> bool \<times> shared_firewall" where
  "fw_track dir info now fw =
     (let (r, ct) = track_packet dir (flow_of dir info) info now (conntrack fw)
      in (r, fw\<lparr> conntrack := ct \<rparr>))"

definition evaluate_packet ::
    "direction \<Rightarrow> packet_info \<Rightarrow> endpoint_id \<Rightarrow> (string \<Rightarrow> bool) \<Rightarrow> instant \<Rightarrow> shared_firewall \<Rightarrow>
     action \<times> shared_firewall" where
  "evaluate_packet dir info peer shares_network now fw =
     (if disabled (inner fw) then (Allow, fw)
      else case match_rule (inner fw) dir (protocol info) (dst_port info) peer shares_network of
        Some (_, rule) \<Rightarrow>
          (fr_action rule, if is_allow (fr_action rule) then snd (fw_track dir info now fw) else fw)
      | None \<Rightarrow>
          (case dir of
             Out \<Rightarrow>
               (let dflt = default_for (inner fw) Out
                in (dflt, if is_allow dflt then snd (fw_track Out info now fw) else fw))
           | In \<Rightarrow>
               (if conntrack_eligible info then
                  (let (admitted, fw') = fw_track In info now fw
                   in (if admitted then Allow else default_for (inner fw) In, fw'))
                else (default_for (inner fw) In, fw))))"

definition admits_reply :: "packet_info \<Rightarrow> instant \<Rightarrow> shared_firewall \<Rightarrow> bool \<times> shared_firewall" where
  "admits_reply info now fw =
     (if disabled (inner fw) then (True, fw) else fw_track In info now fw)"

datatype decided_by = Disabled | RuleAt nat firewall_rule | Default

record verdict =
  v_action :: action
  v_decided_by :: decided_by
  v_reject :: bool
  return_traffic :: bool

definition explain ::
    "u16 \<Rightarrow> direction \<Rightarrow> packet_info \<Rightarrow> endpoint_id \<Rightarrow> (string \<Rightarrow> bool) \<Rightarrow> shared_firewall \<Rightarrow> verdict" where
  "explain ssh_port dir info peer shares_network fw =
     (let cfg = inner fw in
      if disabled cfg then
        \<lparr> v_action = Allow, v_decided_by = Disabled, v_reject = False, return_traffic = False \<rparr>
      else case match_rule cfg dir (protocol info) (dst_port info) peer shares_network of
        Some (index, rule) \<Rightarrow>
          \<lparr> v_action = fr_action rule, v_decided_by = RuleAt index rule,
            v_reject = (cfg_rejects_denied ssh_port cfg info \<and> is_deny (fr_action rule)),
            return_traffic = False \<rparr>
      | None \<Rightarrow>
          (let action = default_for cfg dir in
           \<lparr> v_action = action, v_decided_by = Default,
             v_reject = (cfg_rejects_denied ssh_port cfg info \<and> is_deny action),
             return_traffic = (dir = In \<and> is_deny action \<and> conntrack_eligible info) \<rparr>))"

definition evict :: "instant \<Rightarrow> shared_firewall \<Rightarrow> shared_firewall" where
  "evict now fw = fw\<lparr> conntrack := evict_idle now (conntrack fw) \<rparr>"

subsection \<open>Serialized edits\<close>

text \<open>An \<open>edit\<close> closure mutates the configuration it is given and returns a result; the third
  component of \<open>try_edit\<close> is the configuration handed to \<open>persist\<close>, if it is called.\<close>

definition try_edit ::
    "(firewall_config \<Rightarrow> ('e + 't) \<times> firewall_config) \<Rightarrow> shared_firewall \<Rightarrow>
     ('e + 't) \<times> shared_firewall \<times> firewall_config option" where
  "try_edit edit fw =
     (case edit (inner fw) of
        (Inl e, _) \<Rightarrow> (Inl e, fw, None)
      | (Inr out, cfg) \<Rightarrow> (Inr out, fw\<lparr> inner := cfg \<rparr>, Some cfg))"

definition update_config :: "firewall_config \<Rightarrow> shared_firewall \<Rightarrow> shared_firewall" where
  "update_config cfg fw = fw\<lparr> inner := cfg \<rparr>"

text \<open>\<open>edit\<close> is \<open>try_edit\<close> with an error type that has no values: the \<open>Err\<close> arm is dead.\<close>

definition edit_config ::
    "(firewall_config \<Rightarrow> 't \<times> firewall_config) \<Rightarrow> shared_firewall \<Rightarrow>
     't \<times> shared_firewall \<times> firewall_config option" where
  "edit_config edit fw =
     (let (out, cfg) = edit (inner fw) in (out, fw\<lparr> inner := cfg \<rparr>, Some cfg))"

definition replace_network_rules ::
    "string \<Rightarrow> firewall_rule list \<Rightarrow> shared_firewall \<Rightarrow>
     firewall_config \<times> shared_firewall \<times> firewall_config option" where
  "replace_network_rules net new_rules =
     edit_config (\<lambda>cfg. let cfg' = cfg_replace_network_rules net new_rules cfg in (cfg', cfg'))"

definition rename_network ::
    "string \<Rightarrow> string \<Rightarrow> shared_firewall \<Rightarrow>
     firewall_config option \<times> shared_firewall \<times> firewall_config option" where
  "rename_network old new fw =
     (case try_edit (\<lambda>cfg. let (renamed, cfg') = cfg_rename_network old new cfg
                            in (if renamed then Inr cfg' else Inl (), cfg')) fw of
        (Inl _, fw', p) \<Rightarrow> (None, fw', p)
      | (Inr cfg, fw', p) \<Rightarrow> (Some cfg, fw', p))"

definition ssh_passthrough_edit :: "bool \<Rightarrow> u16 \<Rightarrow> firewall_config \<Rightarrow> firewall_config" where
  "ssh_passthrough_edit enabled p cfg =
     (let kept = filter (\<lambda>r. fr_origin r \<noteq> Ssh) (rules cfg)
      in cfg\<lparr> rules := (if enabled then ssh_passthrough_rule p # kept else kept) \<rparr>)"

definition set_ssh_passthrough ::
    "bool \<Rightarrow> u16 \<Rightarrow> shared_firewall \<Rightarrow> firewall_config \<times> shared_firewall \<times> firewall_config option" where
  "set_ssh_passthrough enabled p =
     edit_config (\<lambda>cfg. let cfg' = ssh_passthrough_edit enabled p cfg in (cfg', cfg'))"

subsection \<open>The probe of \<open>ray firewall test\<close>\<close>

definition probe_packet ::
    "direction \<Rightarrow> proto_filter \<Rightarrow> u16 option \<Rightarrow> ipv6_addr \<Rightarrow> ipv6_addr \<Rightarrow> string + packet_info" where
  "probe_packet dir proto p local peer =
     (let fields =
        (case (proto, p) of
           (Tcp, Some q) \<Rightarrow> Inr (6, q, 2, 0)
         | (Udp, Some q) \<Rightarrow> Inr (17, q, 0, 0)
         | (Icmp, None) \<Rightarrow> Inr (58, 0, 0, 128)
         | (Tcp, None) \<Rightarrow> Inl ''tcp needs a port''
         | (Udp, None) \<Rightarrow> Inl ''udp needs a port''
         | (Icmp, Some _) \<Rightarrow> Inl ''icmp has no port''
         | (AnyProto, _) \<Rightarrow> Inl ''name one protocol: tcp, udp, or icmp'')
      in case fields of
           Inl e \<Rightarrow> Inl e
         | Inr (pr, dport, flags, ty) \<Rightarrow>
             (let (src, dst) = (case dir of In \<Rightarrow> (peer, local) | Out \<Rightarrow> (local, peer))
              in Inr \<lparr> src_ip = V6 src, dst_ip = V6 dst, protocol = pr, src_port = 0, dst_port = dport,
                       tcp_flags = flags, icmp_type = ty, icmp_id = 0, transport_offset = 40 \<rparr>))"

subsection \<open>Lemmas: matching and evaluation\<close>

lemmas rule_match_defs = rule_matches_def protocol_matches_def peer_matches_def port_range_contains_def

lemma match_rule_from_None: "match_rule_from P k rs = None \<longleftrightarrow> (\<forall>r\<in>set rs. \<not> P r)"
  by (induction rs arbitrary: k) auto

lemma match_rule_from_shift:
  "match_rule_from P (Suc k) rs = map_option (map_prod Suc id) (match_rule_from P k rs)"
  by (induction rs arbitrary: k) auto

lemma match_rule_from_Some:
  "match_rule_from P 0 rs = Some (i, r) \<longleftrightarrow>
     i < length rs \<and> rs ! i = r \<and> P r \<and> (\<forall>j<i. \<not> P (rs ! j))"
proof (induction rs arbitrary: i)
  case Nil
  show ?case by simp
next
  case (Cons x xs)
  show ?case
  proof (cases i)
    case 0
    then show ?thesis by (auto simp: match_rule_from_shift)
  next
    case (Suc n)
    have "(\<forall>j<Suc n. \<not> P ((x # xs) ! j)) \<longleftrightarrow> \<not> P x \<and> (\<forall>j<n. \<not> P (xs ! j))"
      by (simp add: All_less_Suc2)
    moreover have "match_rule_from P 0 (x # xs) = Some (Suc n, r) \<longleftrightarrow>
        \<not> P x \<and> match_rule_from P 0 xs = Some (n, r)"
      by (auto simp: match_rule_from_shift map_prod_def)
    ultimately show ?thesis using Cons.IH [of n] Suc by auto
  qed
qed

lemma match_rule_from_map:
  assumes "\<And>r. r \<in> set rs \<Longrightarrow> P (f r) = Q r"
  shows "match_rule_from P k (map f rs) = map_option (map_prod id f) (match_rule_from Q k rs)"
  using assms by (induction rs arbitrary: k) auto

lemma fw_track_inner [simp]: "inner (snd (fw_track dir info now fw)) = inner fw"
  by (simp add: fw_track_def Let_def split: prod.splits)

lemma fw_track_fst:
  "fst (fw_track dir info now fw) = fst (track_packet dir (flow_of dir info) info now (conntrack fw))"
  by (simp add: fw_track_def Let_def split: prod.splits)

lemma fw_track_conntrack:
  "conntrack (snd (fw_track dir info now fw)) =
     snd (track_packet dir (flow_of dir info) info now (conntrack fw))"
  by (simp add: fw_track_def Let_def split: prod.splits)

lemma evaluate_packet_inner [simp]: "inner (snd (evaluate_packet dir info peer sh now fw)) = inner fw"
  by (auto simp: evaluate_packet_def Let_def case_prod_beta split: option.splits direction.splits)

lemma track_packet_In_admits:
  "fst (track_packet In fl info now ct) \<Longrightarrow>
     conntrack_eligible info \<and> (\<exists>st. ct fl = Some st \<and> flow_active st (fl_proto fl) now)"
  by (auto simp: track_packet_def Let_def split: if_splits option.splits)

text \<open>The verdict of \<open>explain\<close> is the action of the data path, except that the tracker may lift a
  denial by the inbound default.\<close>

lemma evaluate_packet_fst:
  "fst (evaluate_packet dir info peer sh now fw) =
     (if return_traffic (explain ssh dir info peer sh fw) \<and> fst (fw_track dir info now fw) then Allow
      else v_action (explain ssh dir info peer sh fw))"
proof (cases "disabled (inner fw)")
  case True
  then show ?thesis by (simp add: evaluate_packet_def explain_def)
next
  case False
  have deny: "d \<noteq> Deny \<longleftrightarrow> d = Allow" for d by (cases d) auto
  show ?thesis
  proof (cases "match_rule (inner fw) dir (protocol info) (dst_port info) peer sh")
    case None
    with False show ?thesis
      by (cases dir)
        (auto simp: evaluate_packet_def explain_def Let_def case_prod_beta is_deny_def deny)
  next
    case (Some m)
    with False show ?thesis
      by (cases m) (auto simp: evaluate_packet_def explain_def Let_def)
  qed
qed

lemma fst_fw_track_In:
  "fst (fw_track In info now fw) \<Longrightarrow>
     \<exists>st. conntrack fw (flow_of In info) = Some st \<and> flow_active st (protocol info) now"
  using track_packet_In_admits [of "flow_of In info" info now "conntrack fw"]
  by (simp add: fw_track_fst flow_of_def)

subsection \<open>Lemmas: configuration edits\<close>

lemma dedup_Nil [simp]: "dedup_by_selector [] = []"
  by (simp add: dedup_by_selector_def)

lemma dedup_Cons [simp]:
  "dedup_by_selector (r # rs) =
     (if \<exists>x\<in>set (dedup_by_selector rs). same_selector x r then dedup_by_selector rs
      else r # dedup_by_selector rs)"
  by (simp add: dedup_by_selector_def list_ex_iff)

lemma same_selector_refl [simp]: "same_selector a a"
  by (simp add: same_selector_def)

lemma same_selector_sym: "same_selector a b \<longleftrightarrow> same_selector b a"
  by (auto simp: same_selector_def)

lemma same_selector_trans: "same_selector a b \<Longrightarrow> same_selector b c \<Longrightarrow> same_selector a c"
  by (simp add: same_selector_def)

lemma dedup_subset: "set (dedup_by_selector rs) \<subseteq> set rs"
  by (induction rs) auto

lemma dedup_covers: "r \<in> set rs \<Longrightarrow> \<exists>x\<in>set (dedup_by_selector rs). same_selector x r"
proof (induction rs)
  case Nil
  then show ?case by simp
next
  case (Cons a rs)
  then show ?case by (cases "r = a") auto
qed

lemma dedup_subseq: "subseq (dedup_by_selector rs) rs"
  by (induction rs) auto

lemma dedup_separated: "sorted_wrt (\<lambda>a b. \<not> same_selector a b) (dedup_by_selector rs)"
proof (induction rs)
  case Nil
  show ?case by simp
next
  case (Cons a rs)
  then show ?case by (simp add: same_selector_sym [of a])
qed

lemma dedup_members:
  "r \<in> set (dedup_by_selector rs) \<longleftrightarrow>
     (\<exists>pre post. rs = pre @ r # post \<and> (\<forall>x\<in>set post. \<not> same_selector x r))"
proof (induction rs)
  case Nil
  show ?case by simp
next
  case (Cons a rs)
  have last: "(\<exists>x\<in>set (dedup_by_selector rs). same_selector x a) \<longleftrightarrow> (\<exists>x\<in>set rs. same_selector x a)"
  proof
    assume "\<exists>x\<in>set (dedup_by_selector rs). same_selector x a"
    with dedup_subset show "\<exists>x\<in>set rs. same_selector x a" by blast
  next
    assume "\<exists>x\<in>set rs. same_selector x a"
    then obtain x y where "same_selector x a" "y \<in> set (dedup_by_selector rs)" "same_selector y x"
      using dedup_covers by blast
    with same_selector_trans show "\<exists>x\<in>set (dedup_by_selector rs). same_selector x a" by blast
  qed
  have split: "(\<exists>pre post. a # rs = pre @ r # post \<and> (\<forall>x\<in>set post. \<not> same_selector x r)) \<longleftrightarrow>
     (a = r \<and> (\<forall>x\<in>set rs. \<not> same_selector x r)) \<or>
     (\<exists>pre post. rs = pre @ r # post \<and> (\<forall>x\<in>set post. \<not> same_selector x r))"
    by (auto simp: Cons_eq_append_conv)
  show ?case unfolding split Cons.IH [symmetric] by (auto simp: last)
qed

lemma rename_rule_matches:
  assumes "\<And>n. fr_network r = Some n \<Longrightarrow> sh' (if n = old then new else n) = sh n"
  shows "rule_matches dir proto dport peer sh' (fst (rename_rule old new r)) =
         rule_matches dir proto dport peer sh r"
proof -
  have "fr_network (fst (rename_rule old new r)) =
      map_option (\<lambda>n. if n = old then new else n) (fr_network r)"
    by (cases "fr_network r") (auto simp: rename_rule_def Let_def)
  moreover have "fr_direction (fst (rename_rule old new r)) = fr_direction r"
    "fr_protocol (fst (rename_rule old new r)) = fr_protocol r"
    "fr_port (fst (rename_rule old new r)) = fr_port r"
    "fr_peer (fst (rename_rule old new r)) = fr_peer r"
    by (auto simp: rename_rule_def Let_def)
  ultimately show ?thesis
    by (cases "fr_network r") (simp_all add: rule_matches_def assms [symmetric])
qed

lemma rename_rule_action [simp]: "fr_action (fst (rename_rule old new r)) = fr_action r"
  by (auto simp: rename_rule_def Let_def)

lemma rename_rule_snd:
  "snd (rename_rule old new r) \<longleftrightarrow> fr_network r = Some old \<or> fr_origin r = Network old"
  by (auto simp: rename_rule_def Let_def)

lemma rename_rule_id: "\<not> snd (rename_rule old new r) \<Longrightarrow> fst (rename_rule old new r) = r"
  by (auto simp: rename_rule_def Let_def split: if_splits)

lemma rename_network_state:
  "fst (snd (rename_network old new fw)) = fw\<lparr> inner := snd (cfg_rename_network old new (inner fw)) \<rparr>"
proof (cases "list_ex (\<lambda>r. snd (rename_rule old new r)) (rules (inner fw))")
  case True
  then show ?thesis by (simp add: rename_network_def try_edit_def cfg_rename_network_def Let_def)
next
  case False
  then have "map (\<lambda>r. fst (rename_rule old new r)) (rules (inner fw)) = rules (inner fw)"
    by (intro map_idI rename_rule_id) (auto simp: list_ex_iff)
  with False show ?thesis
    by (simp add: rename_network_def try_edit_def cfg_rename_network_def Let_def)
qed

lemma rename_network_result:
  "snd (snd (rename_network old new fw)) = fst (rename_network old new fw) \<and>
   (fst (rename_network old new fw) = None \<longleftrightarrow>
      (\<forall>r\<in>set (rules (inner fw)). fr_network r \<noteq> Some old \<and> fr_origin r \<noteq> Network old))"
  by (auto simp: rename_network_def try_edit_def cfg_rename_network_def Let_def list_ex_iff
      rename_rule_snd split: if_splits)

lemma evaluate_packet_fst_cong:
  assumes "conntrack fw' = conntrack fw" and "disabled (inner fw') = disabled (inner fw)"
    and "\<And>d. default_for (inner fw') d = default_for (inner fw) d"
    and "map_option (\<lambda>m. fr_action (snd m)) (match_rule (inner fw') dir (protocol info) (dst_port info) peer sh') =
         map_option (\<lambda>m. fr_action (snd m)) (match_rule (inner fw) dir (protocol info) (dst_port info) peer sh)"
  shows "fst (evaluate_packet dir info peer sh' now fw') = fst (evaluate_packet dir info peer sh now fw)"
proof -
  have t: "fst (fw_track d info now fw') = fst (fw_track d info now fw)" for d
    by (simp add: fw_track_fst assms(1))
  show ?thesis
    using assms(2-4) t
    by (cases "match_rule (inner fw) dir (protocol info) (dst_port info) peer sh";
        cases "match_rule (inner fw') dir (protocol info) (dst_port info) peer sh'"; cases dir)
      (auto simp: evaluate_packet_def Let_def case_prod_beta)
qed

lemma ssh_rule_matches:
  "rule_matches dir proto dport peer sh (ssh_passthrough_rule p) \<longleftrightarrow> dir = In \<and> proto = 6 \<and> dport = p"
  by (auto simp: rule_match_defs ssh_passthrough_rule_def)

lemma evaluate_packet_first_rule:
  assumes "\<not> disabled (inner fw)" and "rules (inner fw) = r # rs"
    and "rule_matches dir (protocol info) (dst_port info) peer sh r"
  shows "fst (evaluate_packet dir info peer sh now fw) = fr_action r"
  using assms by (simp add: evaluate_packet_def match_rule_def)

subsection \<open>Sample packets and configurations\<close>

definition sample_info :: "u8 \<Rightarrow> u16 \<Rightarrow> u16 \<Rightarrow> u8 \<Rightarrow> packet_info" where
  "sample_info proto sport dport flags =
     \<lparr> src_ip = V6 1, dst_ip = V6 2, protocol = proto, src_port = sport, dst_port = dport,
       tcp_flags = flags, icmp_type = 0, icmp_id = 0, transport_offset = 40 \<rparr>"

definition sample_reply :: "u8 \<Rightarrow> u16 \<Rightarrow> u16 \<Rightarrow> u8 \<Rightarrow> packet_info" where
  "sample_reply proto sport dport flags =
     (sample_info proto sport dport flags)\<lparr> src_ip := V6 2, dst_ip := V6 1 \<rparr>"

definition deny_tcp_rule :: "u16 \<Rightarrow> string option \<Rightarrow> firewall_rule" where
  "deny_tcp_rule p net =
     \<lparr> fr_direction = In, fr_action = Deny, fr_protocol = Tcp,
       fr_port = Some \<lparr> pr_start = p, pr_end = p \<rparr>, fr_peer = AnyPeer, fr_network = net,
       fr_origin = (case net of None \<Rightarrow> Local | Some n \<Rightarrow> Network n) \<rparr>"

definition sample_config :: firewall_config where
  "sample_config = default_config\<lparr> rules := [default_icmp_rule, deny_tcp_rule 80 (Some ''home'')] \<rparr>"

lemmas sample_defs = sample_info_def sample_reply_def deny_tcp_rule_def sample_config_def
  default_config_def default_icmp_rule_def new_firewall_def

subsection \<open>Properties\<close>

text \<open>Rule lookup is first match: it returns index \<open>i\<close> and rule \<open>r\<close> exactly when \<open>r\<close> is the
  \<open>i\<close>-th rule, covers the packet, and no earlier rule does.\<close>

theorem match_rule_first_match:
  "match_rule cfg dir proto dport peer sh = Some (i, r) \<longleftrightarrow>
     i < length (rules cfg) \<and> rules cfg ! i = r \<and> rule_matches dir proto dport peer sh r \<and>
     (\<forall>j<i. \<not> rule_matches dir proto dport peer sh (rules cfg ! j))"
  by (simp add: match_rule_def match_rule_from_Some)

theorem match_rule_first_match_witness:
  "match_rule sample_config In 6 80 7 (\<lambda>n. n = ''home'') = Some (1, deny_tcp_rule 80 (Some ''home''))"
  unfolding match_rule_first_match by (simp add: sample_defs rule_match_defs)

text \<open>C31. The answer of \<open>ray firewall test\<close> is the data path's: \<open>explain\<close> and \<open>evaluate_packet\<close>
  differ only where an inbound packet denied by the default is return traffic of a live tracked
  flow, and then \<open>explain\<close> says so. Where a rule decided, the data path takes that rule's action.\<close>

theorem explain_agrees_with_evaluate:
  assumes "v = explain ssh dir info peer sh fw" and "a = fst (evaluate_packet dir info peer sh now fw)"
  shows "(a \<noteq> v_action v \<longrightarrow>
            a = Allow \<and> dir = In \<and> v_decided_by v = Default \<and> return_traffic v \<and>
            (\<exists>st. conntrack fw (flow_of In info) = Some st \<and> flow_active st (protocol info) now)) \<and>
         (v_decided_by v = RuleAt i r \<longrightarrow> a = fr_action r \<and> rules (inner fw) ! i = r)"
proof
  have rt: "return_traffic v \<Longrightarrow> dir = In \<and> v_decided_by v = Default"
    by (auto simp: assms(1) explain_def Let_def split: if_splits option.splits)
  note a = evaluate_packet_fst [of dir info peer sh now fw ssh, folded assms]
  show "a \<noteq> v_action v \<longrightarrow> a = Allow \<and> dir = In \<and> v_decided_by v = Default \<and> return_traffic v \<and>
      (\<exists>st. conntrack fw (flow_of In info) = Some st \<and> flow_active st (protocol info) now)"
    using a rt fst_fw_track_In [of info now fw] by (auto split: if_splits)
  show "v_decided_by v = RuleAt i r \<longrightarrow> a = fr_action r \<and> rules (inner fw) ! i = r"
  proof
    assume rule: "v_decided_by v = RuleAt i r"
    then have "match_rule (inner fw) dir (protocol info) (dst_port info) peer sh = Some (i, r)"
      and "v_action v = fr_action r"
      by (auto simp: assms(1) explain_def Let_def split: if_splits option.splits)
    moreover from rule rt have "\<not> return_traffic v" by auto
    ultimately show "a = fr_action r \<and> rules (inner fw) ! i = r"
      using a by (simp add: match_rule_def match_rule_from_Some)
  qed
qed

definition sample_tracked :: shared_firewall where
  "sample_tracked =
     \<lparr> inner = default_config, conntrack = [flow_of In (sample_reply 17 53 4000 0) \<mapsto> Active 0] \<rparr>"

theorem explain_agrees_with_evaluate_witness:
  "fst (evaluate_packet In (sample_reply 17 53 4000 0) 7 (\<lambda>_. True) 5 sample_tracked) = Allow \<and>
   v_action (explain 22 In (sample_reply 17 53 4000 0) 7 (\<lambda>_. True) sample_tracked) = Deny \<and>
   return_traffic (explain 22 In (sample_reply 17 53 4000 0) 7 (\<lambda>_. True) sample_tracked)"
proof -
  have e: "fst (evaluate_packet In (sample_reply 17 53 4000 0) 7 (\<lambda>_. True) 5 sample_tracked) = Allow"
    by (simp add: evaluate_packet_def sample_tracked_def sample_defs match_rule_def rule_match_defs
        conntrack_eligible_def is_icmp_def fw_track_def track_packet_def flow_of_def flow_active_def
        udp_flow_timeout_def)
  have v: "v_action (explain 22 In (sample_reply 17 53 4000 0) 7 (\<lambda>_. True) sample_tracked) = Deny"
    by (simp add: explain_def sample_tracked_def sample_defs match_rule_def rule_match_defs
        default_for_def)
  from explain_agrees_with_evaluate [OF refl refl, of In "sample_reply 17 53 4000 0" 7 "\<lambda>_. True"
      5 sample_tracked 22 0 default_icmp_rule] e v
  show ?thesis by simp
qed

text \<open>Merging accepted suggestions: the result keeps the list order, holds no two rules with one
  selector, and keeps of each selector exactly its last occurrence.\<close>

theorem dedup_by_selector_spec:
  "subseq (dedup_by_selector rs) rs \<and>
   sorted_wrt (\<lambda>a b. \<not> same_selector a b) (dedup_by_selector rs) \<and>
   set (dedup_by_selector rs) =
     {r. \<exists>pre post. rs = pre @ r # post \<and> (\<forall>x\<in>set post. \<not> same_selector x r)}"
  by (simp add: dedup_subseq dedup_separated set_eq_iff dedup_members)

theorem dedup_by_selector_spec_witness:
  "deny_tcp_rule 80 None \<notin> set (dedup_by_selector
     [deny_tcp_rule 80 None, (deny_tcp_rule 80 None)\<lparr> fr_action := Allow \<rparr>])"
  (is "_ \<notin> set (dedup_by_selector [?a, ?b])")
proof -
  have "same_selector ?b ?a" "?b \<noteq> ?a" by (simp_all add: deny_tcp_rule_def same_selector_def)
  then have "\<not> (\<exists>pre post. [?a, ?b] = pre @ ?a # post \<and> (\<forall>x\<in>set post. \<not> same_selector x ?a))"
    by (auto simp: Cons_eq_append_conv)
  with dedup_by_selector_spec [of "[?a, ?b]"] show ?thesis by blast
qed

text \<open>C22. Following a network renamed on this node changes no decision: when no rule names the new name
  yet, and the peer is afterwards in the network of the new name exactly when it was in that of the old
  one and in all others as before, every packet gets the action it had. \<open>rename_network\<close> reports a
  change, stores and persists it exactly when some rule named the network.\<close>

theorem rename_network_preserves_decisions:
  assumes "sh' new = sh old" and "\<And>n. n \<noteq> old \<Longrightarrow> n \<noteq> new \<Longrightarrow> sh' n = sh n"
    and "\<forall>r\<in>set (rules (inner fw)). fr_network r \<noteq> Some new"
    and "rename_network old new fw = (changed, fw', persisted)"
  shows "fst (evaluate_packet dir info peer sh' now fw') = fst (evaluate_packet dir info peer sh now fw) \<and>
    conntrack fw' = conntrack fw \<and> persisted = changed \<and>
    (changed = None \<longleftrightarrow>
       (\<forall>r\<in>set (rules (inner fw)). fr_network r \<noteq> Some old \<and> fr_origin r \<noteq> Network old))"
proof -
  have fw': "fw' = fw\<lparr> inner := snd (cfg_rename_network old new (inner fw)) \<rparr>"
    using rename_network_state [of old new fw] assms(4) by simp
  have share: "sh' (if n = old then new else n) = sh n"
    if "r \<in> set (rules (inner fw))" "fr_network r = Some n" for r n
    using assms(1-3) that by auto
  have match: "match_rule (inner fw') dir (protocol info) (dst_port info) peer sh' =
      map_option (map_prod id (\<lambda>r. fst (rename_rule old new r)))
        (match_rule (inner fw) dir (protocol info) (dst_port info) peer sh)"
    unfolding match_rule_def fw'
    using rename_rule_matches [where sh' = sh' and sh = sh and old = old and new = new, OF share]
    by (simp add: cfg_rename_network_def match_rule_from_map)
  have "fst (evaluate_packet dir info peer sh' now fw') = fst (evaluate_packet dir info peer sh now fw)"
  proof (rule evaluate_packet_fst_cong)
    show "default_for (inner fw') d = default_for (inner fw) d" for d
      by (cases d) (simp_all add: fw' cfg_rename_network_def default_for_def)
    show "map_option (\<lambda>m. fr_action (snd m)) (match_rule (inner fw') dir (protocol info) (dst_port info) peer sh') =
        map_option (\<lambda>m. fr_action (snd m)) (match_rule (inner fw) dir (protocol info) (dst_port info) peer sh)"
      unfolding match by (simp add: option.map_comp comp_def)
  qed (simp_all add: fw' cfg_rename_network_def)
  moreover have "persisted = changed \<and> (changed = None \<longleftrightarrow>
       (\<forall>r\<in>set (rules (inner fw)). fr_network r \<noteq> Some old \<and> fr_origin r \<noteq> Network old))"
    using rename_network_result [of old new fw] assms(4) by auto
  ultimately show ?thesis by (simp add: fw')
qed

theorem rename_network_preserves_decisions_witness:
  "fst (evaluate_packet In (sample_info 6 1 80 2) 7 (\<lambda>n. n = ''lan'') 0
     (fst (snd (rename_network ''home'' ''lan'' (new_firewall sample_config))))) =
   fst (evaluate_packet In (sample_info 6 1 80 2) 7 (\<lambda>n. n = ''home'') 0
     (new_firewall sample_config)) \<and>
   fst (rename_network ''home'' ''lan'' (new_firewall sample_config)) \<noteq> None"
proof -
  obtain c fw' p where r: "rename_network ''home'' ''lan'' (new_firewall sample_config) = (c, fw', p)"
    by (cases "rename_network ''home'' ''lan'' (new_firewall sample_config)")
  have fresh: "\<forall>r\<in>set (rules (inner (new_firewall sample_config))). fr_network r \<noteq> Some ''lan''"
    by (simp add: sample_defs)
  from rename_network_preserves_decisions [where sh' = "\<lambda>n. n = ''lan''"
      and sh = "\<lambda>n. n = ''home''" and old = "''home''" and new = "''lan''",
      OF _ _ fresh r, of In "sample_info 6 1 80 2" 7 0]
  have *: "fst (evaluate_packet In (sample_info 6 1 80 2) 7 (\<lambda>n. n = ''lan'') 0 fw') =
      fst (evaluate_packet In (sample_info 6 1 80 2) 7 (\<lambda>n. n = ''home'') 0 (new_firewall sample_config))"
    and "c = None \<longleftrightarrow> (\<forall>r\<in>set (rules (inner (new_firewall sample_config))).
           fr_network r \<noteq> Some ''home'' \<and> fr_origin r \<noteq> Network ''home'')" by simp_all
  moreover have "\<exists>r\<in>set (rules (inner (new_firewall sample_config))). fr_network r = Some ''home''"
    by (simp add: sample_defs)
  ultimately have "c \<noteq> None" by blast
  with * show ?thesis by (simp add: r)
qed

text \<open>\<open>ray firewall ssh on\<close> opens exactly what it says: an enforcing firewall then allows every
  inbound TCP packet to the SSH port from every peer whatever the other rules are, holds one
  passthrough rule, and is persisted; turning it off again leaves the rules without passthrough
  rules, in their order.\<close>

theorem set_ssh_passthrough_spec:
  assumes "set_ssh_passthrough True p fw = (cfg, fw', persisted)"
    and "protocol info = 6" and "dst_port info = p"
  shows "fst (evaluate_packet In info peer sh now fw') = Allow \<and>
    filter (\<lambda>r. fr_origin r = Ssh) (rules (inner fw')) = [ssh_passthrough_rule p] \<and>
    persisted = Some cfg \<and> inner fw' = cfg \<and>
    rules (inner (fst (snd (set_ssh_passthrough False q fw')))) =
      filter (\<lambda>r. fr_origin r \<noteq> Ssh) (rules (inner fw))"
proof -
  have fw': "fw' = fw\<lparr> inner := ssh_passthrough_edit True p (inner fw) \<rparr>" and c: "persisted = Some cfg"
    "cfg = ssh_passthrough_edit True p (inner fw)"
    using assms(1) by (auto simp: set_ssh_passthrough_def edit_config_def Let_def)
  have "fst (evaluate_packet In info peer sh now fw') = Allow"
    using assms(2,3) by (simp add: fw' evaluate_packet_def ssh_passthrough_edit_def match_rule_def
        ssh_rule_matches) (simp add: ssh_passthrough_rule_def)
  then show ?thesis
    by (simp add: fw' c ssh_passthrough_edit_def set_ssh_passthrough_def edit_config_def Let_def
        ssh_passthrough_rule_def filter_empty_conv)
qed

theorem set_ssh_passthrough_spec_witness:
  "fst (evaluate_packet In (sample_info 6 1 22 2) 7 (\<lambda>_. False) 0
     (fst (snd (set_ssh_passthrough True 22 (new_firewall sample_config))))) = Allow"
proof -
  obtain c fw' p where r: "set_ssh_passthrough True 22 (new_firewall sample_config) = (c, fw', p)"
    by (cases "set_ssh_passthrough True 22 (new_firewall sample_config)")
  from set_ssh_passthrough_spec [OF r, of "sample_info 6 1 22 2" 7 "\<lambda>_. False" 0] show ?thesis
    by (simp add: r sample_info_def)
qed

text \<open>Conntrack may admit any protocol but ICMP as return traffic, not only TCP and UDP.\<close>

lemma conntrack_eligible_other_protocols:
  "\<not> is_icmp (protocol info) \<Longrightarrow> conntrack_eligible info"
  by (simp add: conntrack_eligible_def)

end
