(* ===== verification/Firewall_Trace.thy ===== *)
theory Firewall_Trace
  imports Firewall
begin

text \<open>
  The firewall over time: the events that reach a \<open>SharedFirewall\<close> (packets of the two data-path
  loops, exit-node replies, the evictor, configuration edits) as a step relation, and what holds in
  every state it reaches. The tracker is used through the contract \<open>flow_tracker\<close>: only outbound
  traffic opens a flow, a packet touches only its own flow, and only a tracked flow admits.
\<close>

subsection \<open>Contract of the tracker\<close>

locale flow_tracker =
  fixes track :: "direction \<Rightarrow> 'f \<Rightarrow> 'p \<Rightarrow> 's \<Rightarrow> bool \<times> 's"
    and expire :: "instant \<Rightarrow> 's \<Rightarrow> 's"
    and entry :: "'s \<Rightarrow> 'f \<Rightarrow> 'e option"
  assumes inbound_never_opens: "entry s f = None \<Longrightarrow> entry (snd (track In f p s)) f = None"
    and other_flows: "g \<noteq> f \<Longrightarrow> entry (snd (track d f p s)) g = entry s g"
    and admits_tracked: "fst (track In f p s) \<Longrightarrow> entry s f \<noteq> None"
    and expire_shrinks: "entry (expire now s) f = None \<or> entry (expire now s) f = entry s f"
begin

lemma opened_by_outbound:
  "entry s f = None \<Longrightarrow> entry (snd (track d g p s)) f \<noteq> None \<Longrightarrow> d = Out \<and> g = f"
  by (cases d; cases "g = f") (auto simp: inbound_never_opens other_flows)

lemma unopened_not_admitted: "entry s f = None \<Longrightarrow> \<not> fst (track In f p s)"
  using admits_tracked by blast

end

text \<open>A tracker with a closing window: inbound traffic neither revives nor prolongs a closing flow.\<close>

locale closing_tracker = flow_tracker track expire entry
  for track :: "direction \<Rightarrow> 'f \<Rightarrow> 'p \<Rightarrow> 's \<Rightarrow> bool \<times> 's"
    and expire :: "instant \<Rightarrow> 's \<Rightarrow> 's"
    and entry :: "'s \<Rightarrow> 'f \<Rightarrow> 'e option" +
  fixes closed :: "'e \<Rightarrow> bool"
  assumes inbound_keeps_closing:
    "entry s f = Some e \<Longrightarrow> closed e \<Longrightarrow>
       entry (snd (track In f p s)) f = None \<or> entry (snd (track In f p s)) f = Some e"
begin

lemma stays_dead:
  assumes "entry s f = None \<or> (entry s f = Some e \<and> closed e)" and "d = Out \<Longrightarrow> g \<noteq> f"
  shows "entry (snd (track d g p s)) f = None \<or> entry (snd (track d g p s)) f = Some e"
proof (cases "g = f")
  case True
  with assms have "d = In" by (cases d) auto
  with assms True show ?thesis
    using inbound_never_opens [of s f p] inbound_keeps_closing [of s f e p] by auto
next
  case False
  with assms show ?thesis by (auto simp: other_flows)
qed

end

definition track_at :: "direction \<Rightarrow> flow \<Rightarrow> instant \<times> packet_info \<Rightarrow> conntrack \<Rightarrow> bool \<times> conntrack" where
  "track_at d f p ct = track_packet d f (snd p) (fst p) ct"

interpretation ctk: closing_tracker track_at evict_idle "\<lambda>ct. ct" is_closing
proof
  fix s :: conntrack and f g :: flow and p d e now
  show "s f = None \<Longrightarrow> snd (track_at In f p s) f = None"
    by (auto simp: track_at_def track_packet_def)
  show "g \<noteq> f \<Longrightarrow> snd (track_at d f p s) g = s g"
    by (auto simp: track_at_def track_packet_def Let_def split: option.splits)
  show "fst (track_at In f p s) \<Longrightarrow> s f \<noteq> None"
    using track_packet_In_admits [of f "snd p" "fst p" s] by (auto simp: track_at_def)
  show "evict_idle now s f = None \<or> evict_idle now s f = s f"
    by (auto simp: evict_idle_def split: option.splits)
  assume "s f = Some e" and "is_closing e"
  then show "snd (track_at In f p s) f = None \<or> snd (track_at In f p s) f = Some e"
    by (auto simp: track_at_def track_packet_def Let_def flow_record_def is_closing_def
        split: flow_state.splits)
qed

subsection \<open>Events and runs\<close>

datatype fw_event =
    PacketEv instant direction packet_info endpoint_id "string \<Rightarrow> bool"
  | ReplyEv instant packet_info
  | EvictEv instant
  | UpdateEv firewall_config

inductive fw_step :: "shared_firewall \<Rightarrow> fw_event \<Rightarrow> shared_firewall \<Rightarrow> bool" where
  step_packet: "fw_step fw (PacketEv now d info peer sh) (snd (evaluate_packet d info peer sh now fw))"
| step_reply: "fw_step fw (ReplyEv now info) (snd (admits_reply info now fw))"
| step_evict: "fw_step fw (EvictEv now) (evict now fw)"
| step_update: "fw_step fw (UpdateEv cfg) (update_config cfg fw)"

inductive fw_run :: "shared_firewall \<Rightarrow> fw_event list \<Rightarrow> shared_firewall \<Rightarrow> bool" where
  run_nil: "fw_run fw [] fw"
| run_snoc: "fw_run fw evs fw1 \<Longrightarrow> fw_step fw1 ev fw2 \<Longrightarrow> fw_run fw (evs @ [ev]) fw2"

inductive_cases fw_run_snocE: "fw_run fw (evs @ [ev]) fw'"

code_pred fw_step .

fun outbound_of :: "flow \<Rightarrow> fw_event \<Rightarrow> bool" where
  "outbound_of f (PacketEv now Out info peer sh) \<longleftrightarrow> flow_of Out info = f"
| "outbound_of f _ \<longleftrightarrow> False"

fun syn_out :: "fw_event \<Rightarrow> bool" where
  "syn_out (PacketEv now Out info peer sh) \<longleftrightarrow> tcp_flags info AND 2 \<noteq> 0"
| "syn_out _ \<longleftrightarrow> False"

text \<open>\<open>packet_of f t ev\<close>: the event is a packet of flow \<open>f\<close> seen at time \<open>t\<close>, in either direction.\<close>

fun packet_of :: "flow \<Rightarrow> instant \<Rightarrow> fw_event \<Rightarrow> bool" where
  "packet_of f t (PacketEv now d info peer sh) \<longleftrightarrow> now = t \<and> flow_of d info = f"
| "packet_of f t (ReplyEv now info) \<longleftrightarrow> now = t \<and> flow_of In info = f"
| "packet_of f t _ \<longleftrightarrow> False"

definition flow_seen :: "flow_state \<Rightarrow> instant" where
  "flow_seen st = (case st of Active t \<Rightarrow> t | HalfClosed t _ \<Rightarrow> t | Closing t \<Rightarrow> t)"

definition flow_timeout :: "u8 \<Rightarrow> duration" where
  "flow_timeout proto = (if proto = 6 then tcp_flow_timeout else udp_flow_timeout)"

text \<open>Every way a packet changes the tracker is one call of \<open>track_packet\<close> on its own flow.\<close>

lemma evaluate_packet_conntrack:
  "conntrack (snd (evaluate_packet d info peer sh now fw)) = conntrack fw \<or>
   conntrack (snd (evaluate_packet d info peer sh now fw)) =
     snd (track_at d (flow_of d info) (now, info) (conntrack fw))"
  by (auto simp: evaluate_packet_def Let_def case_prod_beta fw_track_conntrack track_at_def
      split: option.splits direction.splits)

lemma admits_reply_conntrack:
  "conntrack (snd (admits_reply info now fw)) = conntrack fw \<or>
   conntrack (snd (admits_reply info now fw)) =
     snd (track_at In (flow_of In info) (now, info) (conntrack fw))"
  by (auto simp: admits_reply_def fw_track_conntrack track_at_def)

lemma step_conntrack:
  assumes "fw_step fw ev fw'"
  obtains (same) "conntrack fw' = conntrack fw"
  | (tracked) d info now where
      "conntrack fw' = snd (track_at d (flow_of d info) (now, info) (conntrack fw))"
      "packet_of (flow_of d info) now ev"
      "d = Out \<Longrightarrow> outbound_of (flow_of d info) ev \<and> syn_out ev = (tcp_flags info AND 2 \<noteq> 0)"
  | (expired) now where "conntrack fw' = evict_idle now (conntrack fw)"
  using assms
proof (cases rule: fw_step.cases)
  case (step_packet now d info peer sh)
  with evaluate_packet_conntrack [of d info peer sh now fw] same tracked [of d info now]
  show thesis by (cases d) auto
next
  case (step_reply now info)
  with admits_reply_conntrack [of info now fw] same tracked [of In info now] show thesis by auto
next
  case (step_evict now)
  then show thesis using expired by (simp add: evict_def)
next
  case (step_update cfg)
  then show thesis using same by (simp add: update_config_def)
qed

subsection \<open>Invariant: where tracked flows come from\<close>

text \<open>\<open>carries d f t fw ev\<close>: in state \<open>fw\<close> the event is a packet of flow \<open>f\<close> in direction \<open>d\<close> at time
  \<open>t\<close> that the firewall, switched on, lets pass.\<close>

fun carries :: "direction \<Rightarrow> flow \<Rightarrow> instant \<Rightarrow> shared_firewall \<Rightarrow> fw_event \<Rightarrow> bool" where
  "carries d f t fw (PacketEv now d' info peer sh) \<longleftrightarrow>
     \<not> disabled (inner fw) \<and> d' = d \<and> now = t \<and> flow_of d info = f \<and>
     fst (evaluate_packet d info peer sh now fw) = Allow"
| "carries d f t fw (ReplyEv now info) \<longleftrightarrow>
     \<not> disabled (inner fw) \<and> d = In \<and> now = t \<and> flow_of In info = f \<and> fst (admits_reply info now fw)"
| "carries d f t fw _ \<longleftrightarrow> False"

text \<open>\<open>flow_live fw0 evs f t\<close>: the history links \<open>t\<close> back to an outbound packet of the flow by packets
  that were let pass, each less than the flow timeout after the one before.\<close>

inductive flow_live :: "shared_firewall \<Rightarrow> fw_event list \<Rightarrow> flow \<Rightarrow> instant \<Rightarrow> bool" for fw0 where
  live_sent: "fw_run fw0 evs fw \<Longrightarrow> carries Out f t fw ev \<Longrightarrow> flow_live fw0 (evs @ [ev]) f t"
| live_answered: "flow_live fw0 evs f s \<Longrightarrow> fw_run fw0 evs fw \<Longrightarrow> carries In f t fw ev \<Longrightarrow>
    t - s < flow_timeout (fl_proto f) \<Longrightarrow> flow_live fw0 (evs @ [ev]) f t"
| live_idle: "flow_live fw0 evs f s \<Longrightarrow> flow_live fw0 (evs @ [ev]) f s"

lemma flow_live_outbound: "flow_live fw0 evs f t \<Longrightarrow> \<exists>ev\<in>set evs. outbound_of f ev"
proof (induction rule: flow_live.induct)
  case (live_sent evs fw f t ev)
  then show ?case by (cases ev) auto
qed auto

lemma flow_active_seen:
  "flow_active st proto now \<Longrightarrow> now - flow_seen st < flow_timeout proto"
  by (auto simp: flow_active_def flow_seen_def flow_timeout_def tcp_flow_timeout_def
      tcp_closing_timeout_def udp_flow_timeout_def split: flow_state.splits if_splits)

lemma flow_record_seen: "flow_seen (flow_record d info now st) = now \<or> flow_seen (flow_record d info now st) = flow_seen st"
  by (cases st) (simp_all add: flow_record_def flow_seen_def Let_def)

lemma track_packet_entry:
  assumes "snd (track_packet d f info now ct) f = Some st"
  shows "ct f = Some st \<or> (\<exists>st0. ct f = Some st0 \<and> flow_seen st = flow_seen st0) \<or>
    flow_seen st = now \<and> fst (track_packet d f info now ct) \<and>
      (d = In \<longrightarrow> (\<exists>st0. ct f = Some st0 \<and> flow_active st0 (fl_proto f) now))"
proof (cases "ct f")
  case None
  with assms show ?thesis
    by (auto simp: track_packet_def flow_seen_def split: if_splits)
next
  case (Some st0)
  with assms flow_record_seen [of d info now st0] show ?thesis
    by (auto simp: track_packet_def Let_def split: if_splits)
qed

lemma evaluate_packet_tracks:
  "conntrack (snd (evaluate_packet d info peer sh now fw)) = conntrack fw \<or>
   conntrack (snd (evaluate_packet d info peer sh now fw)) =
     snd (track_packet d (flow_of d info) info now (conntrack fw)) \<and> \<not> disabled (inner fw) \<and>
   (fst (track_packet d (flow_of d info) info now (conntrack fw)) \<longrightarrow>
      fst (evaluate_packet d info peer sh now fw) = Allow)"
  by (auto simp: evaluate_packet_def Let_def case_prod_beta fw_track_def is_allow_def
      split: option.splits direction.splits action.splits)

lemma step_tracks:
  assumes "fw_step fw ev fw'"
  obtains (shrunk) "\<forall>f st. conntrack fw' f = Some st \<longrightarrow> conntrack fw f = Some st"
  | (tracked) d info now where
      "conntrack fw' = snd (track_packet d (flow_of d info) info now (conntrack fw))"
      "fst (track_packet d (flow_of d info) info now (conntrack fw)) \<longrightarrow>
         carries d (flow_of d info) now fw ev"
  using assms
proof (cases rule: fw_step.cases)
  case (step_packet now d info peer sh)
  with evaluate_packet_tracks [of d info peer sh now fw] shrunk tracked [of d info now]
  show thesis by auto
next
  case (step_reply now info)
  then show thesis using shrunk tracked [of In info now]
    by (cases "disabled (inner fw)") (auto simp: admits_reply_def fw_track_def case_prod_beta Let_def)
next
  case (step_evict now)
  then show thesis using shrunk by (auto simp: evict_def evict_idle_def split: option.splits if_splits)
next
  case (step_update cfg)
  then show thesis using shrunk by (simp add: update_config_def)
qed

definition flows_justified :: "shared_firewall \<Rightarrow> fw_event list \<Rightarrow> conntrack \<Rightarrow> bool" where
  "flows_justified fw0 evs ct \<longleftrightarrow> (\<forall>f st. ct f = Some st \<longrightarrow> flow_live fw0 evs f (flow_seen st))"

lemma flows_justified_step:
  assumes run: "fw_run fw0 evs fw" and inv: "flows_justified fw0 evs (conntrack fw)"
    and "fw_step fw ev fw'"
  shows "flows_justified fw0 (evs @ [ev]) (conntrack fw')"
  using assms(3)
proof (cases rule: step_tracks)
  case shrunk
  with inv show ?thesis by (auto simp: flows_justified_def intro: live_idle)
next
  case (tracked d info now)
  let ?g = "flow_of d info" and ?ct = "conntrack fw"
  have old: "flow_live fw0 (evs @ [ev]) f (flow_seen st)" if "?ct f = Some st" for f st
    using inv that by (auto simp: flows_justified_def intro: live_idle)
  have own: "flow_live fw0 (evs @ [ev]) ?g (flow_seen st)" if "conntrack fw' ?g = Some st" for st
  proof -
    from track_packet_entry [OF that [unfolded tracked(1)]]
    consider (kept) st0 where "?ct ?g = Some st0" "flow_seen st = flow_seen st0"
      | (fresh) "flow_seen st = now" "fst (track_packet d ?g info now ?ct)"
          "d = In \<longrightarrow> (\<exists>st0. ?ct ?g = Some st0 \<and> flow_active st0 (fl_proto ?g) now)"
      by blast
    then show ?thesis
    proof cases
      case (kept st0)
      with old show ?thesis by metis
    next
      case fresh
      with tracked(2) have c: "carries d ?g now fw ev" by blast
      show ?thesis
      proof (cases d)
        case Out
        with c fresh(1) run show ?thesis by (simp add: live_sent)
      next
        case In
        with fresh(3) obtain st0 where "?ct ?g = Some st0" "flow_active st0 (fl_proto ?g) now" by blast
        with inv flow_active_seen show ?thesis
          using live_answered [OF _ run c [unfolded In]] In fresh(1)
          by (fastforce simp: flows_justified_def)
      qed
    qed
  qed
  have "conntrack fw' f = ?ct f" if "f \<noteq> ?g" for f
    using ctk.other_flows [OF that, of d "(now, info)" ?ct] tracked(1) by (simp add: track_at_def)
  with old own show ?thesis by (metis flows_justified_def)
qed

lemma flows_justified_run:
  "fw_run fw0 evs fw \<Longrightarrow> conntrack fw0 = Map.empty \<Longrightarrow> flows_justified fw0 evs (conntrack fw)"
proof (induction rule: fw_run.induct)
  case (run_nil fw)
  then show ?case by (simp add: flows_justified_def)
next
  case (run_snoc fw evs fw1 ev fw2)
  then show ?case by (blast intro: flows_justified_step)
qed

subsection \<open>Flows that are gone stay gone\<close>

definition dead_flow :: "instant \<Rightarrow> flow \<Rightarrow> conntrack \<Rightarrow> bool" where
  "dead_flow since f ct \<longleftrightarrow> ct f = None \<or> ct f = Some (Closing since)"

text \<open>A run that never reopens the flow: what this host sends on it carries no SYN and is sent while
  the flow is still tracked. Everything else may happen.\<close>

inductive quiet_run :: "flow \<Rightarrow> shared_firewall \<Rightarrow> fw_event list \<Rightarrow> shared_firewall \<Rightarrow> bool" for f where
  quiet_nil: "quiet_run f fw [] fw"
| quiet_snoc: "quiet_run f fw evs fw1 \<Longrightarrow> fw_step fw1 ev fw2 \<Longrightarrow>
    (outbound_of f ev \<longrightarrow> \<not> syn_out ev \<and> conntrack fw1 f \<noteq> None) \<Longrightarrow>
    quiet_run f fw (evs @ [ev]) fw2"

lemma unsent_run_quiet:
  "fw_run fw evs fw' \<Longrightarrow> \<forall>ev\<in>set evs. \<not> outbound_of f ev \<Longrightarrow> quiet_run f fw evs fw'"
  by (induction rule: fw_run.induct) (auto intro: quiet_run.intros)

lemma track_closing_stays:
  assumes "ct f = Some (Closing since)" and "d = Out \<longrightarrow> tcp_flags info AND 2 = 0"
  shows "snd (track_packet d f info now ct) f = None \<or>
         snd (track_packet d f info now ct) f = Some (Closing since)"
  using assms by (auto simp: track_packet_def Let_def flow_record_def is_closing_def)

lemma dead_flow_step:
  assumes dead: "dead_flow since f (conntrack fw)" and "fw_step fw ev fw'"
    and quiet: "outbound_of f ev \<longrightarrow> \<not> syn_out ev \<and> conntrack fw f \<noteq> None"
  shows "dead_flow since f (conntrack fw')"
  using assms(2)
proof (cases rule: step_conntrack)
  case same
  with dead show ?thesis by simp
next
  case (expired now)
  with dead ctk.expire_shrinks [of now "conntrack fw" f] show ?thesis by (auto simp: dead_flow_def)
next
  case (tracked d info now)
  show ?thesis
  proof (cases "d = Out \<and> flow_of d info = f")
    case True
    with tracked quiet dead have "conntrack fw f = Some (Closing since)"
      and "tcp_flags info AND 2 = 0" by (auto simp: dead_flow_def)
    with track_closing_stays [of "conntrack fw" f since d info now] tracked(1) True
    show ?thesis by (auto simp: dead_flow_def track_at_def)
  next
    case False
    then have "d = Out \<Longrightarrow> flow_of d info \<noteq> f" by auto
    with ctk.stays_dead [of "conntrack fw" f "Closing since" d "flow_of d info" "(now, info)"]
      dead tracked(1)
    show ?thesis by (auto simp: dead_flow_def is_closing_def)
  qed
qed

lemma dead_flow_run:
  "quiet_run f fw evs fw' \<Longrightarrow> dead_flow since f (conntrack fw) \<Longrightarrow> dead_flow since f (conntrack fw')"
  by (induction rule: quiet_run.induct) (auto intro: dead_flow_step)

lemma untracked_step:
  assumes "conntrack fw f = None" and "fw_step fw ev fw'" and "\<not> outbound_of f ev"
  shows "conntrack fw' f = None"
  using assms(2)
proof (cases rule: step_conntrack)
  case same
  with assms(1) show ?thesis by simp
next
  case (expired now)
  with assms(1) ctk.expire_shrinks [of now "conntrack fw" f] show ?thesis by auto
next
  case (tracked d info now)
  with assms(3) have "\<not> (d = Out \<and> flow_of d info = f)" by auto
  with ctk.opened_by_outbound [of "conntrack fw" f d "flow_of d info" "(now, info)"] assms(1)
  show ?thesis unfolding tracked(1) by blast
qed

lemma untracked_run:
  assumes "fw_run fw evs fw'" and "conntrack fw f = None" and "\<forall>ev\<in>set evs. \<not> outbound_of f ev"
  shows "conntrack fw' f = None"
  using assms by (induction rule: fw_run.induct) (auto intro: untracked_step)

lemma untracked_no_rescue:
  assumes "conntrack fw (flow_of In info) = None"
  shows "fst (evaluate_packet In info peer sh now fw) = v_action (explain ssh In info peer sh fw)"
  using fst_fw_track_In [of info now fw] assms by (auto simp: evaluate_packet_fst [where ssh = ssh])

lemma track_rst_untracks:
  assumes "fl_proto f = 6" and "tcp_flags info AND 4 \<noteq> 0" and "protocol info = 6"
  shows "snd (track_packet d f info now ct) f = None"
proof -
  have "tcp_flags info AND 5 \<noteq> 0"
  proof
    assume "tcp_flags info AND 5 = 0"
    then have "(tcp_flags info AND 5) AND 4 = 0" by simp
    moreover have "(tcp_flags info AND 5) AND 4 = tcp_flags info AND 4"
      by (simp add: and.assoc)
    ultimately show False using assms(2) by simp
  qed
  with assms show ?thesis
    by (cases "ct f") (auto simp: track_packet_def Let_def is_icmp_def conntrack_eligible_def)
qed

lemma evaluate_rst_untracks:
  assumes "\<not> disabled (inner fw)" and "protocol info = 6" and "tcp_flags info AND 4 \<noteq> 0"
    and "fst (evaluate_packet d info peer sh now fw) = Allow"
  shows "conntrack (snd (evaluate_packet d info peer sh now fw)) (flow_of d info) = None"
proof -
  have "fl_proto (flow_of d info) = 6" using assms(2) by (cases d) (simp_all add: flow_of_def)
  then have t: "conntrack (snd (fw_track d info now fw)) (flow_of d info) = None"
    using track_rst_untracks assms(2,3) by (simp add: fw_track_conntrack)
  have "conntrack_eligible info" using assms(2) by (simp add: conntrack_eligible_def is_icmp_def)
  with assms t show ?thesis
    by (cases d) (auto simp: evaluate_packet_def Let_def case_prod_beta is_allow_def split: option.splits)
qed

lemma dead_flow_no_rescue:
  assumes "dead_flow since (flow_of In info) (conntrack fw)" and "since + tcp_closing_timeout \<le> now"
  shows "fst (evaluate_packet In info peer sh now fw) = v_action (explain ssh In info peer sh fw)"
proof -
  have "\<not> fst (fw_track In info now fw)"
    using assms fst_fw_track_In [of info now fw]
    by (auto simp: dead_flow_def flow_active_def)
  then show ?thesis by (simp add: evaluate_packet_fst [where ssh = ssh])
qed

subsection \<open>Properties\<close>

text \<open>C5. No unsolicited inbound traffic: in every state the firewall reaches from a fresh start,
  whatever packets, replies, evictions and configuration changes came before, an inbound packet that
  neither a rule nor the default would allow is admitted only on a live flow: this host sent an
  outbound packet of the flow that was allowed, and from it a chain of packets of the flow that were
  let pass, each less than the flow timeout after the one before, leads to one seen less than the
  flow timeout ago. Packets that were refused keep no flow alive.\<close>

theorem inbound_admission_needs_outbound:
  assumes "fw_run (new_firewall cfg) evs fw"
    and "v_action (explain ssh In info peer sh fw) = Deny"
    and "fst (evaluate_packet In info peer sh now fw) = Allow"
  shows "(\<exists>ev\<in>set evs. outbound_of (flow_of In info) ev) \<and>
         (\<exists>t. flow_live (new_firewall cfg) evs (flow_of In info) t \<and>
              now - t < flow_timeout (protocol info))"
proof -
  have "fst (fw_track In info now fw)"
    using evaluate_packet_fst [of In info peer sh now fw ssh] assms(2,3) by (auto split: if_splits)
  then obtain st where st: "conntrack fw (flow_of In info) = Some st"
    and act: "flow_active st (protocol info) now"
    using fst_fw_track_In by blast
  have "flows_justified (new_firewall cfg) evs (conntrack fw)"
    using flows_justified_run [OF assms(1)] by (simp add: new_firewall_def)
  with st have live: "flow_live (new_firewall cfg) evs (flow_of In info) (flow_seen st)"
    by (auto simp: flows_justified_def)
  with flow_live_outbound [OF live] flow_active_seen [OF act] show ?thesis by blast
qed

definition sample_query_ev :: fw_event where
  "sample_query_ev = PacketEv 0 Out (sample_info 17 4000 53 0) 7 (\<lambda>_. True)"

lemma sample_query_step:
  "fw_step (new_firewall default_config) sample_query_ev
     \<lparr> inner = default_config, conntrack = [flow_of In (sample_reply 17 53 4000 0) \<mapsto> Active 0] \<rparr>"
proof -
  have "snd (evaluate_packet Out (sample_info 17 4000 53 0) 7 (\<lambda>_. True) 0 (new_firewall default_config)) =
     \<lparr> inner = default_config, conntrack = [flow_of In (sample_reply 17 53 4000 0) \<mapsto> Active 0] \<rparr>"
    by (simp add: evaluate_packet_def sample_defs match_rule_def rule_match_defs default_for_def
        is_allow_def fw_track_def track_packet_def flow_of_def is_icmp_def)
  then show ?thesis unfolding sample_query_ev_def by (metis step_packet)
qed

theorem inbound_admission_needs_outbound_witness:
  "(\<exists>t. flow_live (new_firewall default_config) [sample_query_ev]
          (flow_of In (sample_reply 17 53 4000 0)) t \<and> 5 - t < secs 30) \<and>
   fst (evaluate_packet In (sample_reply 17 53 4000 0) 7 (\<lambda>_. True) 5 sample_tracked) = Allow"
proof -
  have run: "fw_run (new_firewall default_config) [sample_query_ev] sample_tracked"
    using run_snoc [OF run_nil sample_query_step] by (simp add: sample_tracked_def)
  have v: "v_action (explain 22 In (sample_reply 17 53 4000 0) 7 (\<lambda>_. True) sample_tracked) = Deny"
    by (simp add: explain_def sample_tracked_def sample_defs match_rule_def rule_match_defs
        default_for_def)
  have e: "fst (evaluate_packet In (sample_reply 17 53 4000 0) 7 (\<lambda>_. True) 5 sample_tracked) = Allow"
    by (simp add: evaluate_packet_def sample_tracked_def sample_defs match_rule_def rule_match_defs
        conntrack_eligible_def is_icmp_def fw_track_def track_packet_def flow_of_def flow_active_def
        udp_flow_timeout_def)
  have "flow_timeout (protocol (sample_reply 17 53 4000 0)) = secs 30"
    by (simp add: flow_timeout_def sample_defs udp_flow_timeout_def)
  with inbound_admission_needs_outbound [OF run v e] e show ?thesis by metis
qed

text \<open>C30. The closing window is fixed: once both sides of a TCP connection sent their FIN, no inbound
  packet, exit reply, eviction or configuration change prolongs it, and neither do outbound packets
  other than a new SYN, as long as the entry is still there when they are sent. In every such history
  an inbound packet 30 seconds later faces the rules and the default alone.\<close>

theorem closing_window_fixed:
  assumes "conntrack fw (flow_of In info) = Some (Closing since)"
    and "quiet_run (flow_of In info) fw evs fw'"
    and "since + secs 30 \<le> now"
  shows "fst (evaluate_packet In info peer sh now fw') = v_action (explain ssh In info peer sh fw')"
proof (rule dead_flow_no_rescue)
  show "dead_flow since (flow_of In info) (conntrack fw')"
    using dead_flow_run [OF assms(2)] assms(1) by (simp add: dead_flow_def)
  show "since + tcp_closing_timeout \<le> now" using assms(3) by (simp add: tcp_closing_timeout_def)
qed

definition sample_tcp_flow :: "flow_state \<Rightarrow> shared_firewall" where
  "sample_tcp_flow st =
     \<lparr> inner = default_config, conntrack = [flow_of In (sample_reply 6 80 4000 16) \<mapsto> st] \<rparr>"

theorem closing_window_fixed_witness:
  "fst (evaluate_packet In (sample_reply 6 80 4000 16) 7 (\<lambda>_. True) (secs 31)
      (snd (evaluate_packet Out (sample_info 6 4000 80 16) 7 (\<lambda>_. True) (secs 29)
         (evict 3 (sample_tcp_flow (Closing 0)))))) = Deny"
  (is "fst (evaluate_packet In ?i 7 _ _ (snd (evaluate_packet Out ?o 7 _ _ (evict 3 ?fw)))) = Deny")
proof -
  let ?f = "flow_of In ?i"
  define fw2 where "fw2 = snd (evaluate_packet Out ?o 7 (\<lambda>_. True) (secs 29) (evict 3 ?fw))"
  have q1: "quiet_run ?f ?fw ([] @ [EvictEv 3]) (evict 3 ?fw)"
    by (rule quiet_snoc [OF quiet_nil step_evict]) simp
  have c: "conntrack (evict 3 ?fw) ?f = Some (Closing 0)"
    by (simp add: evict_def evict_idle_def sample_tcp_flow_def flow_active_def tcp_closing_timeout_def)
  have s: "\<not> syn_out (PacketEv (secs 29) Out ?o 7 (\<lambda>_. True))" by (simp add: sample_defs)
  have q2: "quiet_run ?f ?fw (([] @ [EvictEv 3]) @ [PacketEv (secs 29) Out ?o 7 (\<lambda>_. True)]) fw2"
    unfolding fw2_def by (rule quiet_snoc [OF q1 step_packet]) (use c s in simp)
  have "fst (evaluate_packet In ?i 7 (\<lambda>_. True) (secs 31) fw2) =
      v_action (explain 22 In ?i 7 (\<lambda>_. True) fw2)"
    by (rule closing_window_fixed [OF _ q2, of 0]) (simp_all add: sample_tcp_flow_def)
  also have "\<dots> = Deny"
    by (simp add: explain_def fw2_def evict_def sample_tcp_flow_def sample_defs match_rule_def
        rule_match_defs default_for_def)
  finally show ?thesis by (simp add: fw2_def)
qed

text \<open>C16. A reset ends the flow at once: when the firewall is on and allows a TCP packet with RST, in
  either direction, the flow is untracked, and until this host sends on it again it stays untracked
  and every inbound packet of it gets exactly the verdict of the rules and the default. In particular
  it is denied when those deny it.\<close>

theorem rst_ends_flow:
  assumes "\<not> disabled (inner fw)" and "protocol info = 6" and "tcp_flags info AND 4 \<noteq> 0"
    and "evaluate_packet d info peer sh now fw = (Allow, fw1)"
    and "flow_of d info = flow_of In info'"
    and "fw_run fw1 evs fw2" and "\<forall>ev\<in>set evs. \<not> outbound_of (flow_of In info') ev"
  shows "conntrack fw2 (flow_of In info') = None \<and>
    fst (evaluate_packet In info' peer' sh' now' fw2) = v_action (explain ssh In info' peer' sh' fw2)"
proof -
  have "conntrack fw1 (flow_of d info) = None"
    using evaluate_rst_untracks [OF assms(1-3)] assms(4) by (metis fst_conv snd_conv)
  then have "conntrack fw2 (flow_of In info') = None"
    using untracked_run [OF assms(6)] assms(5,7) by simp
  then show ?thesis using untracked_no_rescue by blast
qed

theorem rst_ends_flow_witness:
  "fst (evaluate_packet In (sample_reply 6 80 4000 16) 7 (\<lambda>_. True) 2
      (snd (evaluate_packet In (sample_reply 6 80 4000 4) 7 (\<lambda>_. True) 1
         (sample_tcp_flow (Active 0))))) = Deny"
  (is "fst (evaluate_packet In ?i 7 _ 2 (snd (evaluate_packet In ?r 7 _ 1 ?fw))) = Deny")
proof -
  define fw1 where "fw1 = snd (evaluate_packet In ?r 7 (\<lambda>_. True) 1 ?fw)"
  have e: "evaluate_packet In ?r 7 (\<lambda>_. True) 1 ?fw = (Allow, fw1)"
    unfolding fw1_def
    by (simp add: evaluate_packet_def sample_tcp_flow_def sample_defs match_rule_def rule_match_defs
        conntrack_eligible_def is_icmp_def fw_track_def track_packet_def flow_of_def flow_active_def
        tcp_flow_timeout_def)
  have i: "inner fw1 = default_config"
    unfolding fw1_def by (simp add: sample_tcp_flow_def)
  have "fst (evaluate_packet In ?i 7 (\<lambda>_. True) 2 fw1) = v_action (explain 22 In ?i 7 (\<lambda>_. True) fw1)"
    by (rule rst_ends_flow [THEN conjunct2, OF _ _ _ e _ run_nil]) (simp_all add: sample_tcp_flow_def sample_defs flow_of_def)
  also have "\<dots> = Deny"
    by (simp add: explain_def i sample_defs match_rule_def rule_match_defs default_for_def)
  finally show ?thesis by (simp add: fw1_def)
qed

end
