(* ===== verification/Firewall_Text.thy ===== *)
theory Firewall_Text
  imports Firewall Ray_Text
begin

text \<open>
  The texts of the firewall: port and protocol specifications (\<open>parse_port_range\<close>,
  \<open>parse_port_list\<close>, \<open>parse_spec_token\<close>, \<open>parse_probe\<close>), excluded-peer selectors, the rules a node
  materializes from its coordinator's suggestions, and the view of a rule that the CLI prints. The
  lemmas show that what the view prints parses back to the rule's ports, and that materialized
  rules stay inside the network that suggested them.
\<close>

subsection \<open>Ports and protocols\<close>

datatype spec_error =
    InvalidStartPort
  | InvalidEndPort
  | StartAfterEnd u16 u16
  | InvalidPortNumber
  | NoValidPort
  | InvalidProtocol string
  | MissingProtocol string
  | NoSingleProtocol string
  | NotSinglePort string
  | InvalidSelector string
  | InvalidExcludedPeer string

definition parse_protocol :: "string \<Rightarrow> spec_error + proto_filter" where
  "parse_protocol s =
     (if s = ''tcp'' then Inr Tcp
      else if s = ''udp'' then Inr Udp
      else if s = ''icmp'' then Inr Icmp
      else if s = ''any'' then Inr AnyProto
      else Inl (InvalidProtocol s))"

definition show_protocol :: "proto_filter \<Rightarrow> string" where
  "show_protocol p = (case p of Tcp \<Rightarrow> ''tcp'' | Udp \<Rightarrow> ''udp'' | Icmp \<Rightarrow> ''icmp'' | AnyProto \<Rightarrow> ''any'')"

definition parse_port_range :: "string \<Rightarrow> spec_error + port_range" where
  "parse_port_range s =
     (if trim s = ''*'' then Inr \<lparr> pr_start = 0, pr_end = - 1 \<rparr>
      else case split_once (CHR ''-'') s of
        Some (a, b) \<Rightarrow>
          (case parse_u16 a of
             None \<Rightarrow> Inl InvalidStartPort
           | Some start \<Rightarrow>
               (case parse_u16 b of
                  None \<Rightarrow> Inl InvalidEndPort
                | Some stop \<Rightarrow>
                    if start > stop then Inl (StartAfterEnd start stop)
                    else Inr \<lparr> pr_start = start, pr_end = stop \<rparr>))
      | None \<Rightarrow>
          (case parse_u16 s of
             None \<Rightarrow> Inl InvalidPortNumber
           | Some p \<Rightarrow> Inr \<lparr> pr_start = p, pr_end = p \<rparr>))"

definition comma_items :: "string \<Rightarrow> string list" where
  "comma_items s = filter (\<lambda>i. i \<noteq> []) (map trim (split_on (CHR '','') s))"

definition parse_port_list :: "string \<Rightarrow> spec_error + port_range list" where
  "parse_port_list s =
     (case collect_results (map parse_port_range (comma_items s)) of
        Inl e \<Rightarrow> Inl e
      | Inr ranges \<Rightarrow> if ranges = [] then Inl NoValidPort else Inr ranges)"

definition all_ports :: port_range where
  "all_ports = \<lparr> pr_start = 0, pr_end = - 1 \<rparr>"

definition parse_spec_token :: "string \<Rightarrow> spec_error + (proto_filter \<times> port_range option)" where
  "parse_spec_token tok0 =
     (let tok = trim tok0 in
      case split_once (CHR '':'') tok of
        Some (proto_str, port_str) \<Rightarrow>
          (case parse_protocol proto_str of
             Inl e \<Rightarrow> Inl e
           | Inr proto \<Rightarrow>
               (if proto = Icmp \<or> proto = AnyProto then Inr (proto, None)
                else case parse_port_range port_str of
                       Inl e \<Rightarrow> Inl e
                     | Inr rg \<Rightarrow> Inr (proto, Some rg)))
      | None \<Rightarrow>
          (if parse_u16 tok \<noteq> None then Inl (MissingProtocol tok)
           else case parse_protocol tok of
                  Inl e \<Rightarrow> Inl e
                | Inr proto \<Rightarrow>
                    (if proto = Icmp \<or> proto = AnyProto then Inr (proto, None)
                     else Inr (proto, Some all_ports))))"

definition parse_probe :: "string \<Rightarrow> spec_error + (proto_filter \<times> u16 option)" where
  "parse_probe spec =
     (case parse_spec_token spec of
        Inl e \<Rightarrow> Inl e
      | Inr (proto, ports) \<Rightarrow>
          (if proto = AnyProto then Inl (NoSingleProtocol spec)
           else if proto = Icmp then Inr (Icmp, None)
           else case ports of
                  Some rg \<Rightarrow> if pr_start rg = pr_end rg then Inr (proto, Some (pr_start rg))
                            else Inl (NotSinglePort spec)
                | None \<Rightarrow> Inl (NotSinglePort spec)))"

subsection \<open>Excluded peers\<close>

definition machine_hostname :: "string \<Rightarrow> string option" where
  "machine_hostname s =
     (if s = [] \<or> length s > 63 \<or> hd s = CHR ''-'' \<or> last s = CHR ''-'' \<or>
         \<not> list_all (\<lambda>c. is_lower c \<or> is_digit c \<or> c = CHR ''-'') s
      then None else Some s)"

definition parse_excluded_peer_terms :: "string \<Rightarrow> spec_error + string list option" where
  "parse_excluded_peer_terms selector =
     (case strip_prefix ''*-'' selector of
        None \<Rightarrow> Inr None
      | Some terms \<Rightarrow>
          (let exclusions = split_on (CHR '','') terms
           in if list_all (\<lambda>t. t \<noteq> []) exclusions then Inr (Some exclusions)
              else Inl (InvalidSelector selector)))"

definition parse_excluded_peers :: "string \<Rightarrow> spec_error + string list option" where
  "parse_excluded_peers selector =
     (case parse_excluded_peer_terms selector of
        Inl e \<Rightarrow> Inl e
      | Inr None \<Rightarrow> Inr None
      | Inr (Some terms) \<Rightarrow>
          (case collect_results (map (\<lambda>h. case machine_hostname h of
                                             None \<Rightarrow> Inl (InvalidExcludedPeer h)
                                           | Some n \<Rightarrow> Inr n) terms) of
             Inl e \<Rightarrow> Inl e
           | Inr hosts \<Rightarrow> Inr (Some (remdups_adj (sort hosts)))))"

subsection \<open>Suggested rules\<close>

text \<open>The two \<open>BTreeMap\<close>s of \<open>HostSuggestions\<close> and the \<open>SuggestedFirewall\<close> map are association lists
  in key order.\<close>

record host_suggestions =
  allows :: "(string \<times> string) list"
  denies :: "(string \<times> string) list"

type_synonym suggested_firewall = "(string \<times> host_suggestions) list"

text \<open>The \<open>match\<close> that chooses the peer filter of one entry; \<open>None\<close> is its \<open>continue\<close>.\<close>

definition suggestion_filter ::
    "(string \<Rightarrow> endpoint_id option) \<Rightarrow> (string \<Rightarrow> endpoint_id option) \<Rightarrow> action \<Rightarrow> string \<Rightarrow> peer_filter option" where
  "suggestion_filter resolve resolve_excluded action peer =
     (case parse_excluded_peers peer of
        Inr (Some hostnames) \<Rightarrow>
          if action = Allow then Some (Except hostnames (List.map_filter resolve_excluded hostnames))
          else None
      | Inl _ \<Rightarrow> None
      | Inr None \<Rightarrow>
          if peer = ''*'' then Some AnyPeer
          else map_option Identity (resolve peer))"

definition suggestion_rules :: "string \<Rightarrow> action \<Rightarrow> peer_filter \<Rightarrow> string \<Rightarrow> firewall_rule list" where
  "suggestion_rules net action flt ports =
     List.map_filter (\<lambda>tok. case parse_spec_token tok of
                              Inl _ \<Rightarrow> None
                            | Inr (proto, port) \<Rightarrow>
                                Some \<lparr> fr_direction = In, fr_action = action, fr_protocol = proto,
                                       fr_port = port, fr_peer = flt, fr_network = Some net,
                                       fr_origin = Network net \<rparr>)
       (comma_items ports)"

definition host_rules ::
    "string \<Rightarrow> (string \<Rightarrow> endpoint_id option) \<Rightarrow> (string \<Rightarrow> endpoint_id option) \<Rightarrow>
     action \<Rightarrow> (string \<times> string) list \<Rightarrow> firewall_rule list" where
  "host_rules net resolve resolve_excluded action entries =
     concat (map (\<lambda>(peer, ports).
       case suggestion_filter resolve resolve_excluded action peer of
         None \<Rightarrow> []
       | Some flt \<Rightarrow> suggestion_rules net action flt ports) entries)"

definition materialize_suggestions_with_exclusion_resolver ::
    "string \<Rightarrow> string \<Rightarrow> suggested_firewall \<Rightarrow> (string \<Rightarrow> endpoint_id option) \<Rightarrow>
     (string \<Rightarrow> endpoint_id option) \<Rightarrow> firewall_rule list" where
  "materialize_suggestions_with_exclusion_resolver net my_hostname suggestions resolve resolve_excluded =
     (let keys = (if my_hostname \<noteq> ''*'' then [''*'', my_hostname] else [''*''])
      in concat (map (\<lambda>host. host_rules net resolve resolve_excluded Allow (allows host) @
                             host_rules net resolve resolve_excluded Deny (denies host))
                     (List.map_filter (map_of suggestions) keys)))"

definition materialize_suggestions ::
    "string \<Rightarrow> string \<Rightarrow> suggested_firewall \<Rightarrow> (string \<Rightarrow> endpoint_id option) \<Rightarrow> firewall_rule list" where
  "materialize_suggestions net my_hostname suggestions resolve =
     materialize_suggestions_with_exclusion_resolver net my_hostname suggestions resolve resolve"

subsection \<open>Rule views\<close>

record rule_view =
  rv_direction :: direction
  rv_action :: action
  rv_protocol :: proto_filter
  rv_port :: string
  rv_peer :: string
  rv_network :: string
  rv_suggested_by :: "string option"

definition show_port :: "port_range option \<Rightarrow> string" where
  "show_port p =
     (case p of
        None \<Rightarrow> ''*''
      | Some r \<Rightarrow> if pr_start r = pr_end r then show_u16 (pr_start r)
                 else show_u16 (pr_start r) @ ''-'' @ show_u16 (pr_end r))"

definition rule_view_of :: "(endpoint_id \<Rightarrow> string) \<Rightarrow> firewall_rule \<Rightarrow> rule_view" where
  "rule_view_of short_id rule =
     \<lparr> rv_direction = fr_direction rule, rv_action = fr_action rule, rv_protocol = fr_protocol rule,
       rv_port = show_port (fr_port rule),
       rv_peer = (case fr_peer rule of
                    AnyPeer \<Rightarrow> ''any''
                  | Identity i \<Rightarrow> short_id i
                  | Except hostnames _ \<Rightarrow> ''any except '' @ join '','' hostnames),
       rv_network = (case fr_network rule of None \<Rightarrow> ''any'' | Some n \<Rightarrow> n),
       rv_suggested_by = (case fr_origin rule of
                            Local \<Rightarrow> None
                          | Network n \<Rightarrow> Some n
                          | Ssh \<Rightarrow> Some ''ssh'') \<rparr>"

definition rule_views :: "(endpoint_id \<Rightarrow> string) \<Rightarrow> firewall_rule list \<Rightarrow> rule_view list" where
  "rule_views short_id rs = map (rule_view_of short_id) rs"

subsection \<open>Lemmas\<close>

lemma show_u16_chars:
  "c \<in> set (show_u16 w) \<Longrightarrow>
     \<not> is_space c \<and> c \<noteq> CHR ''+'' \<and> c \<noteq> CHR ''-'' \<and> c \<noteq> CHR ''*'' \<and> c \<noteq> CHR '','' \<and> c \<noteq> CHR '':''"
  unfolding show_u16_def by (rule show_nat_chars)

lemma show_u16_minus [simp]: "CHR ''-'' \<notin> set (show_u16 w)"
  using show_u16_chars by blast

lemma show_port_chars:
  "c \<in> set (show_port (Some r)) \<Longrightarrow> \<not> is_space c \<and> c \<noteq> CHR ''*'' \<and> c \<noteq> CHR '','' \<and> c \<noteq> CHR '':''"
  using show_u16_chars by (auto simp: show_port_def is_space_def split: if_splits)

lemma trim_show_port: "trim (show_port (Some r)) = show_port (Some r)"
  using show_port_chars by (intro trim_no_space) blast

lemma show_port_not_star: "show_port (Some r) \<noteq> ''*''"
  using show_port_chars [of "CHR ''*''" r] by auto

lemma parse_show_port:
  assumes "pr_start r \<le> pr_end r"
  shows "parse_port_range (show_port (Some r)) = Inr r"
proof (cases "pr_start r = pr_end r")
  case True
  then have "split_once (CHR ''-'') (show_port (Some r)) = None"
    by (simp add: show_port_def split_once_None)
  with True show ?thesis
    by (simp add: parse_port_range_def trim_show_port show_port_not_star) (simp add: show_port_def)
next
  case False
  then have "split_once (CHR ''-'') (show_port (Some r)) = Some (show_u16 (pr_start r), show_u16 (pr_end r))"
    by (simp add: show_port_def split_once_append)
  with assms show ?thesis
    by (simp add: parse_port_range_def trim_show_port show_port_not_star)
qed

lemma parse_port_range_ordered: "parse_port_range s = Inr r \<Longrightarrow> pr_start r \<le> pr_end r"
  by (auto simp: parse_port_range_def not_less split: if_splits option.splits)

lemma map_filter_member: "y \<in> set (List.map_filter f xs) \<longleftrightarrow> (\<exists>x\<in>set xs. f x = Some y)"
  by (force simp: List.map_filter_def)

lemma suggestion_rules_shape:
  "r \<in> set (suggestion_rules net a flt ports) \<Longrightarrow>
     fr_direction r = In \<and> fr_action r = a \<and> fr_peer r = flt \<and> fr_network r = Some net \<and>
     fr_origin r = Network net"
proof -
  assume "r \<in> set (suggestion_rules net a flt ports)"
  then obtain tok where "(case parse_spec_token tok of
      Inl _ \<Rightarrow> None
    | Inr (proto, port) \<Rightarrow>
        Some \<lparr> fr_direction = In, fr_action = a, fr_protocol = proto, fr_port = port,
               fr_peer = flt, fr_network = Some net, fr_origin = Network net \<rparr>) = Some r"
    unfolding suggestion_rules_def map_filter_member by blast
  then show ?thesis by (cases "parse_spec_token tok") auto
qed

lemma host_rules_member:
  assumes "r \<in> set (host_rules net res exc a entries)"
  obtains peer ports flt where "(peer, ports) \<in> set entries"
    and "suggestion_filter res exc a peer = Some flt" and "r \<in> set (suggestion_rules net a flt ports)"
proof -
  from assms obtain peer ports where e: "(peer, ports) \<in> set entries"
    and r: "r \<in> set (case suggestion_filter res exc a peer of
                 None \<Rightarrow> [] | Some flt \<Rightarrow> suggestion_rules net a flt ports)"
    unfolding host_rules_def by auto
  from r that [OF e] show thesis by (cases "suggestion_filter res exc a peer") auto
qed

lemma suggestion_filter_Except:
  assumes "suggestion_filter res exc a peer = Some (Except hosts ids)"
  shows "a = Allow \<and> ids = List.map_filter exc hosts \<and> parse_excluded_peers peer = Inr (Some hosts)"
  using assms by (auto simp: suggestion_filter_def split: sum.splits option.splits if_splits)

lemma parse_show_protocol: "parse_protocol (show_protocol p) = Inr p"
  by (cases p) (simp_all add: parse_protocol_def show_protocol_def)

lemma show_protocol_chars: "c \<in> set (show_protocol p) \<Longrightarrow> \<not> is_space c \<and> c \<noteq> CHR '':''"
  by (cases p) (auto simp: show_protocol_def is_space_def)

lemma parse_spec_token_shape:
  assumes "parse_spec_token s = Inr (proto, port)"
  shows "port = None \<and> (proto = Icmp \<or> proto = AnyProto) \<or>
         (\<exists>r. port = Some r \<and> pr_start r \<le> pr_end r \<and> (proto = Tcp \<or> proto = Udp))"
proof -
  have "proto = Tcp \<or> proto = Udp \<or> proto = Icmp \<or> proto = AnyProto" by (cases proto) auto
  with assms show ?thesis
    by (fastforce simp: parse_spec_token_def Let_def all_ports_def
        dest: parse_port_range_ordered split: option.splits sum.splits if_splits)
qed

lemma parse_spec_token_show:
  assumes "trim port_str = port_str \<and> (\<forall>c\<in>set port_str. \<not> is_space c)"
  shows "parse_spec_token (show_protocol proto @ '':'' @ port_str) =
     (if proto = Icmp \<or> proto = AnyProto then Inr (proto, None)
      else case parse_port_range port_str of Inl e \<Rightarrow> Inl e | Inr rg \<Rightarrow> Inr (proto, Some rg))"
proof -
  have "trim (show_protocol proto @ '':'' @ port_str) = show_protocol proto @ '':'' @ port_str"
    using assms show_protocol_chars by (intro trim_no_space) (auto simp: is_space_def)
  moreover have "split_once (CHR '':'') (show_protocol proto @ '':'' @ port_str) =
      Some (show_protocol proto, port_str)"
    using show_protocol_chars [of "CHR '':''" proto] by (auto intro: split_once_append)
  ultimately show ?thesis
    by (simp add: parse_spec_token_def parse_show_protocol)
qed

lemma materialized_member:
  assumes "r \<in> set (materialize_suggestions_with_exclusion_resolver net me sugg res exc)"
  obtains host peer ports flt where "map_of sugg ''*'' = Some host \<or> map_of sugg me = Some host"
    and "fr_action r = Allow \<and> (peer, ports) \<in> set (allows host) \<or>
         fr_action r = Deny \<and> (peer, ports) \<in> set (denies host)"
    and "suggestion_filter res exc (fr_action r) peer = Some flt"
    and "r \<in> set (suggestion_rules net (fr_action r) flt ports)"
proof -
  define keys where "keys = (if me \<noteq> ''*'' then [''*'', me] else [''*''])"
  from assms obtain host where "host \<in> set (List.map_filter (map_of sugg) keys)"
    and rules: "r \<in> set (host_rules net res exc Allow (allows host)) \<or>
         r \<in> set (host_rules net res exc Deny (denies host))"
    unfolding materialize_suggestions_with_exclusion_resolver_def Let_def keys_def [symmetric] by auto
  then obtain key where h: "key = ''*'' \<or> key = me" "map_of sugg key = Some host"
    unfolding map_filter_member by (auto simp: keys_def split: if_splits)
  from rules consider "r \<in> set (host_rules net res exc Allow (allows host))"
    | "r \<in> set (host_rules net res exc Deny (denies host))" by blast
  then show thesis
  proof cases
    case 1
    then show thesis
    proof (rule host_rules_member)
      fix peer ports flt
      assume "(peer, ports) \<in> set (allows host)" "suggestion_filter res exc Allow peer = Some flt"
        "r \<in> set (suggestion_rules net Allow flt ports)"
      with suggestion_rules_shape [of r net Allow flt ports] h that [of host peer ports flt]
      show thesis by auto
    qed
  next
    case 2
    then show thesis
    proof (rule host_rules_member)
      fix peer ports flt
      assume "(peer, ports) \<in> set (denies host)" "suggestion_filter res exc Deny peer = Some flt"
        "r \<in> set (suggestion_rules net Deny flt ports)"
      with suggestion_rules_shape [of r net Deny flt ports] h that [of host peer ports flt]
      show thesis by auto
    qed
  qed
qed

subsection \<open>Properties\<close>

text \<open>C39. Port texts round trip: whatever specification a user or coordinator wrote, if it parses,
  then printing its protocol and ports the way rule views do gives a text that parses to the same
  protocol and ports.\<close>

theorem spec_token_round_trip:
  assumes "parse_spec_token s = Inr (fr_protocol rule, fr_port rule)"
  shows "parse_spec_token (show_protocol (rv_protocol (rule_view_of sid rule)) @ '':'' @
           rv_port (rule_view_of sid rule)) = Inr (fr_protocol rule, fr_port rule)"
proof -
  from parse_spec_token_shape [OF assms] consider
      "fr_port rule = None" "fr_protocol rule = Icmp \<or> fr_protocol rule = AnyProto"
    | r where "fr_port rule = Some r" "pr_start r \<le> pr_end r" "fr_protocol rule \<noteq> Icmp"
        "fr_protocol rule \<noteq> AnyProto" by auto
  then show ?thesis
  proof cases
    case 1
    have "trim ''*'' = ''*'' \<and> (\<forall>c\<in>set ''*''. \<not> is_space c)" by (simp add: trim_def is_space_def)
    from parse_spec_token_show [OF this, of "fr_protocol rule"] 1 show ?thesis
      by (simp add: rule_view_of_def show_port_def)
  next
    case (2 r)
    have "trim (show_port (Some r)) = show_port (Some r) \<and> (\<forall>c\<in>set (show_port (Some r)). \<not> is_space c)"
      using trim_show_port show_port_chars by blast
    from parse_spec_token_show [OF this, of "fr_protocol rule"] 2 show ?thesis
      by (simp add: rule_view_of_def parse_show_port)
  qed
qed

lemma sample_spec: "parse_spec_token '' tcp:80-443 '' = Inr (Tcp, Some \<lparr> pr_start = 80, pr_end = 443 \<rparr>)"
  by (simp add: parse_spec_token_def trim_def is_space_def parse_protocol_def parse_port_range_def
      parse_u16_def parse_unsigned_def is_digit_def digits_value_def digit_value_def)

theorem spec_token_round_trip_witness:
  "parse_spec_token (show_protocol Tcp @ '':'' @ show_port (Some \<lparr> pr_start = 80, pr_end = 443 \<rparr>)) =
     Inr (Tcp, Some \<lparr> pr_start = 80, pr_end = 443 \<rparr>)"
proof -
  let ?r = "(deny_tcp_rule 80 None)\<lparr> fr_port := Some \<lparr> pr_start = 80, pr_end = 443 \<rparr> \<rparr>"
  have "parse_spec_token '' tcp:80-443 '' = Inr (fr_protocol ?r, fr_port ?r)"
    by (simp add: sample_spec deny_tcp_rule_def)
  from spec_token_round_trip [OF this] show ?thesis
    by (simp add: rule_view_of_def deny_tcp_rule_def)
qed

text \<open>C23. Suggestions stay inside their network: every rule a node materializes is inbound, tagged
  with the suggesting network, and matches only peers that share it; a wildcard with exclusions
  yields allow rules only, and none of them matches a peer it resolved and excludes; installing them
  replaces exactly this network's rules, and installing them twice is installing them once.\<close>

theorem materialized_rules_confined:
  assumes "mats = materialize_suggestions_with_exclusion_resolver net me sugg res exc"
    and "cfg' = cfg_replace_network_rules net mats cfg" and "r \<in> set mats"
  shows "fr_direction r = In \<and> fr_origin r = Network net \<and>
    (rule_matches d proto dport peer sh r \<longrightarrow> sh net) \<and>
    (\<forall>hosts ids. fr_peer r = Except hosts ids \<longrightarrow>
       fr_action r = Allow \<and> (\<forall>h\<in>set hosts. exc h = Some peer \<longrightarrow> \<not> rule_matches d proto dport peer sh r)) \<and>
    filter (\<lambda>x. fr_origin x = Network net) (rules cfg') = mats \<and>
    filter (\<lambda>x. fr_origin x \<noteq> Network net) (rules cfg') =
      filter (\<lambda>x. fr_origin x \<noteq> Network net) (rules cfg) \<and>
    cfg_replace_network_rules net mats cfg' = cfg'"
proof -
  have org: "fr_origin x = Network net" if "x \<in> set mats" for x
    using that unfolding assms(1) by (rule materialized_member) (auto dest: suggestion_rules_shape)
  from assms(1,3) have "r \<in> set (materialize_suggestions_with_exclusion_resolver net me sugg res exc)"
    by simp
  then show ?thesis
  proof (rule materialized_member)
    fix host p ports flt
    assume flt: "suggestion_filter res exc (fr_action r) p = Some flt"
      and r: "r \<in> set (suggestion_rules net (fr_action r) flt ports)"
    note shape = suggestion_rules_shape [OF r]
    have "fr_action r = Allow \<and> (\<forall>h\<in>set hosts. exc h = Some peer \<longrightarrow> \<not> rule_matches d proto dport peer sh r)"
      if "fr_peer r = Except hosts ids" for hosts ids
    proof -
      from that shape flt have "suggestion_filter res exc (fr_action r) p = Some (Except hosts ids)" by simp
      from suggestion_filter_Except [OF this] that show ?thesis
        by (auto simp: rule_matches_def peer_matches_def map_filter_member)
    qed
    moreover have "filter (\<lambda>x. fr_origin x = Network net) mats = mats"
      "filter (\<lambda>x. fr_origin x \<noteq> Network net) mats = []"
      using org by (auto simp: filter_id_conv filter_empty_conv)
    ultimately show ?thesis
      using shape
      by (simp add: assms(2) cfg_replace_network_rules_def rule_matches_def flip: assms(1))
  qed
qed

definition sample_suggestions :: suggested_firewall where
  "sample_suggestions = [(''*'', \<lparr> allows = [(''*-web'', ''tcp:22'')], denies = [] \<rparr>)]"

definition sample_resolve :: "string \<Rightarrow> endpoint_id option" where
  "sample_resolve h = (if h = ''web'' then Some 9 else None)"

lemma sample_materialized:
  "materialize_suggestions_with_exclusion_resolver ''home'' ''nas'' sample_suggestions sample_resolve sample_resolve =
     [\<lparr> fr_direction = In, fr_action = Allow, fr_protocol = Tcp,
        fr_port = Some \<lparr> pr_start = 22, pr_end = 22 \<rparr>, fr_peer = Except [''web''] [9],
        fr_network = Some ''home'', fr_origin = Network ''home'' \<rparr>]"
  by (simp add: materialize_suggestions_with_exclusion_resolver_def sample_suggestions_def
      sample_resolve_def host_rules_def suggestion_filter_def parse_excluded_peers_def
      parse_excluded_peer_terms_def machine_hostname_def is_lower_def List.map_filter_def
      suggestion_rules_def comma_items_def trim_def is_space_def parse_spec_token_def
      parse_protocol_def parse_port_range_def parse_u16_def parse_unsigned_def is_digit_def
      digits_value_def digit_value_def)

theorem materialized_rules_confined_witness:
  "\<exists>r. r \<in> set (materialize_suggestions_with_exclusion_resolver ''home'' ''nas'' sample_suggestions
          sample_resolve sample_resolve) \<and> \<not> rule_matches In 6 22 9 (\<lambda>_. True) r"
proof -
  let ?m = "materialize_suggestions_with_exclusion_resolver ''home'' ''nas'' sample_suggestions
          sample_resolve sample_resolve"
  obtain r where r: "r \<in> set ?m" and e: "fr_peer r = Except [''web''] [9]"
    by (simp add: sample_materialized)
  have "sample_resolve ''web'' = Some 9" by (simp add: sample_resolve_def)
  with materialized_rules_confined [OF refl refl r, of In 6 22 9 "\<lambda>_. True" default_config] r e
  show ?thesis by auto
qed

end
