(* ===== verification/Checksum.thy ===== *)
theory Checksum
  imports Ray_Prelude
begin

text \<open>
  The Internet checksum as the data path computes it: the accumulator loops of \<open>src/reject.rs\<close> and
  \<open>src/dns/packet.rs\<close>, the one's-complement folding, and the incremental update of RFC 1624 in
  \<open>src/forward.rs\<close> (\<open>csum_replace2\<close>), all on 32-bit accumulators. The lemmas relate them to the
  natural-number sum of 16-bit words modulo 65535: a computed checksum makes its region sum to a
  positive multiple of 65535, and an incremental update keeps that.
\<close>

subsection \<open>Accumulators and folding\<close>

fun checksum_loop :: "u32 \<Rightarrow> bytes \<Rightarrow> u32" where
  "checksum_loop acc [] = acc"
| "checksum_loop acc [b] = acc + push_bit 8 (ucast b)"
| "checksum_loop acc (a # b # rest) = checksum_loop (acc + ucast (from_be16 [a, b])) rest"

definition checksum_words :: "bytes \<Rightarrow> u32" where
  "checksum_words bs = checksum_loop 0 bs"

lemma fold_step_unat:
  fixes acc :: u32
  shows "unat ((acc AND 0xffff) + drop_bit 16 acc) = unat acc mod 65536 + unat acc div 65536"
proof -
  have "acc AND 0xffff = take_bit 16 acc" by (simp add: take_bit_eq_mask mask_eq_exp_minus_1)
  also have "\<dots> = acc mod 65536" by (simp add: take_bit_eq_mod)
  finally have a: "unat (acc AND 0xffff) = unat acc mod 65536" by (simp add: unat_mod_distrib)
  have "drop_bit 16 acc = acc div 65536" by (simp add: drop_bit_eq_div)
  then have d: "unat (drop_bit 16 acc) = unat acc div 65536" by (simp add: unat_div_distrib)
  have "unat acc < 4294967296" using unat_word_bound [of acc] by simp
  then have "unat acc mod 65536 + unat acc div 65536 < 4294967296" by linarith
  then show ?thesis by (simp add: unat_word_ariths a d)
qed

lemma fold_step_zero: "drop_bit 16 (acc :: u32) = 0 \<longleftrightarrow> unat acc < 65536"
proof -
  have "drop_bit 16 acc = acc div 65536" by (simp add: drop_bit_eq_div)
  then have "unat (drop_bit 16 acc) = unat acc div 65536" by (simp add: unat_div_distrib)
  then show ?thesis by (metis div_eq_0_iff unat_eq_zero zero_neq_numeral)
qed

function fold_loop :: "u32 \<Rightarrow> u32" where
  "fold_loop acc = (if drop_bit 16 acc \<noteq> 0 then fold_loop ((acc AND 0xffff) + drop_bit 16 acc) else acc)"
  by pat_completeness auto
termination
proof (relation "measure unat")
  fix acc :: u32 assume "drop_bit 16 acc \<noteq> 0"
  then have "65536 \<le> unat acc" by (simp add: fold_step_zero)
  then have "1 \<le> unat acc div 65536" by (simp add: div_greater_zero_iff Suc_le_eq)
  moreover have "unat acc div 65536 * 65536 + unat acc mod 65536 = unat acc" by simp
  ultimately have "unat acc mod 65536 + unat acc div 65536 < unat acc" by linarith
  then show "((acc AND 0xffff) + drop_bit 16 acc, acc) \<in> measure unat" by (simp add: fold_step_unat)
qed simp

declare fold_loop.simps [simp del]

definition fold_csum :: "u32 \<Rightarrow> u16" where
  "fold_csum acc = NOT (ucast (fold_loop acc))"

definition icmpv4_checksum :: "bytes \<Rightarrow> u16" where
  "icmpv4_checksum msg = fold_csum (checksum_words msg)"

definition tcp_checksum_v4 :: "ipv4_addr \<Rightarrow> ipv4_addr \<Rightarrow> bytes \<Rightarrow> u16" where
  "tcp_checksum_v4 src dst seg =
     fold_csum (checksum_words (v4_octets src) + checksum_words (v4_octets dst) + 6 +
                word_of_nat (length seg) + checksum_words seg)"

definition icmpv6_like_checksum :: "ipv6_addr \<Rightarrow> ipv6_addr \<Rightarrow> u8 \<Rightarrow> bytes \<Rightarrow> u16" where
  "icmpv6_like_checksum src dst next_header payload =
     fold_csum (checksum_words (v6_octets src) + checksum_words (v6_octets dst) +
                word_of_nat (length payload) + ucast next_header + checksum_words payload)"

definition tcp_checksum_v6 :: "ipv6_addr \<Rightarrow> ipv6_addr \<Rightarrow> bytes \<Rightarrow> u16" where
  "tcp_checksum_v6 src dst seg = icmpv6_like_checksum src dst 6 seg"

definition icmpv6_checksum :: "ipv6_addr \<Rightarrow> ipv6_addr \<Rightarrow> bytes \<Rightarrow> u16" where
  "icmpv6_checksum src dst msg = icmpv6_like_checksum src dst 58 msg"

text \<open>\<open>Ipv6Addr::segments\<close>, and the resolver's own copy of the pseudo-header checksum.\<close>

fun segments_of :: "bytes \<Rightarrow> u16 list" where
  "segments_of (a # b # rest) = from_be16 [a, b] # segments_of rest"
| "segments_of _ = []"

definition transport_checksum :: "ipv6_addr \<Rightarrow> ipv6_addr \<Rightarrow> u8 \<Rightarrow> bytes \<Rightarrow> u16" where
  "transport_checksum src dst proto payload =
     (let acc = foldl (\<lambda>acc seg. acc + ucast seg) 0 (segments_of (v6_octets src));
          acc = foldl (\<lambda>acc seg. acc + ucast seg) acc (segments_of (v6_octets dst));
          acc = acc + ucast proto + word_of_nat (length payload)
      in fold_csum (checksum_loop acc payload))"

definition csum_replace2 :: "u16 \<Rightarrow> u16 \<Rightarrow> u16 \<Rightarrow> u16" where
  "csum_replace2 check old new =
     (let acc = (ucast (NOT check) :: u32) + (NOT (ucast old :: u32) AND 0xffff) + ucast new
      in NOT (ucast (fold_loop acc)))"

subsection \<open>Word sums\<close>

text \<open>The number a checksum is about: the sum of the big-endian 16-bit words of a region, the last one
  padded. A region with its checksum is valid when it sums to a positive multiple of 65535.\<close>

fun words_sum :: "bytes \<Rightarrow> nat" where
  "words_sum [] = 0"
| "words_sum [b] = unat b * 256"
| "words_sum (a # b # rest) = be_nat [a, b] + words_sum rest"

definition csum_ok :: "nat \<Rightarrow> bool" where
  "csum_ok n \<longleftrightarrow> 0 < n \<and> n mod 65535 = 0"

text \<open>The pseudo-headers of RFC 793 and RFC 8200 as sums.\<close>

definition pseudo_sum4 :: "ipv4_addr \<Rightarrow> ipv4_addr \<Rightarrow> u8 \<Rightarrow> nat \<Rightarrow> nat" where
  "pseudo_sum4 src dst proto len = words_sum (v4_octets src) + words_sum (v4_octets dst) + unat proto + len"

definition pseudo_sum6 :: "ipv6_addr \<Rightarrow> ipv6_addr \<Rightarrow> u8 \<Rightarrow> nat \<Rightarrow> nat" where
  "pseudo_sum6 src dst nh len = words_sum (v6_octets src) + words_sum (v6_octets dst) + len + unat nh"

subsection \<open>Lemmas\<close>

lemma words_sum_bound: "words_sum bs \<le> 65535 * ((length bs + 1) div 2)"
proof (induction bs rule: words_sum.induct)
  case (2 b)
  then show ?case using unat_byte_bound [of b] by simp
next
  case (3 a b rest)
  have "be_nat [a, b] < 65536" using be_nat_bound [of "[a, b]"] by simp
  with 3 show ?case by simp
qed simp

lemma unat_ucast_small: "LENGTH('a::len) \<le> LENGTH('b::len) \<Longrightarrow> unat (ucast (w :: 'a word) :: 'b word) = unat w"
proof -
  assume "LENGTH('a) \<le> LENGTH('b)"
  then have "(2::nat) ^ LENGTH('a) \<le> 2 ^ LENGTH('b)" by (intro power_increasing) auto
  with unat_word_bound [of w] have "unat w < 2 ^ LENGTH('b)" by linarith
  then show ?thesis by (simp add: unsigned_ucast_eq take_bit_nat_eq_self)
qed

lemma unat_add_small: "unat (a :: u32) + unat b < 4294967296 \<Longrightarrow> unat (a + b) = unat a + unat b"
  by (simp add: unat_word_ariths)

lemma unat_push8: "unat (push_bit 8 (ucast (b :: u8)) :: u32) = unat b * 256"
proof -
  have "push_bit 8 (ucast b :: u32) = ucast b * 256" by (simp add: push_bit_eq_mult)
  moreover have "unat (ucast b :: u32) = unat b" by (rule unat_ucast_small) simp
  ultimately show ?thesis using unat_byte_bound [of b] by (simp add: unat_word_ariths)
qed

lemma unat_ucast_be16: "unat (ucast (from_be16 [a, b]) :: u32) = be_nat [a, b]"
  by (subst unat_ucast_small) (simp_all add: unat_from_be16)

lemma checksum_loop_unat:
  "unat acc + words_sum bs < 4294967296 \<Longrightarrow> unat (checksum_loop acc bs) = unat acc + words_sum bs"
proof (induction acc bs rule: checksum_loop.induct)
  case (1 acc)
  then show ?case by simp
next
  case (2 acc b)
  then show ?case by (simp add: unat_add_small unat_push8)
next
  case (3 acc a b rest)
  then have "unat (acc + ucast (from_be16 [a, b])) = unat acc + be_nat [a, b]"
    by (simp add: unat_add_small unat_ucast_be16)
  with 3 show ?case by simp
qed

lemma checksum_loop_acc: "checksum_loop acc bs = acc + checksum_loop 0 bs"
proof (induction bs arbitrary: acc rule: words_sum.induct)
  case (3 a b rest)
  show ?case
    using "3.IH" [of "acc + ucast (from_be16 [a, b])"] "3.IH" [of "ucast (from_be16 [a, b])"]
    by (simp add: add.assoc)
qed auto

lemma foldl_segments:
  "even (length bs) \<Longrightarrow> foldl (\<lambda>acc seg. acc + ucast seg) acc (segments_of bs) = checksum_loop acc bs"
  by (induction acc bs rule: checksum_loop.induct) auto

lemma checksum_words_unat:
  "length bs \<le> 65535 \<Longrightarrow> unat (checksum_words bs) = words_sum bs"
  using words_sum_bound [of bs] checksum_loop_unat [of 0 bs] by (simp add: checksum_words_def)

lemma fold_loop_bounds:
  "unat (fold_loop acc) < 65536 \<and> unat (fold_loop acc) mod 65535 = unat acc mod 65535 \<and>
   (unat (fold_loop acc) = 0 \<longleftrightarrow> unat acc = 0)"
proof (induction acc rule: fold_loop.induct)
  case (1 acc)
  show ?case
  proof (cases "drop_bit 16 acc \<noteq> 0")
    case True
    let ?n = "unat acc"
    from True have ge: "65536 \<le> ?n" by (simp add: fold_step_zero)
    have "?n mod 65536 + ?n div 65536 + ?n div 65536 * 65535 = ?n" by simp
    then have "(?n mod 65536 + ?n div 65536) mod 65535 = ?n mod 65535"
      by (metis mod_mult_self1)
    moreover have "?n mod 65536 + ?n div 65536 \<noteq> 0" using ge by (simp add: div_eq_0_iff)
    moreover have "fold_loop acc = fold_loop ((acc AND 0xffff) + drop_bit 16 acc)"
      using True by (subst fold_loop.simps) simp
    ultimately show ?thesis using "1.IH" [OF True] ge by (simp add: fold_step_unat)
  next
    case False
    then have "fold_loop acc = acc" by (subst fold_loop.simps) simp
    with False show ?thesis by (simp add: fold_step_zero)
  qed
qed

lemma unat_not16: "unat (NOT (w :: u16)) = 65535 - unat w"
proof -
  have "NOT w = - 1 - w" by (simp add: not_eq_complement)
  moreover have "w \<le> - 1" by simp
  ultimately show ?thesis by (simp add: unat_sub unsigned_minus_1_eq_mask mask_eq_exp_minus_1)
qed

lemma fold_csum_unat: "unat (fold_csum acc) = 65535 - unat (fold_loop acc)"
proof -
  have "unat (ucast (fold_loop acc) :: u16) = unat (fold_loop acc)"
    using fold_loop_bounds [of acc] by (simp add: unsigned_ucast_eq take_bit_nat_eq_self)
  then show ?thesis by (simp add: fold_csum_def unat_not16)
qed

text \<open>The two facts every checksum in the data path rests on.\<close>

lemma fold_csum_completes: "csum_ok (unat acc + unat (fold_csum acc))"
proof -
  let ?f = "unat (fold_loop acc)"
  note b = fold_loop_bounds [of acc]
  have "(unat acc + (65535 - ?f)) mod 65535 = (?f + (65535 - ?f)) mod 65535"
    using b by (metis mod_add_left_eq)
  also have "\<dots> = 0" using b by simp
  finally have "(unat acc + (65535 - ?f)) mod 65535 = 0" .
  moreover have "0 < unat acc + (65535 - ?f)" using b by (cases "unat acc = 0") auto
  ultimately show ?thesis by (simp add: csum_ok_def fold_csum_unat)
qed

lemma fold_csum_zero_iff: "fold_csum acc = 0 \<longleftrightarrow> csum_ok (unat acc)"
proof -
  note b = fold_loop_bounds [of acc]
  have "fold_csum acc = 0 \<longleftrightarrow> unat (fold_csum acc) = 0" by (simp add: unat_eq_zero)
  also have "\<dots> \<longleftrightarrow> unat (fold_loop acc) = 65535" using b by (auto simp: fold_csum_unat)
  also have "\<dots> \<longleftrightarrow> csum_ok (unat acc)"
  proof
    assume "unat (fold_loop acc) = 65535"
    with b show "csum_ok (unat acc)" by (auto simp: csum_ok_def)
  next
    assume ok: "csum_ok (unat acc)"
    with b have "unat (fold_loop acc) mod 65535 = 0" "unat (fold_loop acc) \<noteq> 0" "unat (fold_loop acc) < 65536"
      by (auto simp: csum_ok_def)
    then obtain k where "unat (fold_loop acc) = 65535 * k" "k \<noteq> 0" "65535 * k < 65536"
      by (auto elim!: dvdE simp: mod_eq_0_iff_dvd)
    moreover from this have "k = 1" by linarith
    ultimately show "unat (fold_loop acc) = 65535" by simp
  qed
  finally show ?thesis .
qed

lemma csum_replace2_unat:
  "csum_replace2 check old new = fold_csum (ucast (NOT check) + ucast (NOT old) + ucast new)"
proof -
  have m: "(0xffff :: u32) = mask 16" by (simp add: mask_eq_exp_minus_1)
  have "NOT (ucast old :: u32) AND 0xffff = ucast (NOT old)"
    unfolding m by (rule bit_word_eqI) (auto simp: bit_simps)
  then show ?thesis by (simp add: csum_replace2_def fold_csum_def)
qed

lemma csum_replace2_ok:
  assumes "csum_ok (A + unat old + unat check)" and "0 < A"
  shows "csum_ok (A + unat new + unat (csum_replace2 check old new))"
proof -
  let ?x = "ucast (NOT check) + ucast (NOT old) + ucast new :: u32"
  have u: "unat (ucast (w :: u16) :: u32) = unat w" for w by (rule unat_ucast_small) simp
  have lt: "unat (w :: u16) < 65536" for w using unat_word_bound [of w] by simp
  have x: "unat ?x = (65535 - unat check) + (65535 - unat old) + unat new"
    using lt [of check] lt [of old] lt [of new] by (simp add: unat_add_small u unat_not16)
  let ?c = "unat (csum_replace2 check old new)"
  have "csum_ok (unat ?x + ?c)" unfolding csum_replace2_unat by (rule fold_csum_completes)
  then have "(unat ?x + ?c) mod 65535 = 0" by (simp add: csum_ok_def)
  then obtain k where k: "unat ?x + ?c = 65535 * k" by (auto elim: dvdE simp: mod_eq_0_iff_dvd)
  from assms(1) obtain m where m: "A + unat old + unat check = 65535 * m"
    by (auto simp: csum_ok_def elim: dvdE simp: mod_eq_0_iff_dvd)
  have "unat ?x + unat check + unat old = 131070 + unat new"
    using x lt [of check] lt [of old] by linarith
  with k m have "A + unat new + ?c + 131070 = 65535 * (k + m)" by (simp add: distrib_left)
  then have "65535 dvd A + unat new + ?c + 131070" by simp
  moreover have "(65535 :: nat) dvd 131070" by simp
  ultimately have "65535 dvd A + unat new + ?c" using dvd_add_left_iff by blast
  then have "(A + unat new + ?c) mod 65535 = 0" by (simp add: mod_eq_0_iff_dvd)
  with assms(2) show ?thesis by (simp add: csum_ok_def)
qed

lemma words_sum_append: "even (length xs) \<Longrightarrow> words_sum (xs @ ys) = words_sum xs + words_sum ys"
  by (induction xs rule: words_sum.induct) auto

lemma words_sum_put:
  assumes "even off" and "off + 2 \<le> length p"
  shows "words_sum (put p off (to_be16 v)) + unat (from_be16 (slice p off (off + 2))) = words_sum p + unat v"
proof -
  let ?a = "take off p" and ?m = "slice p off (off + 2)" and ?z = "drop (off + 2) p"
  have p: "p = ?a @ ?m @ ?z" by (simp add: slice_def) (metis append_take_drop_id drop_drop add.commute)
  have two: "length ?m = 2" using assms by (simp add: wire_simps)
  have w2: "words_sum m = be_nat m" if "length m = 2" for m
  proof -
    from that obtain a b where "m = [a, b]" by (auto simp: length_Suc_conv numeral_2_eq_2)
    then show ?thesis by simp
  qed
  have ev: "even (length ?a)" using assms by simp
  have "words_sum p = words_sum (?a @ ?m @ ?z)" using p by simp
  then have "words_sum p = words_sum ?a + be_nat ?m + words_sum ?z"
    using ev two by (simp add: words_sum_append w2)
  moreover have "words_sum (put p off (to_be16 v)) = words_sum ?a + unat v + words_sum ?z"
    using ev by (simp add: put_def words_sum_append w2 be_nat_to_be16)
  ultimately show ?thesis using two by (simp add: unat_from_be16)
qed

lemma transport_checksum_eq: "transport_checksum src dst proto payload = icmpv6_like_checksum src dst proto payload"
proof -
  have e: "even (length (v6_octets ip))" for ip by simp
  show ?thesis
    unfolding transport_checksum_def icmpv6_like_checksum_def Let_def foldl_segments [OF e]
      checksum_words_def
    by (simp add: checksum_loop_acc [of "_ + _"] checksum_loop_acc [of "checksum_loop _ _"] algebra_simps)
qed

subsection \<open>Checksummed regions\<close>

text \<open>The contract of a checksum function: the value it computes over a region, with the pseudo-header
  of the region, completes the sum. The client fact is that writing it into a zeroed checksum field
  makes the region valid.\<close>

locale region_checksum =
  fixes pseudo :: "nat \<Rightarrow> nat"
    and compute :: "bytes \<Rightarrow> u16"
  assumes completes: "length seg \<le> 65535 \<Longrightarrow> csum_ok (pseudo (length seg) + words_sum seg + unat (compute seg))"
begin

lemma fill_valid:
  assumes "length seg \<le> 65535" and "even off" and "off + 2 \<le> length seg"
    and "from_be16 (slice seg off (off + 2)) = 0"
  shows "csum_ok (pseudo (length seg) + words_sum (put seg off (to_be16 (compute seg))))"
  using completes [OF assms(1)] words_sum_put [OF assms(2,3), of "compute seg"] assms(4)
  by (simp add: add.assoc)

end

interpretation plain_csum: region_checksum "\<lambda>_. 0" icmpv4_checksum
proof
  fix seg :: bytes assume "length seg \<le> 65535"
  then show "csum_ok (0 + words_sum seg + unat (icmpv4_checksum seg))"
    using fold_csum_completes [of "checksum_words seg"]
    by (simp add: icmpv4_checksum_def checksum_words_unat)
qed

lemma unat_u32_of_nat: "n < 4294967296 \<Longrightarrow> unat (word_of_nat n :: u32) = n"
  by (rule unat_of_nat_small) simp

lemma words_sum_65535: "length bs \<le> 65535 \<Longrightarrow> words_sum bs \<le> 2147450880"
  using words_sum_bound [of bs] by linarith

interpretation tcp4_csum: region_checksum "pseudo_sum4 src dst 6" "tcp_checksum_v4 src dst" for src dst
proof
  fix seg :: bytes assume l: "length seg \<le> 65535"
  let ?acc = "checksum_words (v4_octets src) + checksum_words (v4_octets dst) + 6 +
      word_of_nat (length seg) + checksum_words seg :: u32"
  have o: "words_sum (v4_octets ip) \<le> 131070" for ip using words_sum_bound [of "v4_octets ip"] by simp
  have "unat ?acc = pseudo_sum4 src dst 6 (length seg) + words_sum seg"
    using l o [of src] o [of dst] words_sum_65535 [OF l]
    by (simp add: unat_add_small checksum_words_unat unat_u32_of_nat pseudo_sum4_def)
  then show "csum_ok (pseudo_sum4 src dst 6 (length seg) + words_sum seg + unat (tcp_checksum_v4 src dst seg))"
    using fold_csum_completes [of ?acc] by (simp add: tcp_checksum_v4_def)
qed

lemma v6_accumulator:
  assumes "length payload \<le> 65535"
  shows "unat (checksum_words (v6_octets src) + checksum_words (v6_octets dst) +
      word_of_nat (length payload) + ucast nh + checksum_words payload :: u32) =
    pseudo_sum6 src dst nh (length payload) + words_sum payload"
proof -
  have o: "words_sum (v6_octets ip) \<le> 524280" for ip using words_sum_bound [of "v6_octets ip"] by simp
  have n: "unat (ucast nh :: u32) = unat nh" by (rule unat_ucast_small) simp
  show ?thesis
    using assms o [of src] o [of dst] words_sum_65535 [OF assms] n unat_byte_bound [of nh]
    by (simp add: unat_add_small checksum_words_unat unat_u32_of_nat pseudo_sum6_def)
qed

interpretation v6_csum: region_checksum "pseudo_sum6 src dst nh" "icmpv6_like_checksum src dst nh" for src dst nh
proof
  fix seg :: bytes assume "length seg \<le> 65535"
  from v6_accumulator [OF this, of src dst nh] fold_csum_completes
  show "csum_ok (pseudo_sum6 src dst nh (length seg) + words_sum seg + unat (icmpv6_like_checksum src dst nh seg))"
    unfolding icmpv6_like_checksum_def by metis
qed

lemma icmpv6_like_zero_iff:
  "length seg \<le> 65535 \<Longrightarrow>
     icmpv6_like_checksum src dst nh seg = 0 \<longleftrightarrow> csum_ok (pseudo_sum6 src dst nh (length seg) + words_sum seg)"
  unfolding icmpv6_like_checksum_def fold_csum_zero_iff by (simp add: v6_accumulator)

subsection \<open>Properties\<close>

text \<open>The incremental update is exact: if a region (with anything else it covers summing to
  \<open>A\<close>, not zero) has a valid checksum, then after replacing the 16-bit word \<open>old\<close> by \<open>new\<close> the value of
  \<open>csum_replace2\<close> is a valid checksum, whatever the values, with no wrap of the 32-bit accumulator.\<close>

theorem csum_replace2_exact:
  assumes "csum_ok (A + unat old + unat check)" and "0 < A"
  shows "csum_ok (A + unat new + unat (csum_replace2 check old new))"
  using assms by (rule csum_replace2_ok)

theorem csum_replace2_exact_witness:
  "csum_ok (6 + unat (30022 :: u16) + unat (csum_replace2 65507 22 30022))"
  by (rule csum_replace2_exact) (simp_all add: csum_ok_def)

text \<open>The resolver's checksum is the rejecter's: the two hand-written loops over the IPv6
  pseudo-header agree on every input.\<close>

theorem transport_checksum_is_icmpv6_like:
  "transport_checksum src dst proto payload = icmpv6_like_checksum src dst proto payload"
  by (rule transport_checksum_eq)

end
