(* ===== verification/Reject.thy ===== *)
theory Reject
  imports Packet Checksum
begin

text \<open>
  The packets the daemon writes itself: fail-fast rejects and packet-too-big replies
  (\<open>src/reject.rs\<close>), and the Magic DNS and echo replies (\<open>src/dns/packet.rs\<close>). The lemmas show that
  every reply is a well-formed packet of at most 1280 bytes from the original destination to the
  original source with valid checksums, and that no reply is ever answered by another.
\<close>

subsection \<open>IP wrappers\<close>

definition reject_mtu :: nat where "reject_mtu = 1280"

definition ipv4_header0 :: "ipv4_addr \<Rightarrow> ipv4_addr \<Rightarrow> u8 \<Rightarrow> nat \<Rightarrow> bytes" where
  "ipv4_header0 src dst proto tot =
     [0x45, 0] @ to_be16 (word_of_nat tot) @ [0, 0, 0, 0, 64, proto, 0, 0] @ v4_octets src @ v4_octets dst"

definition wrap_ipv4 :: "ipv4_addr \<Rightarrow> ipv4_addr \<Rightarrow> u8 \<Rightarrow> bytes \<Rightarrow> bytes" where
  "wrap_ipv4 src dst proto payload =
     (let p = ipv4_header0 src dst proto (20 + length payload);
          csum = fold_csum (checksum_words p)
      in put p 10 (to_be16 csum) @ payload)"

definition wrap_ipv6 :: "ipv6_addr \<Rightarrow> ipv6_addr \<Rightarrow> u8 \<Rightarrow> bytes \<Rightarrow> bytes" where
  "wrap_ipv6 src dst next_header payload =
     [0x60, 0, 0, 0] @ to_be16 (word_of_nat (length payload)) @ [next_header, 64] @
     v6_octets src @ v6_octets dst @ payload"

subsection \<open>Guards\<close>

definition v4_is_multicast :: "ipv4_addr \<Rightarrow> bool" where
  "v4_is_multicast ip \<longleftrightarrow> drop_bit 28 ip = 14"

definition v4_is_broadcast :: "ipv4_addr \<Rightarrow> bool" where
  "v4_is_broadcast ip \<longleftrightarrow> ip = - 1"

definition v6_is_multicast :: "ipv6_addr \<Rightarrow> bool" where
  "v6_is_multicast ip \<longleftrightarrow> drop_bit 120 ip = 0xff"

definition is_multicast_or_unspecified :: "ip_addr \<Rightarrow> bool" where
  "is_multicast_or_unspecified ip =
     (case ip of
        V4 v4 \<Rightarrow> v4_is_multicast v4 \<or> v4_is_broadcast v4 \<or> v4 = 0
      | V6 v6 \<Rightarrow> v6_is_multicast v6 \<or> v6 = 0)"

definition is_icmp_error :: "packet_info \<Rightarrow> bool" where
  "is_icmp_error info =
     (if protocol info = 1 then icmp_type info \<in> {3, 4, 5, 11, 12}
      else if protocol info = 58 then icmp_type info < 128
      else False)"

subsection \<open>TCP resets\<close>

definition rst_segment :: "u16 \<Rightarrow> u16 \<Rightarrow> u32 \<Rightarrow> u32 \<Rightarrow> u8 \<Rightarrow> bytes" where
  "rst_segment sport dport sq ack flags =
     to_be16 sport @ to_be16 dport @ to_be32 sq @ to_be32 ack @ [0x50, flags, 0, 0, 0, 0, 0, 0]"

text \<open>Sequence number, acknowledgment and flags of the reset, by the rules of RFC 793.\<close>

definition rst_numbers :: "bytes \<Rightarrow> packet_info \<Rightarrow> u32 \<times> u32 \<times> u8" where
  "rst_numbers packet info =
     (let ihl = transport_offset info;
          tcp = drop ihl packet;
          seg_seq = from_be32 (slice tcp 4 8);
          seg_ack = from_be32 (slice tcp 8 12);
          data_off = unat (drop_bit 4 (tcp ! 12)) * 4;
          flags = tcp ! 13;
          ip_total = (case src_ip info of
                        V4 _ \<Rightarrow> unat (from_be16 [packet ! 2, packet ! 3])
                      | V6 _ \<Rightarrow> 40 + unat (from_be16 [packet ! 4, packet ! 5]));
          payload = ip_total - (ihl + data_off);
          seg_len = (word_of_nat payload :: u32);
          seg_len = (if flags AND 2 \<noteq> 0 then seg_len + 1 else seg_len);
          seg_len = (if flags AND 1 \<noteq> 0 then seg_len + 1 else seg_len)
      in if flags AND 0x10 \<noteq> 0 then (seg_ack, 0, 4) else (0, seg_seq + seg_len, 4 OR 0x10))"

definition build_tcp_rst :: "bytes \<Rightarrow> packet_info \<Rightarrow> bytes option" where
  "build_tcp_rst packet info =
     (if tcp_flags info AND 4 \<noteq> 0 then None
      else if length packet < transport_offset info then None
      else if length (drop (transport_offset info) packet) < 20 then None
      else
        (let (rst_seq, rst_ack, rst_flags) = rst_numbers packet info;
             seg = rst_segment (dst_port info) (src_port info) rst_seq rst_ack rst_flags
         in case (dst_ip info, src_ip info) of
              (V4 src, V4 dst) \<Rightarrow>
                Some (wrap_ipv4 src dst 6 (put seg 16 (to_be16 (tcp_checksum_v4 src dst seg))))
            | (V6 src, V6 dst) \<Rightarrow>
                Some (wrap_ipv6 src dst 6 (put seg 16 (to_be16 (tcp_checksum_v6 src dst seg))))
            | _ \<Rightarrow> None))"

subsection \<open>ICMP errors\<close>

definition build_icmp_message :: "u8 \<Rightarrow> u8 \<Rightarrow> bytes \<Rightarrow> bytes" where
  "build_icmp_message ty code quote = [ty, code, 0, 0, 0, 0, 0, 0] @ quote"

definition build_icmp_unreachable :: "bytes \<Rightarrow> packet_info \<Rightarrow> bytes option" where
  "build_icmp_unreachable packet info =
     (let udp = (protocol info = 17) in
      case (dst_ip info, src_ip info) of
        (V4 src, V4 dst) \<Rightarrow>
          (let quote_len = min (transport_offset info + 8) (length packet);
               code = (if udp then 3 else 13);
               msg = build_icmp_message 3 code (take quote_len packet);
               csum = icmpv4_checksum msg
           in Some (wrap_ipv4 src dst 1 (put msg 2 (to_be16 csum))))
      | (V6 src, V6 dst) \<Rightarrow>
          (let budget = reject_mtu - 40 - 8;
               quote_len = min (length packet) budget;
               code = (if udp then 4 else 1);
               msg = build_icmp_message 1 code (take quote_len packet);
               csum = icmpv6_checksum src dst msg
           in Some (wrap_ipv6 src dst 58 (put msg 2 (to_be16 csum))))
      | _ \<Rightarrow> None)"

definition build_reject :: "bytes \<Rightarrow> packet_info \<Rightarrow> bytes option" where
  "build_reject packet info =
     (if is_multicast_or_unspecified (src_ip info) then None
      else if is_icmp_error info then None
      else if protocol info = 6 then build_tcp_rst packet info
      else build_icmp_unreachable packet info)"

definition build_packet_too_big :: "bytes \<Rightarrow> packet_info \<Rightarrow> u16 \<Rightarrow> bytes option" where
  "build_packet_too_big packet info mtu =
     (if is_multicast_or_unspecified (src_ip info) \<or> is_icmp_error info then None
      else case (dst_ip info, src_ip info) of
        (V4 src, V4 dst) \<Rightarrow>
          (let quote_len = min (transport_offset info + 8) (length packet);
               msg = put (build_icmp_message 3 4 (take quote_len packet)) 6 (to_be16 mtu);
               csum = icmpv4_checksum msg
           in Some (wrap_ipv4 src dst 1 (put msg 2 (to_be16 csum))))
      | (V6 src, V6 dst) \<Rightarrow>
          (let budget = reject_mtu - 40 - 8;
               quote_len = min (length packet) budget;
               msg = put (build_icmp_message 2 0 (take quote_len packet)) 4 (to_be32 (ucast mtu));
               csum = icmpv6_checksum src dst msg
           in Some (wrap_ipv6 src dst 58 (put msg 2 (to_be16 csum))))
      | _ \<Rightarrow> None)"

subsection \<open>Magic DNS replies\<close>

definition max_dns_payload :: nat where "max_dns_payload = 1280 - 40 - 8"

definition magic_dns_v6 :: ipv6_addr where "magic_dns_v6 = 0x02000000000000000000000000000053"

definition build_v6_reply :: "packet_info \<Rightarrow> ipv6_addr \<Rightarrow> ipv6_addr \<Rightarrow> bytes \<Rightarrow> bytes option" where
  "build_v6_reply query app_ip magic_ip dns_payload =
     (if length dns_payload > max_dns_payload then None
      else
        (let payload_len = (word_of_nat (8 + length dns_payload) :: u16);
             udp = to_be16 (dst_port query) @ to_be16 (src_port query) @ to_be16 payload_len @
                   [0, 0] @ dns_payload;
             udp_csum = transport_checksum magic_ip app_ip 17 udp;
             udp_csum = (if udp_csum = 0 then 0xffff else udp_csum)
         in Some ([0x60, 0, 0, 0] @ to_be16 payload_len @ [17, 64] @ v6_octets magic_ip @
                  v6_octets app_ip @ put udp 6 (to_be16 udp_csum))))"

definition build_udp_reply :: "packet_info \<Rightarrow> bytes \<Rightarrow> bytes option" where
  "build_udp_reply query dns_payload =
     (case (src_ip query, dst_ip query) of
        (V6 app, V6 magic) \<Rightarrow> build_v6_reply query app magic dns_payload
      | _ \<Rightarrow> None)"

definition build_echo_reply :: "bytes \<Rightarrow> packet_info \<Rightarrow> bytes option" where
  "build_echo_reply packet query =
     (case src_ip query of
        V4 _ \<Rightarrow> None
      | V6 app \<Rightarrow>
          (if dst_ip query \<noteq> V6 magic_dns_v6 \<or> protocol query \<noteq> 58 \<or> app = 0 \<or> v6_is_multicast app
           then None
           else case get_range packet 4 6 of
             None \<Rightarrow> None
           | Some len_bytes \<Rightarrow>
               (let payload_len = unat (from_be16 len_bytes) in
                case get_range packet (transport_offset query) (40 + payload_len) of
                  None \<Rightarrow> None
                | Some echo \<Rightarrow>
                    (if length echo < 8 \<or> echo ! 0 \<noteq> 128 \<or> echo ! 1 \<noteq> 0 \<or>
                        40 + length echo > reject_mtu \<or>
                        transport_checksum app magic_dns_v6 58 echo \<noteq> 0
                     then None
                     else
                       (let body = put (put echo 0 [129]) 2 [0, 0];
                            csum = transport_checksum magic_dns_v6 app 58 body
                        in Some ([0x60, 0, 0, 0] @ to_be16 (word_of_nat (length echo)) @ [58, 64] @
                                 v6_octets magic_dns_v6 @ v6_octets app @
                                 put body 2 (to_be16 csum)))))))"

subsection \<open>Lemmas: the wrappers\<close>

lemma length_ipv4_header0 [simp]: "length (ipv4_header0 src dst proto tot) = 20"
  by (simp add: ipv4_header0_def)

lemma length_wrap_ipv4 [simp]: "length (wrap_ipv4 src dst proto payload) = 20 + length payload"
  by (simp add: wrap_ipv4_def Let_def wire_simps)

lemma length_wrap_ipv6 [simp]: "length (wrap_ipv6 src dst nh payload) = 40 + length payload"
  by (simp add: wrap_ipv6_def)

lemma drop_wrap_ipv4 [simp]: "drop 20 (wrap_ipv4 src dst proto payload) = payload"
  by (simp add: wrap_ipv4_def Let_def wire_simps)

lemma drop_wrap_ipv6 [simp]: "drop 40 (wrap_ipv6 src dst nh payload) = payload"
  by (simp add: wrap_ipv6_def)

lemma wrap_ipv4_header_ok: "csum_ok (words_sum (take 20 (wrap_ipv4 src dst proto payload)))"
proof -
  let ?h = "ipv4_header0 src dst proto (20 + length payload)"
  have z: "from_be16 (slice ?h 10 (10 + 2)) = 0"
    by (simp add: ipv4_header0_def slice_def from_be16_def be_nat_def)
  have t: "take 20 (wrap_ipv4 src dst proto payload) = put ?h 10 (to_be16 (icmpv4_checksum ?h))"
    by (simp add: wrap_ipv4_def Let_def wire_simps icmpv4_checksum_def)
  have "csum_ok (0 + words_sum (put ?h 10 (to_be16 (icmpv4_checksum ?h))))"
    by (rule plain_csum.fill_valid) (use z in simp_all)
  then show ?thesis by (simp add: t)
qed

lemma octets4: obtains a b c d where "v4_octets ip = [a, b, c, d]"
  using length4_cases [of "v4_octets ip"] that by auto

lemma two_bytes: obtains a b where "to_be16 w = [a, b]"
  by (auto simp: to_be16_def be_bytes_two)

lemma parse_wrap_ipv4:
  "parse_packet_info (wrap_ipv4 src dst proto payload) =
     Some (mk_packet_info (wrap_ipv4 src dst proto payload) proto 20 (V4 src) (V4 dst))"
proof -
  obtain a b c d where s: "v4_octets src = [a, b, c, d]" by (rule octets4)
  obtain e f g h where t: "v4_octets dst = [e, f, g, h]" by (rule octets4)
  have src: "v4_of_octets [a, b, c, d] = src" using v4c.dec_enc [of src] s by simp
  have dst: "v4_of_octets [e, f, g, h] = dst" using v4c.dec_enc [of dst] t by simp
  obtain x y where x: "to_be16 (fold_csum (checksum_words (ipv4_header0 src dst proto (20 + length payload)))) = [x, y]"
    by (rule two_bytes)
  obtain u v where u: "to_be16 (20 + word_of_nat (length payload)) = [u, v]" by (rule two_bytes)
  have w: "wrap_ipv4 src dst proto payload =
      [0x45, 0, u, v, 0, 0, 0, 0, 64, proto, x, y, a, b, c, d, e, f, g, h] @ payload"
    unfolding wrap_ipv4_def Let_def x by (simp add: ipv4_header0_def s t u put_def)
  have "parse_ipv4 (wrap_ipv4 src dst proto payload) =
     Some (mk_packet_info (wrap_ipv4 src dst proto payload) proto 20 (V4 src) (V4 dst))"
    unfolding parse_ipv4_def w by (simp add: src dst from_be16_def be_nat_def)
  then show ?thesis by (simp add: parse_packet_info_def w get_def)
qed

lemma wrap_ipv6_fields:
  "wrap_ipv6 src dst nh payload ! 0 = 0x60"
  "wrap_ipv6 src dst nh payload ! 6 = nh"
  "v6_src (wrap_ipv6 src dst nh payload) = src"
  "v6_dst (wrap_ipv6 src dst nh payload) = dst"
proof -
  obtain u v where u: "to_be16 (word_of_nat (length payload)) = [u, v]" by (rule two_bytes)
  have w: "wrap_ipv6 src dst nh payload =
      [0x60, 0, 0, 0, u, v, nh, 64] @ v6_octets src @ v6_octets dst @ payload"
    by (simp add: wrap_ipv6_def u)
  show "wrap_ipv6 src dst nh payload ! 0 = 0x60" "wrap_ipv6 src dst nh payload ! 6 = nh"
    by (simp_all add: w)
  show "v6_src (wrap_ipv6 src dst nh payload) = src" "v6_dst (wrap_ipv6 src dst nh payload) = dst"
    by (simp_all add: w v6_src_def v6_dst_def slice_def)
qed

lemma parse_wrap_ipv6:
  assumes "is_upper_protocol nh" and "nh = 6 \<or> nh = 17 \<Longrightarrow> 4 \<le> length payload"
  shows "parse_packet_info (wrap_ipv6 src dst nh payload) =
     Some (mk_packet_info (wrap_ipv6 src dst nh payload) nh 40 (V6 src) (V6 dst))"
proof -
  let ?p = "wrap_ipv6 src dst nh payload"
  have "walk_ipv6_chain ?p = Some \<lparr> ch_protocol = nh, ch_offset = 40, ch_fragment = None \<rparr>"
    using assms(1)
    by (simp add: walk_ipv6_chain_def max_headers_def chain_loop_numeral chain_match_def
        wrap_ipv6_fields is_upper_protocol_def)
  then have "ipv6_upper_layer ?p = Some (nh, 40)" by (simp add: ipv6_upper_layer_def)
  with assms(2) have "parse_ipv6 ?p = Some (mk_packet_info ?p nh 40 (V6 src) (V6 dst))"
    by (auto simp: parse_ipv6_def wrap_ipv6_fields)
  then show ?thesis by (simp add: parse_packet_info_def get_def wrap_ipv6_fields)
qed

subsection \<open>Lemmas: what the builders return\<close>

definition packet_checksums_ok :: "bytes \<Rightarrow> packet_info \<Rightarrow> bool" where
  "packet_checksums_ok r j =
     (case (src_ip j, dst_ip j) of
        (V4 s, V4 d) \<Rightarrow>
          csum_ok (words_sum (take 20 r)) \<and>
          (if protocol j = 6 then csum_ok (pseudo_sum4 s d 6 (length r - 20) + words_sum (drop 20 r))
           else csum_ok (words_sum (drop 20 r)))
      | (V6 s, V6 d) \<Rightarrow> csum_ok (pseudo_sum6 s d (protocol j) (length r - 40) + words_sum (drop 40 r))
      | _ \<Rightarrow> False)"

lemma length_rst_segment [simp]: "length (rst_segment sport dport sq ack flags) = 20"
  by (simp add: rst_segment_def)

lemma rst_segment_fields:
  "from_be16 (slice (rst_segment sport dport sq ack flags) 16 18) = 0"
  "from_be16 (slice (rst_segment sport dport sq ack flags) 0 2) = sport"
  "from_be16 (slice (rst_segment sport dport sq ack flags) 2 4) = dport"
  "rst_segment sport dport sq ack flags ! 13 = flags"
  by (simp_all add: rst_segment_def slice_def from_be16_def [of "[0, 0]"] be_nat_def nth_append)

text \<open>A segment or message with its checksum written in: valid, and unchanged elsewhere.\<close>

lemma icmp_message_zero:
  "from_be16 (slice (build_icmp_message ty code quote) 2 (2 + 2)) = 0"
  by (simp add: build_icmp_message_def slice_def from_be16_def be_nat_def)

lemma length_icmp_message [simp]: "length (build_icmp_message ty code quote) = 8 + length quote"
  by (simp add: build_icmp_message_def)

text \<open>The replies by family: the reply to a packet from \<open>dst\<close> to \<open>src\<close> is one of these packets.\<close>

lemma nth_of_drop: "n \<le> length r \<Longrightarrow> drop n r = xs \<Longrightarrow> i < length xs \<Longrightarrow> r ! (n + i) = xs ! i"
  by auto

lemma reply_v4_icmp:
  assumes "length msg \<le> 1000" and "8 \<le> length msg" and "from_be16 (slice msg 2 (2 + 2)) = 0" and "msg ! 0 = 3"
    and "r = wrap_ipv4 src dst 1 (put msg 2 (to_be16 (icmpv4_checksum msg)))"
  obtains j where "parse_packet_info r = Some j" and "src_ip j = V4 src" and "dst_ip j = V4 dst"
    and "protocol j = 1" and "packet_checksums_ok r j" and "length r = 20 + length msg"
    and "is_icmp_error j"
proof
  let ?m = "put msg 2 (to_be16 (icmpv4_checksum msg))"
  have len: "length ?m = length msg" using assms(2) by (simp add: wire_simps)
  have ne: "msg \<noteq> []" using assms(2) by auto
  then have m0: "?m ! 0 = 3" using assms(2,4) by (simp add: nth_put)
  have "csum_ok (0 + words_sum ?m)" by (rule plain_csum.fill_valid) (use assms(1-3) in simp_all)
  then show "packet_checksums_ok r (mk_packet_info r 1 20 (V4 src) (V4 dst))"
    by (simp add: packet_checksums_ok_def assms(5) wrap_ipv4_header_ok)
  show "parse_packet_info r = Some (mk_packet_info r 1 20 (V4 src) (V4 dst))"
    by (simp add: assms(5) parse_wrap_ipv4)
  have "r ! (20 + 0) = ?m ! 0"
    by (rule nth_of_drop) (use len ne assms(5) in simp_all)
  then have "r ! 20 = 3" using m0 by simp
  then show "is_icmp_error (mk_packet_info r 1 20 (V4 src) (V4 dst))"
    using ne len by (simp add: is_icmp_error_def read_icmp_type_def is_icmp_def get_def assms(5))
  show "length r = 20 + length msg" by (simp add: assms(5) len)
qed simp_all

lemma reply_v6:
  assumes "length seg \<le> 1240" and "even off" and "off + 2 \<le> length seg"
    and "from_be16 (slice seg off (off + 2)) = 0" and "is_upper_protocol nh" and "4 \<le> length seg"
    and "r = wrap_ipv6 src dst nh (put seg off (to_be16 (icmpv6_like_checksum src dst nh seg)))"
  shows "parse_packet_info r = Some (mk_packet_info r nh 40 (V6 src) (V6 dst)) \<and>
    packet_checksums_ok r (mk_packet_info r nh 40 (V6 src) (V6 dst)) \<and> length r = 40 + length seg \<and>
    drop 40 r = put seg off (to_be16 (icmpv6_like_checksum src dst nh seg))"
proof -
  let ?m = "put seg off (to_be16 (icmpv6_like_checksum src dst nh seg))"
  have len: "length ?m = length seg" using assms(3) by (simp add: wire_simps)
  have "csum_ok (pseudo_sum6 src dst nh (length seg) + words_sum ?m)"
    by (rule v6_csum.fill_valid) (use assms(1-4) in simp_all)
  with len have "packet_checksums_ok r (mk_packet_info r nh 40 (V6 src) (V6 dst))"
    by (simp add: packet_checksums_ok_def assms(7))
  moreover have "parse_packet_info r = Some (mk_packet_info r nh 40 (V6 src) (V6 dst))"
    unfolding assms(7) by (rule parse_wrap_ipv6) (use assms(5,6) len in simp_all)
  ultimately show ?thesis using len by (simp add: assms(7))
qed

lemma reply_v6_icmp:
  assumes "length msg \<le> 1240" and "8 \<le> length msg" and "from_be16 (slice msg 2 (2 + 2)) = 0" and "msg ! 0 < 128"
    and "r = wrap_ipv6 src dst 58 (put msg 2 (to_be16 (icmpv6_checksum src dst msg)))"
  obtains j where "parse_packet_info r = Some j" and "src_ip j = V6 src" and "dst_ip j = V6 dst"
    and "protocol j = 58" and "packet_checksums_ok r j" and "length r = 40 + length msg"
    and "is_icmp_error j"
proof
  have up: "is_upper_protocol 58"
    by (simp add: is_upper_protocol_def ipv6_fragment_nh_def ipv6_ah_def ipv6_tlv_ext_headers_def)
  from reply_v6 [OF assms(1) _ _ assms(3) up _ assms(5) [unfolded icmpv6_checksum_def]] assms(2)
  have p: "parse_packet_info r = Some (mk_packet_info r 58 40 (V6 src) (V6 dst))"
    and c: "packet_checksums_ok r (mk_packet_info r 58 40 (V6 src) (V6 dst))"
    and l: "length r = 40 + length msg"
    and d: "drop 40 r = put msg 2 (to_be16 (icmpv6_like_checksum src dst 58 msg))" by auto
  show "parse_packet_info r = Some (mk_packet_info r 58 40 (V6 src) (V6 dst))" by (rule p)
  show "packet_checksums_ok r (mk_packet_info r 58 40 (V6 src) (V6 dst))" by (rule c)
  show "length r = 40 + length msg" by (rule l)
  have "msg \<noteq> []" using assms(2) by auto
  then have "r ! (40 + 0) = msg ! 0"
    using nth_of_drop [OF _ d, of 0] l assms(2) by (simp add: wire_simps nth_put)
  then show "is_icmp_error (mk_packet_info r 58 40 (V6 src) (V6 dst))"
    using assms(2,4) l by (simp add: is_icmp_error_def read_icmp_type_def is_icmp_def get_def)
qed simp_all

lemma build_tcp_rst_cases:
  assumes "build_tcp_rst p i = Some r"
  obtains (v4) src dst sq ack flags where "dst_ip i = V4 src" and "src_ip i = V4 dst" and "flags AND 4 \<noteq> 0"
      and "r = wrap_ipv4 src dst 6 (put (rst_segment (dst_port i) (src_port i) sq ack flags) 16
             (to_be16 (tcp_checksum_v4 src dst (rst_segment (dst_port i) (src_port i) sq ack flags))))"
  | (v6) src dst sq ack flags where "dst_ip i = V6 src" and "src_ip i = V6 dst" and "flags AND 4 \<noteq> 0"
      and "r = wrap_ipv6 src dst 6 (put (rst_segment (dst_port i) (src_port i) sq ack flags) 16
             (to_be16 (icmpv6_like_checksum src dst 6 (rst_segment (dst_port i) (src_port i) sq ack flags))))"
proof -
  obtain sq ack flags where n: "rst_numbers p i = (sq, ack, flags)" by (cases "rst_numbers p i")
  then have fl: "flags AND 4 \<noteq> 0"
    by (auto simp: rst_numbers_def Let_def split: if_splits)
  from assms have g: "tcp_flags i AND 4 = 0" "\<not> length p < transport_offset i"
    "\<not> length (drop (transport_offset i) p) < 20"
    by (simp_all add: build_tcp_rst_def split: if_splits)
  show thesis
    using assms v4 [OF _ _ fl, of _ _ sq ack] v6 [OF _ _ fl, of _ _ sq ack] g
    by (cases "dst_ip i"; cases "src_ip i")
      (auto simp: build_tcp_rst_def n tcp_checksum_v6_def Let_def)
qed

lemma rst_info_fields:
  assumes "drop off r = put (rst_segment sp dp sq ack flags) 16 (to_be16 c)" and "length r = off + 20"
  shows "read_port r 6 off 0 = sp" and "read_port r 6 off 2 = dp" and "read_tcp_flags r 6 off = flags"
proof -
  let ?s = "rst_segment sp dp sq ack flags"
  have sl: "slice r (off + a) (off + b) = slice (put ?s 16 (to_be16 c)) a b" for a b
    using assms(1) by (simp add: slice_def) (metis add.commute drop_drop)
  have "slice r (off + 0) (off + 0 + 2) = slice ?s 0 2"
    using sl [of 0 2] by (simp add: wire_simps)
  then show "read_port r 6 off 0 = sp"
    using assms(2) by (simp add: read_port_def get_range_def rst_segment_fields)
  have "slice r (off + 2) (off + 2 + 2) = slice ?s 2 4"
    using sl [of 2 4] by (simp add: wire_simps add.assoc)
  then show "read_port r 6 off 2 = dp"
    using assms(2) by (simp add: read_port_def get_range_def rst_segment_fields)
  have "r ! (off + 13) = put ?s 16 (to_be16 c) ! 13"
    by (rule nth_of_drop) (use assms in \<open>simp_all add: wire_simps\<close>)
  then show "read_tcp_flags r 6 off = flags"
    using assms(2) by (simp add: read_tcp_flags_def get_def nth_put rst_segment_fields)
qed

lemma reply_rst:
  assumes "build_tcp_rst p i = Some r"
  obtains j where "parse_packet_info r = Some j" and "src_ip j = dst_ip i" and "dst_ip j = src_ip i"
    and "protocol j = 6" and "src_port j = dst_port i" and "dst_port j = src_port i"
    and "tcp_flags j AND 4 \<noteq> 0" and "packet_checksums_ok r j" and "length r \<le> 60"
  using assms
proof (cases rule: build_tcp_rst_cases)
  case (v4 src dst sq ack flags)
  let ?s = "rst_segment (dst_port i) (src_port i) sq ack flags"
  let ?m = "put ?s 16 (to_be16 (tcp_checksum_v4 src dst ?s))"
  have len: "length ?m = 20" by (simp add: wire_simps)
  have c: "csum_ok (pseudo_sum4 src dst 6 (length ?s) + words_sum ?m)"
    by (rule tcp4_csum.fill_valid) (simp_all add: rst_segment_fields)
  show thesis
  proof (rule that)
    show "parse_packet_info r = Some (mk_packet_info r 6 20 (V4 src) (V4 dst))"
      by (simp add: v4 parse_wrap_ipv4)
    show "packet_checksums_ok r (mk_packet_info r 6 20 (V4 src) (V4 dst))"
      using c len by (simp add: packet_checksums_ok_def v4 wrap_ipv4_header_ok)
    have d: "drop 20 r = ?m" "length r = 20 + 20" using v4(4) len by simp_all
    from rst_info_fields [OF d] v4(3)
    show "src_port (mk_packet_info r 6 20 (V4 src) (V4 dst)) = dst_port i"
      "dst_port (mk_packet_info r 6 20 (V4 src) (V4 dst)) = src_port i"
      "tcp_flags (mk_packet_info r 6 20 (V4 src) (V4 dst)) AND 4 \<noteq> 0" by simp_all
  qed (simp_all add: v4 wire_simps)
next
  case (v6 src dst sq ack flags)
  let ?s = "rst_segment (dst_port i) (src_port i) sq ack flags"
  have up: "is_upper_protocol 6"
    by (simp add: is_upper_protocol_def ipv6_fragment_nh_def ipv6_ah_def ipv6_tlv_ext_headers_def)
  have r: "parse_packet_info r = Some (mk_packet_info r 6 40 (V6 src) (V6 dst)) \<and>
    packet_checksums_ok r (mk_packet_info r 6 40 (V6 src) (V6 dst)) \<and> length r = 40 + length ?s \<and>
    drop 40 r = put ?s 16 (to_be16 (icmpv6_like_checksum src dst 6 ?s))"
    by (rule reply_v6 [OF _ _ _ _ up _ v6(4)]) (simp_all add: rst_segment_fields)
  then have d: "drop 40 r = put ?s 16 (to_be16 (icmpv6_like_checksum src dst 6 ?s))" "length r = 40 + 20"
    by simp_all
  from that [of "mk_packet_info r 6 40 (V6 src) (V6 dst)"] r rst_info_fields [OF d] v6 show thesis
    by simp
qed

text \<open>The call sites pass the information of the packet itself: of a whole packet, or of a first IPv6
  fragment.\<close>

definition info_of_packet :: "bytes \<Rightarrow> packet_info \<Rightarrow> bool" where
  "info_of_packet p i \<longleftrightarrow>
     parse_packet_info p = Some i \<or> (\<exists>f. parse_ipv6_fragment p = Some f \<and> if_info f = i)"

lemma info_v4_offset:
  assumes "info_of_packet p i" and "src_ip i = V4 a"
  shows "transport_offset i \<le> 60"
proof -
  from assms have "parse_packet_info p = Some i"
    using parse_ipv6_fragment_SomeD [of p] by (auto simp: info_of_packet_def)
  then show ?thesis
  proof (cases rule: parse_packet_info_cases)
    case ipv4
    from parse_ipv4_SomeD [OF ipv4(3)] have "transport_offset i = unat (p ! 0 AND 15) * 4" by simp
    moreover have "p ! 0 AND 15 \<le> 15" by (rule word_and_le1)
    then have "unat (p ! 0 AND 15) \<le> 15" by (simp add: word_le_nat_alt)
    ultimately show ?thesis by simp
  next
    case ipv6
    from parse_ipv6_SomeD [OF ipv6(3)] assms(2) show ?thesis by (metis ip_addr.distinct(1) mk_packet_info_sel(1))
  qed
qed

lemma reply_icmp:
  assumes "build_icmp_unreachable p i = Some r" and "info_of_packet p i"
  obtains j where "parse_packet_info r = Some j" and "src_ip j = dst_ip i" and "dst_ip j = src_ip i"
    and "is_icmp_error j" and "packet_checksums_ok r j" and "length r \<le> 1280"
proof (cases "dst_ip i"; cases "src_ip i")
  fix s d assume ip: "dst_ip i = V4 s" "src_ip i = V4 d"
  let ?m = "build_icmp_message 3 (if protocol i = 17 then 3 else 13) (take (min (transport_offset i + 8) (length p)) p)"
  have q: "length ?m \<le> 76" using info_v4_offset [OF assms(2) ip(2)] by simp
  have r: "r = wrap_ipv4 s d 1 (put ?m 2 (to_be16 (icmpv4_checksum ?m)))"
    using assms(1) ip by (simp add: build_icmp_unreachable_def Let_def)
  from q have l: "length ?m \<le> 1000" by linarith
  have m: "8 \<le> length ?m" "?m ! 0 = 3" by (simp, simp add: build_icmp_message_def)
  obtain j where j: "parse_packet_info r = Some j" "src_ip j = V4 s" "dst_ip j = V4 d" "protocol j = 1"
      "packet_checksums_ok r j" "length r = 20 + length ?m" "is_icmp_error j"
    by (rule reply_v4_icmp [OF l m(1) icmp_message_zero m(2) r])
  from q j(6) have "length r \<le> 1280" by linarith
  then show thesis using that [of j] j ip by simp
next
  fix s d assume ip: "dst_ip i = V6 s" "src_ip i = V6 d"
  let ?m = "build_icmp_message 1 (if protocol i = 17 then 4 else 1) (take (min (length p) 1232) p)"
  have r: "r = wrap_ipv6 s d 58 (put ?m 2 (to_be16 (icmpv6_checksum s d ?m)))"
    using assms(1) ip by (simp add: build_icmp_unreachable_def Let_def reject_mtu_def)
  have l: "length ?m \<le> 1240" by simp
  have m: "8 \<le> length ?m" "?m ! 0 < 128" by (simp, simp add: build_icmp_message_def)
  obtain j where j: "parse_packet_info r = Some j" "src_ip j = V6 s" "dst_ip j = V6 d" "protocol j = 58"
      "packet_checksums_ok r j" "length r = 40 + length ?m" "is_icmp_error j"
    by (rule reply_v6_icmp [OF l m(1) icmp_message_zero m(2) r])
  from l j(6) have "length r \<le> 1280" by linarith
  then show thesis using that [of j] j ip by simp
qed (use assms(1) in \<open>auto simp: build_icmp_unreachable_def Let_def\<close>)

lemma slice_of_drop: "slice r (off + a) (off + b) = slice (drop off r) a b"
  by (simp add: slice_def add.commute)

lemma info_of_sample: "info_of_packet sample_udp4 (mk_packet_info sample_udp4 17 20
    (V4 (v4_of_octets [10, 0, 0, 1])) (V4 (v4_of_octets [10, 0, 0, 2])))"
  by (simp add: info_of_packet_def parse_packet_info_def parse_ipv4_def sample_udp4_def get_def
      from_be16_def be_nat_def)

lemma upper_protocols: "is_upper_protocol 6" "is_upper_protocol 17" "is_upper_protocol 58"
  by (simp_all add: is_upper_protocol_def ipv6_fragment_nh_def ipv6_ah_def ipv6_tlv_ext_headers_def)

lemma udp_csum_fill:
  assumes "length udp \<le> 65535" and "8 \<le> length udp" and "from_be16 (slice udp 6 (6 + 2)) = 0"
    and "c = icmpv6_like_checksum src dst 17 udp" and "c' = (if c = 0 then 0xffff else c)"
  shows "csum_ok (pseudo_sum6 src dst 17 (length udp) + words_sum (put udp 6 (to_be16 c'))) \<and> c' \<noteq> 0"
proof (cases "c = 0")
  case True
  then have ok: "csum_ok (pseudo_sum6 src dst 17 (length udp) + words_sum udp)"
    using icmpv6_like_zero_iff [OF assms(1)] assms(4) by simp
  have "words_sum (put udp 6 (to_be16 0xffff)) = words_sum udp + 65535"
    using words_sum_put [of 6 udp "0xffff"] assms(2,3) by simp
  with ok True assms(5) show ?thesis by (simp add: csum_ok_def flip: add.assoc)
next
  case False
  have "csum_ok (pseudo_sum6 src dst 17 (length udp) +
      words_sum (put udp 6 (to_be16 (icmpv6_like_checksum src dst 17 udp))))"
    by (rule v6_csum.fill_valid) (use assms(1-3) in simp_all)
  with False assms(4,5) show ?thesis by simp
qed

text \<open>The resolver writes its IPv6 header by hand; it is the one of \<open>wrap_ipv6\<close>.\<close>

lemma build_v6_reply_wrap:
  "build_v6_reply q app magic payload =
     (if length payload > max_dns_payload then None
      else let udp = to_be16 (dst_port q) @ to_be16 (src_port q) @
                       to_be16 (word_of_nat (8 + length payload)) @ [0, 0] @ payload;
               c = icmpv6_like_checksum magic app 17 udp
           in Some (wrap_ipv6 magic app 17 (put udp 6 (to_be16 (if c = 0 then 0xffff else c)))))"
proof -
  have "length (put (to_be16 a @ to_be16 b @ to_be16 d @ [0, 0] @ payload) 6 (to_be16 c)) = 8 + length payload"
    for a b c d by (simp add: wire_simps)
  then show ?thesis
    unfolding build_v6_reply_def wrap_ipv6_def transport_checksum_eq Let_def by (simp only: append.assoc)
qed

subsection \<open>Properties\<close>

text \<open>C32. A reject reaches the sender and ends there: whenever \<open>build_reject\<close> answers a packet of the
  data path, the answer is a packet of at most 1280 bytes with valid checksums from the original
  destination to the original source (with the ports swapped and RST set for TCP), and neither it nor
  anything like it is ever answered by another reject.\<close>

theorem reject_reply_well_formed:
  assumes "info_of_packet p i" and "build_reject p i = Some r"
  shows "\<exists>j. parse_packet_info r = Some j \<and> src_ip j = dst_ip i \<and> dst_ip j = src_ip i \<and>
    packet_checksums_ok r j \<and> length r \<le> 1280 \<and>
    (protocol i = 6 \<longrightarrow> protocol j = 6 \<and> src_port j = dst_port i \<and> dst_port j = src_port i \<and>
       tcp_flags j AND 4 \<noteq> 0) \<and>
    build_reject r j = None"
proof (cases "protocol i = 6")
  case True
  with assms(2) have "build_tcp_rst p i = Some r" by (auto simp: build_reject_def split: if_splits)
  then obtain j where j: "parse_packet_info r = Some j" "src_ip j = dst_ip i" "dst_ip j = src_ip i"
    "protocol j = 6" "src_port j = dst_port i" "dst_port j = src_port i"
    "tcp_flags j AND 4 \<noteq> 0" "packet_checksums_ok r j" "length r \<le> 60"
    by (rule reply_rst)
  then have "build_reject r j = None" by (simp add: build_reject_def build_tcp_rst_def)
  with j True show ?thesis by (intro exI [of _ j]) simp
next
  case False
  with assms(2) have "build_icmp_unreachable p i = Some r" by (auto simp: build_reject_def split: if_splits)
  then obtain j where j: "parse_packet_info r = Some j" "src_ip j = dst_ip i" "dst_ip j = src_ip i"
    "is_icmp_error j" "packet_checksums_ok r j" "length r \<le> 1280"
    using assms(1) by (rule reply_icmp)
  then have "build_reject r j = None" by (simp add: build_reject_def)
  with j False show ?thesis by (intro exI [of _ j]) simp
qed

theorem reject_reply_well_formed_witness:
  "\<exists>r j. build_reject sample_udp4 (mk_packet_info sample_udp4 17 20
      (V4 (v4_of_octets [10, 0, 0, 1])) (V4 (v4_of_octets [10, 0, 0, 2]))) = Some r \<and>
    parse_packet_info r = Some j \<and> dst_ip j = V4 (v4_of_octets [10, 0, 0, 1]) \<and> build_reject r j = None"
proof -
  let ?i = "mk_packet_info sample_udp4 17 20 (V4 (v4_of_octets [10, 0, 0, 1])) (V4 (v4_of_octets [10, 0, 0, 2]))"
  have "\<exists>r. build_reject sample_udp4 ?i = Some r"
    by (simp add: build_reject_def is_multicast_or_unspecified_def v4_is_multicast_def v4_is_broadcast_def
        v4_of_octets_def be_nat_def is_icmp_error_def build_icmp_unreachable_def Let_def)
  then obtain r where r: "build_reject sample_udp4 ?i = Some r" ..
  from reject_reply_well_formed [OF info_of_sample r] obtain j where "parse_packet_info r = Some j"
    "dst_ip j = src_ip ?i" "build_reject r j = None" by blast
  with r show ?thesis by (intro exI [of _ r] exI [of _ j]) simp
qed

text \<open>C33. Every Magic DNS answer is deliverable: it is an IPv6 UDP packet of at most 1280 bytes from
  the resolver to the asking application with the ports swapped, carrying the DNS message unchanged,
  with IPv6 and UDP length fields that say how long it is and a valid checksum that is never the zero
  IPv6 forbids.\<close>

theorem udp_reply_well_formed:
  assumes "build_udp_reply q payload = Some r"
  shows "\<exists>j. parse_packet_info r = Some j \<and> src_ip j = dst_ip q \<and> dst_ip j = src_ip q \<and>
    protocol j = 17 \<and> src_port j = dst_port q \<and> dst_port j = src_port q \<and>
    drop 48 r = payload \<and> length r = 48 + length payload \<and> length r \<le> 1280 \<and>
    unat (from_be16 (slice r 4 6)) = 8 + length payload \<and> unat (from_be16 (slice r 44 46)) = 8 + length payload \<and>
    packet_checksums_ok r j \<and>
    from_be16 (slice r 46 48) \<noteq> 0"
proof -
  from assms obtain app magic where ip: "src_ip q = V6 app" "dst_ip q = V6 magic"
    and b: "build_v6_reply q app magic payload = Some r"
    by (auto simp: build_udp_reply_def split: ip_addr.splits)
  define udp where "udp = to_be16 (dst_port q) @ to_be16 (src_port q) @
      to_be16 (word_of_nat (8 + length payload)) @ [0, 0] @ payload"
  define c where "c = icmpv6_like_checksum magic app 17 udp"
  define c' where "c' = (if c = 0 then 0xffff else c)"
  let ?m = "put udp 6 (to_be16 c')"
  from b have len: "length payload \<le> 1232" and r: "r = wrap_ipv6 magic app 17 ?m"
    unfolding build_v6_reply_wrap udp_def [symmetric] Let_def c_def [symmetric] c'_def [symmetric]
    by (auto simp: max_dns_payload_def split: if_splits)
  have lu: "length udp = 8 + length payload" by (simp add: udp_def)
  then have lm: "length ?m = 8 + length payload" by (simp add: wire_simps)
  have z: "from_be16 (slice udp 6 (6 + 2)) = 0"
    by (simp add: udp_def slice_def from_be16_def be_nat_def)
  have ck: "csum_ok (pseudo_sum6 magic app 17 (length udp) + words_sum ?m) \<and> c' \<noteq> 0"
    by (rule udp_csum_fill [OF _ _ z c_def c'_def]) (use lu len in simp_all)
  have d: "drop 40 r = ?m" by (simp add: r)
  have "slice ?m 0 2 = to_be16 (dst_port q)" "slice ?m 2 4 = to_be16 (src_port q)"
    "slice ?m 6 (6 + 2) = to_be16 c'"
    by (simp_all add: put_def udp_def slice_def)
  then have ports: "read_port r 17 40 0 = dst_port q" "read_port r 17 40 2 = src_port q"
    and f: "from_be16 (slice r 46 48) = c'"
    using slice_of_drop [of r 40 0 2] slice_of_drop [of r 40 2 4] slice_of_drop [of r 40 6 "6 + 2"] d lm
    by (simp_all add: read_port_def get_range_def r)
  have "slice ?m 4 6 = to_be16 (word_of_nat (8 + length payload))" by (simp add: put_def udp_def slice_def)
  then have "slice r 44 46 = to_be16 (word_of_nat (8 + length payload))"
    using slice_of_drop [of r 40 4 6] d lm by (simp add: r)
  moreover have fit: "unat (word_of_nat (8 + length payload) :: u16) = 8 + length payload"
    by (rule of_nat_inverse [OF refl]) (use len in simp)
  ultimately have ulen: "unat (from_be16 (slice r 44 46)) = 8 + length payload"
    by simp
  have "slice r 4 6 = to_be16 (word_of_nat (length ?m))" by (simp add: r wrap_ipv6_def slice_def)
  then have vlen: "unat (from_be16 (slice r 4 6)) = 8 + length payload"
    using fit by (simp only: lm) simp
  have "drop 8 ?m = payload" by (simp add: put_def udp_def)
  then have "drop 48 r = payload" using d drop_drop [of 8 40 r] by simp
  moreover have "packet_checksums_ok r (mk_packet_info r 17 40 (V6 magic) (V6 app))"
    using ck lm lu by (simp add: packet_checksums_ok_def r)
  moreover have "parse_packet_info r = Some (mk_packet_info r 17 40 (V6 magic) (V6 app))"
    unfolding r by (rule parse_wrap_ipv6) (use upper_protocols lm in simp_all)
  moreover have "length r = 48 + length payload" using lm by (simp add: r)
  ultimately show ?thesis using ip ports f ck len ulen vlen by (intro exI) auto
qed

definition sample_query :: packet_info where
  "sample_query =
     \<lparr> src_ip = V6 7, dst_ip = V6 magic_dns_v6, protocol = 17, src_port = 4000, dst_port = 53,
       tcp_flags = 0, icmp_type = 0, icmp_id = 0, transport_offset = 40 \<rparr>"

theorem udp_reply_well_formed_witness:
  "\<exists>r. build_udp_reply sample_query [1, 2, 3] = Some r \<and> drop 48 r = [1, 2, 3] \<and>
     unat (from_be16 (slice r 4 6)) = 11 \<and> unat (from_be16 (slice r 44 46)) = 11"
proof -
  have "\<exists>r. build_udp_reply sample_query [1, 2, 3] = Some r"
    by (simp add: build_udp_reply_def sample_query_def build_v6_reply_def max_dns_payload_def Let_def)
  then obtain r where r: "build_udp_reply sample_query [1, 2, 3] = Some r" ..
  with udp_reply_well_formed [OF r] show ?thesis by auto
qed

text \<open>A ping of the resolver is answered once and faithfully: an answered echo request yields an
  ICMPv6 echo reply from the resolver to the asker that keeps identifier, sequence number and data,
  has a valid checksum and at most 1280 bytes, and is itself never answered.\<close>

theorem echo_reply_well_formed:
  assumes "build_echo_reply p q = Some r"
  shows "\<exists>j. parse_packet_info r = Some j \<and> src_ip j = V6 magic_dns_v6 \<and> dst_ip j = src_ip q \<and>
    is_icmp_echo_reply (protocol j) (icmp_type j) \<and>
    drop 44 r = drop 4 (slice p (transport_offset q) (40 + unat (from_be16 (slice p 4 6)))) \<and>
    packet_checksums_ok r j \<and> length r \<le> 1280 \<and> build_echo_reply r j = None"
proof -
  from assms obtain app where app: "src_ip q = V6 app"
    by (auto simp: build_echo_reply_def split: ip_addr.splits)
  define echo where "echo = slice p (transport_offset q) (40 + unat (from_be16 (slice p 4 6)))"
  define body where "body = put (put echo 0 [129]) 2 [0, 0]"
  define c where "c = icmpv6_like_checksum magic_dns_v6 app 58 body"
  let ?m = "put body 2 (to_be16 c)"
  from assms have len: "8 \<le> length echo" "40 + length echo \<le> 1280"
    and r0: "r = [0x60, 0, 0, 0] @ to_be16 (word_of_nat (length echo)) @ [58, 64] @
        v6_octets magic_dns_v6 @ v6_octets app @ ?m"
    by (auto simp: build_echo_reply_def app Let_def get_range_Some_iff transport_checksum_eq reject_mtu_def
        echo_def body_def c_def split: option.splits if_splits)
  have lb: "length body = length echo" using len by (simp add: body_def wire_simps)
  then have lm: "length ?m = length echo" using len by (simp add: wire_simps)
  have r: "r = wrap_ipv6 magic_dns_v6 app 58 ?m" by (simp add: r0 wrap_ipv6_def lm)
  have z: "from_be16 (slice body 2 (2 + 2)) = 0"
    using len slice_put_same [of 2 "[0, 0]" "put echo 0 [129]"]
    by (simp add: body_def wire_simps from_be16_def be_nat_def)
  let ?j = "mk_packet_info r 58 40 (V6 magic_dns_v6) (V6 app)"
  have w: "parse_packet_info r = Some ?j \<and> packet_checksums_ok r ?j \<and> length r = 40 + length body \<and>
      drop 40 r = put body 2 (to_be16 (icmpv6_like_checksum magic_dns_v6 app 58 body))"
    by (rule reply_v6 [OF _ _ _ z upper_protocols(3)]) (use len lb r in \<open>simp_all add: c_def\<close>)
  then have d: "drop 40 r = ?m" by (simp add: c_def)
  have ne: "echo \<noteq> []" using len by auto
  have m0: "?m ! 0 = 129"
    using len ne lb by (simp add: nth_put body_def wire_simps)
  have "r ! (40 + 0) = ?m ! 0" by (rule nth_of_drop [OF _ d]) (use w lm lb ne in simp_all)
  with m0 have r40: "r ! 40 = 129" by simp
  then have ty: "icmp_type ?j = 129"
    using w lb ne by (simp add: read_icmp_type_def is_icmp_def get_def)
  have "drop 4 ?m = drop 4 echo" using len by (simp add: body_def put_def)
  then have d44: "drop 44 r = drop 4 echo" using d drop_drop [of 4 40 r] by simp
  have "length e < 8 \<or> e ! 0 \<noteq> 128" if g: "get_range r 40 k = Some e" for k e
  proof (cases "40 < k")
    case True
    with g r40 nth_slice [of k r 0 40] show ?thesis by (simp add: get_range_Some_iff)
  next
    case False
    with g show ?thesis by (auto simp: get_range_Some_iff length_slice)
  qed
  then have "build_echo_reply r ?j = None"
    by (auto simp: build_echo_reply_def Let_def split: option.splits)
  with w ty d44 app len lb show ?thesis
    unfolding echo_def [symmetric] by (intro exI [of _ ?j]) (simp add: is_icmp_echo_reply_def)
qed

text \<open>An echo request from address 1 to the resolver, identifier 5, sequence number 9.\<close>

definition sample_ping :: bytes where
  "sample_ping = [0x60, 0, 0, 0, 0, 8, 58, 64] @ v6_octets 1 @ v6_octets magic_dns_v6 @
     [128, 0, 0x7d, 0x5b, 0, 5, 0, 9]"

lemma sample_ping_octets:
  "sample_ping = [0x60, 0, 0, 0, 0, 8, 58, 64, 0, 0, 0, 0, 0, 0, 0, 0, 0, 0, 0, 0, 0, 0, 0, 1,
     2, 0, 0, 0, 0, 0, 0, 0, 0, 0, 0, 0, 0, 0, 0, 0x53, 128, 0, 0x7d, 0x5b, 0, 5, 0, 9]"
  by (simp add: sample_ping_def v6_octets_def magic_dns_v6_def be_bytes_numeral)

theorem echo_reply_well_formed_witness:
  "\<exists>r j. build_echo_reply sample_ping (mk_packet_info sample_ping 58 40 (V6 1) (V6 magic_dns_v6)) = Some r \<and>
     parse_packet_info r = Some j \<and> dst_ip j = V6 1 \<and> drop 44 r = [0, 5, 0, 9]"
proof -
  let ?q = "mk_packet_info sample_ping 58 40 (V6 1) (V6 magic_dns_v6)"
  have f: "from_be16 (slice sample_ping 4 6) = 8" and e: "slice sample_ping 40 48 = [128, 0, 0x7d, 0x5b, 0, 5, 0, 9]"
    by (simp_all add: sample_ping_octets slice_def from_be16_def be_nat_def)
  let ?e = "[128, 0, 0x7d, 0x5b, 0, 5, 0, 9] :: bytes"
  have "pseudo_sum6 1 magic_dns_v6 58 (length ?e) + words_sum ?e = 65535"
    by (simp add: pseudo_sum6_def v6_octets_def magic_dns_v6_def be_bytes_numeral be_nat_def)
  then have "csum_ok (pseudo_sum6 1 magic_dns_v6 58 (length ?e) + words_sum ?e)"
    by (simp only: csum_ok_def) simp
  then have c: "transport_checksum 1 magic_dns_v6 58 ?e = 0"
    unfolding transport_checksum_eq using icmpv6_like_zero_iff [of ?e 1 magic_dns_v6 58] by simp
  have "length sample_ping = 48" by (simp add: sample_ping_octets)
  with f e c have "\<exists>r. build_echo_reply sample_ping ?q = Some r"
    by (simp add: build_echo_reply_def get_range_def Let_def v6_is_multicast_def reject_mtu_def)
  then obtain r where r: "build_echo_reply sample_ping ?q = Some r" ..
  from echo_reply_well_formed [OF r] f e r show ?thesis by auto
qed

end
