(* ===== verification/Fragment.thy ===== *)
theory Fragment
  imports Ray_Prelude
begin

text \<open>
  The mesh datagram framing of \<open>src/forward/fragment.rs\<close> and \<open>src/forward.rs\<close>: the network tag, the
  split of an IP packet into datagrams of a bounded size, and the per-connection \<open>Reassembler\<close> with
  its deadlines, its bound on incomplete packets and the process-wide memory budget. The pending
  \<open>HashMap\<close> is an association list whose order is the map's iteration order; the budget semaphore is
  the number of free permits, and every assembly holds \<open>ASSEMBLY_COST\<close> of them.
\<close>

datatype drop_reason =
    FirewallDrop | SendFailure | NoPeer | Malformed | Spoof | ExitDenied | PacketTooBig
  | ReassemblyTimeout | ReassemblyLimit | LazyDialBufferFull | LazyDialConcurrency
  | DnsConcurrency | QueueDelay | QueueFull | TunRead

subsection \<open>Framing\<close>

definition tag_len :: nat where "tag_len = 2"

definition tag_datagram :: "u16 \<Rightarrow> bytes \<Rightarrow> bytes" where
  "tag_datagram handle payload = to_be16 handle @ payload"

definition untag_datagram :: "bytes \<Rightarrow> (u16 \<times> bytes) option" where
  "untag_datagram datagram =
     (if length datagram < tag_len then None
      else Some (from_be16 [datagram ! 0, datagram ! 1], drop tag_len datagram))"

definition max_packet :: nat where "max_packet = 1500"
definition frag_header_len :: nat where "frag_header_len = tag_len + 1 + 8 + 2 + 2"
definition max_fragments :: nat where "max_fragments = 16"
definition max_pending :: nat where "max_pending = 64"
definition reassembly_timeout :: duration where "reassembly_timeout = secs 5"
definition assembly_cost :: nat where "assembly_cost = max_packet + 512"
definition global_budget :: nat where "global_budget = 8 * 1024 * 1024"

datatype encoded = Whole bytes | Fragments "bytes list"

definition datagrams :: "encoded \<Rightarrow> bytes list" where
  "datagrams e = (case e of Whole p \<Rightarrow> [p] | Fragments parts \<Rightarrow> parts)"

definition div_ceil :: "nat \<Rightarrow> nat \<Rightarrow> nat" where
  "div_ceil a b = (if a mod b = 0 then a div b else a div b + 1)"

definition wire_size :: "nat \<Rightarrow> nat \<Rightarrow> nat option" where
  "wire_size len mx =
     (if len = 0 \<or> len > max_packet then None
      else if len + tag_len \<le> mx then Some (len + tag_len)
      else if mx < frag_header_len \<or> mx - frag_header_len = 0 then None
      else let cnt = div_ceil len (mx - frag_header_len)
           in if cnt \<le> max_fragments then Some (len + cnt * frag_header_len) else None)"

text \<open>\<open>slice::chunks\<close>; the chunk size is positive at its one call.\<close>

function chunks :: "nat \<Rightarrow> 'a list \<Rightarrow> 'a list list" where
  "chunks n xs = (if n = 0 \<or> xs = [] then [] else take n xs # chunks n (drop n xs))"
  by pat_completeness auto
termination by (relation "measure (\<lambda>(n, xs). length xs)") auto

declare chunks.simps [simp del]

definition fragment_datagram :: "u16 \<Rightarrow> u64 \<Rightarrow> nat \<Rightarrow> nat \<Rightarrow> bytes \<Rightarrow> bytes" where
  "fragment_datagram handle frag_id tot offset payload =
     to_be16 handle @ [0] @ to_be64 frag_id @ to_be16 (word_of_nat tot) @ to_be16 (word_of_nat offset) @
     payload"

text \<open>\<open>encode\<close> takes the value of the counter \<open>NEXT_ID\<close> and returns its new value.\<close>

definition encode :: "u64 \<Rightarrow> u16 \<Rightarrow> bytes \<Rightarrow> nat \<Rightarrow> encoded option \<times> u64" where
  "encode next_id handle packet mx =
     (if wire_size (length packet) mx = None then (None, next_id)
      else if handle = 0 then (None, next_id)
      else if length packet + tag_len \<le> mx then (Some (Whole (tag_datagram handle packet)), next_id)
      else let chunk = mx - frag_header_len
           in (Some (Fragments (map (\<lambda>(index, payload).
                 fragment_datagram handle next_id (length packet) (index * chunk) payload)
                 (List.enumerate 0 (chunks chunk packet)))), next_id + 1))"

subsection \<open>Reassembly\<close>

record assembly_key =
  ak_handle :: u16
  ak_id :: u64

record assembly =
  as_packet :: bytes
  covered :: "u64 list"
  received :: nat
  deadline :: instant

record reassembler =
  pending :: "(assembly_key \<times> assembly) list"
  budget :: nat
  evicted :: nat

definition new_assembly :: "nat \<Rightarrow> instant \<Rightarrow> assembly" where
  "new_assembly tot now =
     \<lparr> as_packet = replicate tot 0, covered = replicate (div_ceil max_packet 64) 0,
       received = 0, deadline = now + reassembly_timeout \<rparr>"

text \<open>Removing an assembly drops it, which returns its permits to the budget.\<close>

definition remove_pending :: "assembly_key \<Rightarrow> reassembler \<Rightarrow> reassembler" where
  "remove_pending key r =
     (case map_of (pending r) key of
        None \<Rightarrow> r
      | Some _ \<Rightarrow> r\<lparr> pending := AList.delete key (pending r), budget := budget r + assembly_cost \<rparr>)"

definition next_deadline :: "reassembler \<Rightarrow> instant option" where
  "next_deadline r =
     (case map (\<lambda>(_, p). deadline p) (pending r) of [] \<Rightarrow> None | d # ds \<Rightarrow> Some (foldl min d ds))"

definition expire :: "instant \<Rightarrow> reassembler \<Rightarrow> nat \<times> reassembler" where
  "expire now r =
     (let before = length (pending r);
          kept = filter (\<lambda>(_, p). now < deadline p) (pending r)
      in (before - length kept,
          r\<lparr> pending := kept, budget := budget r + (before - length kept) * assembly_cost \<rparr>))"

definition take_evicted :: "reassembler \<Rightarrow> nat \<times> reassembler" where
  "take_evicted r = (evicted r, r\<lparr> evicted := 0 \<rparr>)"

text \<open>\<open>min_by_key\<close> returns the first minimum in iteration order.\<close>

fun oldest_from :: "assembly_key \<times> assembly \<Rightarrow> (assembly_key \<times> assembly) list \<Rightarrow> assembly_key" where
  "oldest_from best [] = fst best"
| "oldest_from best (x # xs) =
     oldest_from (if deadline (snd x) < deadline (snd best) then x else best) xs"

definition oldest :: "(assembly_key \<times> assembly) list \<Rightarrow> assembly_key option" where
  "oldest ps = (case ps of [] \<Rightarrow> None | x # xs \<Rightarrow> Some (oldest_from x xs))"

text \<open>\<open>reserve\<close> returns with a permit taken: from the budget, or from the evicted assembly, whose
  permit moves over without passing through the budget.\<close>

definition reserve :: "reassembler \<Rightarrow> drop_reason option \<times> reassembler" where
  "reserve r =
     (if length (pending r) < max_pending \<and> assembly_cost \<le> budget r
      then (None, r\<lparr> budget := budget r - assembly_cost \<rparr>)
      else case oldest (pending r) of
             None \<Rightarrow> (Some ReassemblyLimit, r)
           | Some key \<Rightarrow>
               (None, r\<lparr> evicted := evicted r + 1, pending := AList.delete key (pending r) \<rparr>))"

definition bit_mask :: "nat \<Rightarrow> u64" where
  "bit_mask pos = push_bit (pos mod 64) 1"

text \<open>The byte loop; \<open>None\<close> is a byte that conflicts with one received earlier.\<close>

fun write_bytes :: "nat \<Rightarrow> bytes \<Rightarrow> assembly \<Rightarrow> assembly option" where
  "write_bytes pos [] part = Some part"
| "write_bytes pos (b # bs) part =
     (if covered part ! (pos div 64) AND bit_mask pos \<noteq> 0
      then (if as_packet part ! pos \<noteq> b then None else write_bytes (pos + 1) bs part)
      else write_bytes (pos + 1) bs
             (part\<lparr> covered := (covered part)[pos div 64 := covered part ! (pos div 64) OR bit_mask pos],
                    as_packet := (as_packet part)[pos := b],
                    received := received part + 1 \<rparr>))"

text \<open>The part of \<open>accept\<close> after the entry for \<open>key\<close> exists.\<close>

definition accept_part ::
    "assembly_key \<Rightarrow> nat \<Rightarrow> nat \<Rightarrow> bytes \<Rightarrow> assembly \<Rightarrow> reassembler \<Rightarrow> (drop_reason + bytes option) \<times> reassembler" where
  "accept_part key tot offset payload part r =
     (if length (as_packet part) \<noteq> tot then (Inl Malformed, remove_pending key r)
      else case write_bytes offset payload part of
             None \<Rightarrow> (Inl Malformed, remove_pending key r)
           | Some part' \<Rightarrow>
               (if received part' = tot then (Inr (Some (as_packet part')), remove_pending key r)
                else (Inr None, r\<lparr> pending := AList.update key part' (pending r) \<rparr>)))"

definition accept :: "bytes \<Rightarrow> instant \<Rightarrow> reassembler \<Rightarrow> (drop_reason + bytes option) \<times> reassembler" where
  "accept datagram now r =
     (if length datagram \<le> tag_len \<or> length datagram > max_packet + tag_len then (Inl Malformed, r)
      else let handle = from_be16 [datagram ! 0, datagram ! 1] in
        if handle = 0 then (Inl Malformed, r)
        else if drop_bit 4 (datagram ! tag_len) = 4 \<or> drop_bit 4 (datagram ! tag_len) = 6
        then (Inr (Some (drop tag_len datagram)), r)
        else if datagram ! tag_len \<noteq> 0 \<or> length datagram \<le> frag_header_len then (Inl Malformed, r)
        else
          (let frag_id = from_be64 (slice datagram 3 11);
               tot = unat (from_be16 [datagram ! 11, datagram ! 12]);
               offset = unat (from_be16 [datagram ! 13, datagram ! 14]);
               payload = drop frag_header_len datagram;
               key = \<lparr> ak_handle = handle, ak_id = frag_id \<rparr>
           in if tot = 0 \<or> tot > max_packet \<or> offset + length payload > tot
              then (Inl Malformed, remove_pending key r)
              else case map_of (pending r) key of
                Some part \<Rightarrow>
                  (if now \<ge> deadline part then (Inl ReassemblyTimeout, remove_pending key r)
                   else accept_part key tot offset payload part r)
              | None \<Rightarrow>
                  (case reserve r of
                     (Some e, r') \<Rightarrow> (Inl e, r')
                   | (None, r') \<Rightarrow>
                       (let part = new_assembly tot now
                        in accept_part key tot offset payload part
                             (r'\<lparr> pending := AList.update key part (pending r') \<rparr>)))))"

text \<open>A sequence of datagrams of one connection, with their arrival times.\<close>

fun feed :: "(instant \<times> bytes) list \<Rightarrow> reassembler \<Rightarrow> (drop_reason + bytes option) list \<times> reassembler" where
  "feed [] r = ([], r)"
| "feed ((now, d) # evs) r =
     (let (res, r1) = accept d now r; (rest, r2) = feed evs r1 in (res # rest, r2))"

subsection \<open>Lemmas: the coverage bitmap\<close>

definition is_covered :: "assembly \<Rightarrow> nat \<Rightarrow> bool" where
  "is_covered a pos \<longleftrightarrow> bit (covered a ! (pos div 64)) (pos mod 64)"

text \<open>\<open>asm_shape n C a\<close>: the assembly is for a packet of \<open>n\<close> bytes of which exactly the positions \<open>C\<close>
  arrived. \<open>asm_rep P C a\<close>: moreover those bytes are the ones of \<open>P\<close>.\<close>

definition asm_shape :: "nat \<Rightarrow> nat set \<Rightarrow> assembly \<Rightarrow> bool" where
  "asm_shape n C a \<longleftrightarrow>
     length (as_packet a) = n \<and> n \<le> max_packet \<and> length (covered a) = 24 \<and> C \<subseteq> {..<n} \<and>
     (\<forall>pos<1536. is_covered a pos \<longleftrightarrow> pos \<in> C) \<and> received a = card C"

definition asm_rep :: "bytes \<Rightarrow> nat set \<Rightarrow> assembly \<Rightarrow> bool" where
  "asm_rep P C a \<longleftrightarrow> asm_shape (length P) C a \<and> (\<forall>pos\<in>C. as_packet a ! pos = P ! pos)"

lemma covered_test: "covered a ! (pos div 64) AND bit_mask pos \<noteq> 0 \<longleftrightarrow> is_covered a pos"
  by (simp add: is_covered_def bit_mask_def bit_iff_and_push_bit_not_eq_0)

definition mark :: "nat \<Rightarrow> u8 \<Rightarrow> assembly \<Rightarrow> assembly" where
  "mark pos b part =
     part\<lparr> covered := (covered part)[pos div 64 := covered part ! (pos div 64) OR bit_mask pos],
           as_packet := (as_packet part)[pos := b],
           received := received part + 1 \<rparr>"

lemma write_bytes_Cons:
  "write_bytes pos (b # bs) part =
     (if is_covered part pos
      then (if as_packet part ! pos \<noteq> b then None else write_bytes (pos + 1) bs part)
      else write_bytes (pos + 1) bs (mark pos b part))"
  by (simp add: covered_test mark_def)

lemma is_covered_mark:
  assumes "length (covered a) = 24" and "pos < 1536" and "q < 1536"
  shows "is_covered (mark pos b a) q \<longleftrightarrow> is_covered a q \<or> q = pos"
proof (cases "q div 64 = pos div 64")
  case True
  have "q = pos \<longleftrightarrow> q mod 64 = pos mod 64"
    using True by (metis div_mult_mod_eq)
  moreover have "q mod 64 < 64" by simp
  ultimately show ?thesis
    using True assms
    by (auto simp: is_covered_def mark_def bit_mask_def bit_or_iff bit_exp_iff)
next
  case False
  then have "q \<noteq> pos" by auto
  with False show ?thesis by (simp add: is_covered_def mark_def)
qed

lemma mark_shape:
  assumes "asm_shape n C a" and "pos < n" and "pos \<notin> C"
  shows "asm_shape n (insert pos C) (mark pos b a)"
proof -
  from assms have fin: "finite C" using finite_subset by (auto simp: asm_shape_def)
  have "pos < 1536" using assms by (auto simp: asm_shape_def max_packet_def)
  with assms(1) have "\<forall>q<1536. is_covered (mark pos b a) q \<longleftrightarrow> q \<in> insert pos C"
    by (auto simp: asm_shape_def is_covered_mark)
  with assms fin show ?thesis by (auto simp: asm_shape_def mark_def)
qed

lemma write_bytes_shape:
  assumes "asm_shape n C a" and "pos + length bs \<le> n" and "write_bytes pos bs a = Some a'"
  shows "asm_shape n (C \<union> {pos..<pos + length bs}) a' \<and> deadline a' = deadline a"
  using assms
proof (induction bs arbitrary: pos C a)
  case Nil
  then show ?case by simp
next
  case (Cons b bs)
  have un: "C \<union> {pos..<pos + length (b # bs)} = insert pos C \<union> {pos + 1..<pos + 1 + length bs}"
    by auto
  have lt: "pos < 1536" using Cons.prems by (auto simp: asm_shape_def max_packet_def)
  show ?case
  proof (cases "is_covered a pos")
    case True
    with Cons.prems lt have "pos \<in> C" by (auto simp: asm_shape_def)
    then have ins: "insert pos C = C" by auto
    have "write_bytes (pos + 1) bs a = Some a'"
      using True Cons.prems(3) by (auto simp: write_bytes_Cons simp del: write_bytes.simps split: if_splits)
    with Cons.IH [of C a "pos + 1"] Cons.prems show ?thesis unfolding un ins by simp
  next
    case False
    with Cons.prems lt have "pos \<notin> C" by (auto simp: asm_shape_def)
    then have "asm_shape n (insert pos C) (mark pos b a)"
      using Cons.prems by (intro mark_shape) auto
    moreover have "write_bytes (pos + 1) bs (mark pos b a) = Some a'"
      using False Cons.prems(3) by (simp add: write_bytes_Cons del: write_bytes.simps)
    ultimately show ?thesis
      using Cons.IH [of "insert pos C" "mark pos b a" "pos + 1"] Cons.prems(2)
      unfolding un by (simp add: mark_def)
  qed
qed

lemma write_bytes_agrees:
  assumes "asm_rep P C a" and "pos + length bs \<le> length P" and "\<forall>i<length bs. bs ! i = P ! (pos + i)"
  shows "\<exists>a'. write_bytes pos bs a = Some a' \<and> asm_rep P (C \<union> {pos..<pos + length bs}) a'"
  using assms
proof (induction bs arbitrary: pos C a)
  case Nil
  then show ?case by simp
next
  case (Cons b bs)
  have un: "C \<union> {pos..<pos + length (b # bs)} = insert pos C \<union> {pos + 1..<pos + 1 + length bs}"
    by auto
  have lt: "pos < 1536" using Cons.prems by (auto simp: asm_rep_def asm_shape_def max_packet_def)
  have b: "b = P ! pos" using Cons.prems(3) by auto
  have rest: "\<forall>i<length bs. bs ! i = P ! (pos + 1 + i)" using Cons.prems(3) by auto
  show ?case
  proof (cases "is_covered a pos")
    case True
    with Cons.prems lt have "pos \<in> C" by (auto simp: asm_rep_def asm_shape_def)
    then have "insert pos C = C" and "as_packet a ! pos = b"
      using Cons.prems b by (auto simp: asm_rep_def)
    with True Cons.IH [of C a "pos + 1"] Cons.prems rest show ?thesis
      unfolding un by (simp add: write_bytes_Cons del: write_bytes.simps)
  next
    case False
    with Cons.prems lt have "pos \<notin> C" by (auto simp: asm_rep_def asm_shape_def)
    then have "asm_shape (length P) (insert pos C) (mark pos b a)"
      using Cons.prems by (intro mark_shape) (auto simp: asm_rep_def)
    moreover have "\<forall>q\<in>insert pos C. as_packet (mark pos b a) ! q = P ! q"
      using Cons.prems b by (auto simp: asm_rep_def asm_shape_def mark_def nth_list_update)
    ultimately have "asm_rep P (insert pos C) (mark pos b a)" by (simp add: asm_rep_def)
    with False Cons.IH [of "insert pos C" "mark pos b a" "pos + 1"] Cons.prems rest show ?thesis
      unfolding un by (simp add: write_bytes_Cons del: write_bytes.simps)
  qed
qed

lemma new_assembly_shape: "n \<le> max_packet \<Longrightarrow> asm_shape n {} (new_assembly n now)"
  by (auto simp: asm_shape_def new_assembly_def div_ceil_def max_packet_def is_covered_def)

lemma new_assembly_rep: "length P \<le> max_packet \<Longrightarrow> asm_rep P {} (new_assembly (length P) now)"
  by (simp add: asm_rep_def new_assembly_shape)

lemma asm_rep_complete:
  assumes "asm_rep P C a"
  shows "received a = length P \<longleftrightarrow> C = {..<length P}"
    and "C = {..<length P} \<Longrightarrow> as_packet a = P"
proof -
  from assms have C: "C \<subseteq> {..<length P}" and card: "received a = card C"
    by (auto simp: asm_rep_def asm_shape_def)
  show "received a = length P \<longleftrightarrow> C = {..<length P}"
    using C card card_subset_eq [of "{..<length P}" C] by auto
  assume "C = {..<length P}"
  with assms show "as_packet a = P" by (intro nth_equalityI) (auto simp: asm_rep_def asm_shape_def)
qed

subsection \<open>Lemmas: fragments of a packet\<close>

lemma chunks_nth:
  assumes "0 < n"
  shows "chunks n xs = map (\<lambda>i. take n (drop (i * n) xs)) [0..<div_ceil (length xs) n]"
  using assms
proof (induction n xs rule: chunks.induct)
  case (1 n xs)
  show ?case
  proof (cases "xs = []")
    case True
    then show ?thesis by (subst chunks.simps) (simp add: div_ceil_def)
  next
    case False
    have dc: "div_ceil (length xs) n = Suc (div_ceil (length xs - n) n)"
    proof (cases "length xs < n")
      case True
      with False \<open>0 < n\<close> show ?thesis by (simp add: div_ceil_def)
    next
      case ge: False
      with \<open>0 < n\<close> show ?thesis by (auto simp: div_ceil_def le_div_geq le_mod_geq)
    qed
    have "chunks n xs = take n xs # chunks n (drop n xs)"
      using False \<open>0 < n\<close> by (subst chunks.simps) simp
    also have "\<dots> = take n xs # map (\<lambda>i. take n (drop (i * n) (drop n xs))) [0..<div_ceil (length xs - n) n]"
      using 1 False by simp
    also have "\<dots> = map (\<lambda>i. take n (drop (i * n) xs)) [0..<Suc (div_ceil (length xs - n) n)]"
      unfolding map_upt_Suc by (simp add: add.commute)
    finally show ?thesis unfolding dc .
  qed
qed

definition part_of :: "u16 \<Rightarrow> u64 \<Rightarrow> bytes \<Rightarrow> nat \<Rightarrow> nat \<Rightarrow> bytes" where
  "part_of h fid p n i = fragment_datagram h fid (length p) (i * n) (take n (drop (i * n) p))"

definition part_range :: "bytes \<Rightarrow> nat \<Rightarrow> nat \<Rightarrow> nat set" where
  "part_range p n i = {i * n..<i * n + length (take n (drop (i * n) p))}"

lemma div_ceil_index:
  assumes "0 < n"
  shows "i < div_ceil l n \<longleftrightarrow> i * n < l"
proof -
  define q m where "q = l div n" and "m = l mod n"
  have l: "l = q * n + m" and m: "m < n" using assms by (simp_all add: q_def m_def)
  consider "i < q" | "i = q" | "q < i" by linarith
  then have "i * n < l \<longleftrightarrow> i < q \<or> (i = q \<and> m \<noteq> 0)"
  proof cases
    case 1
    then have "i * n < q * n" using assms by simp
    with 1 l show ?thesis by linarith
  next
    case 2
    with l show ?thesis by auto
  next
    case 3
    then have "Suc q * n \<le> i * n" by (intro mult_le_mono1) simp
    with 3 l m show ?thesis by simp
  qed
  then show ?thesis by (auto simp: div_ceil_def q_def m_def)
qed

lemma encode_cases:
  assumes "encode nid h p mx = (Some e, nid')"
  obtains (whole) "e = Whole (tag_datagram h p)" and "h \<noteq> 0" and "p \<noteq> []" and "length p \<le> max_packet"
      and "length p + tag_len \<le> mx"
  | (frags) n where "e = Fragments (map (part_of h nid p n) [0..<div_ceil (length p) n])"
      and "h \<noteq> 0" and "0 < n" and "p \<noteq> []" and "length p \<le> max_packet" and "n + frag_header_len < length p + tag_len"
      and "n + frag_header_len = mx"
proof (cases "length p + tag_len \<le> mx")
  case True
  with assms whole show thesis by (auto simp: encode_def wire_size_def split: if_splits)
next
  case False
  let ?n = "mx - frag_header_len"
  from assms False have h: "h \<noteq> 0" "0 < ?n" "p \<noteq> []" "length p \<le> max_packet"
    by (auto simp: encode_def wire_size_def split: if_splits)
  from h(2) assms False have "e = Fragments (map (part_of h nid p ?n) [0..<div_ceil (length p) ?n])"
    by (auto simp: encode_def chunks_nth enumerate_map_upt part_of_def Let_def split: if_splits)
  then show thesis using frags h False by auto
qed

lemma encode_fits:
  assumes "encode nid h p mx = (Some e, nid')" and "d \<in> set (datagrams e)"
  shows "length d \<le> mx"
  using assms(1)
proof (cases rule: encode_cases)
  case whole
  then show ?thesis using assms(2) by (simp add: datagrams_def tag_datagram_def tag_len_def)
next
  case (frags n)
  then show ?thesis using assms(2)
    by (auto simp: datagrams_def part_of_def fragment_datagram_def frag_header_len_def tag_len_def)
qed

lemma part_ranges:
  assumes "0 < n"
  shows "(\<Union>i\<in>{0..<div_ceil (length p) n}. part_range p n i) = {..<length p}"
    and "i < div_ceil (length p) n \<Longrightarrow> i * n \<in> part_range p n i"
    and "i * n \<in> part_range p n k \<Longrightarrow> k = i"
proof -
  show "(\<Union>i\<in>{0..<div_ceil (length p) n}. part_range p n i) = {..<length p}"
  proof (intro equalityI subsetI)
    fix x assume "x \<in> (\<Union>i\<in>{0..<div_ceil (length p) n}. part_range p n i)"
    then show "x \<in> {..<length p}" by (auto simp: part_range_def)
  next
    fix x assume x: "x \<in> {..<length p}"
    have "x div n * n \<le> x" by simp
    moreover have "x < x div n * n + n" using assms by (metis div_mult_mod_eq mod_less_divisor nat_add_left_cancel_less)
    ultimately have "x \<in> part_range p n (x div n)" using x by (auto simp: part_range_def)
    moreover have "x div n < div_ceil (length p) n"
      unfolding div_ceil_index [OF assms] using x \<open>x div n * n \<le> x\<close> by (metis lessThan_iff le_less_trans)
    ultimately show "x \<in> (\<Union>i\<in>{0..<div_ceil (length p) n}. part_range p n i)" by force
  qed
  show "i < div_ceil (length p) n \<Longrightarrow> i * n \<in> part_range p n i"
    using assms by (simp add: div_ceil_index part_range_def)
  assume "i * n \<in> part_range p n k"
  then have "k * n \<le> i * n" "i * n < k * n + n" by (auto simp: part_range_def)
  then have "k * n \<le> i * n" "i * n < Suc k * n" by auto
  with assms have "k \<le> i" "i < Suc k" by (simp_all only: mult_le_cancel2 mult_less_cancel2)
  then show "k = i" by simp
qed

subsection \<open>Lemmas: accepting fragments\<close>

lemma two_slice: "a + 2 \<le> length d \<Longrightarrow> [d ! a, d ! Suc a] = slice d a (a + 2)"
  by (rule nth_equalityI) (auto simp: wire_simps less_Suc_eq numeral_2_eq_2)

lemma length_fragment_datagram [simp]:
  "length (fragment_datagram h fid tot off pl) = 15 + length pl"
  by (simp add: fragment_datagram_def)

lemma fragment_fields_decode:
  fixes h fid tot off pl
  defines "d \<equiv> fragment_datagram h fid tot off pl"
  assumes "tot < 65536" and "off < 65536"
  shows "from_be16 [d ! 0, d ! 1] = h" and "d ! 2 = 0" and "from_be64 (slice d 3 11) = fid"
    and "unat (from_be16 [d ! 11, d ! 12]) = tot" and "unat (from_be16 [d ! 13, d ! 14]) = off"
    and "drop 15 d = pl"
proof -
  have l: "15 \<le> length d" by (simp add: d_def)
  have s: "slice d 0 2 = to_be16 h" "slice d 3 11 = to_be64 fid"
      "slice d 11 13 = to_be16 (word_of_nat tot)" "slice d 13 15 = to_be16 (word_of_nat off)"
    by (simp_all add: d_def fragment_datagram_def slice_def)
  have u: "unat (word_of_nat tot :: u16) = tot" "unat (word_of_nat off :: u16) = off"
    using assms(2,3) by (simp_all add: unat_of_nat_small)
  show "from_be16 [d ! 0, d ! 1] = h" using two_slice [of 0 d] l s by simp
  show "d ! 2 = 0" by (simp add: d_def fragment_datagram_def nth_append)
  show "from_be64 (slice d 3 11) = fid" by (simp add: s)
  show "unat (from_be16 [d ! 11, d ! 12]) = tot" using two_slice [of 11 d] l s u by simp
  show "unat (from_be16 [d ! 13, d ! 14]) = off" using two_slice [of 13 d] l s u by simp
  show "drop 15 d = pl" by (simp add: d_def fragment_datagram_def)
qed

lemma accept_fragment:
  assumes "h \<noteq> 0" and "0 < tot" and "tot \<le> max_packet" and "off + length pl \<le> tot" and "pl \<noteq> []"
    and "15 + length pl \<le> max_packet + tag_len"
  shows "accept (fragment_datagram h fid tot off pl) now r =
    (case map_of (pending r) \<lparr> ak_handle = h, ak_id = fid \<rparr> of
       Some part \<Rightarrow>
         (if now \<ge> deadline part then (Inl ReassemblyTimeout, remove_pending \<lparr> ak_handle = h, ak_id = fid \<rparr> r)
          else accept_part \<lparr> ak_handle = h, ak_id = fid \<rparr> tot off pl part r)
     | None \<Rightarrow>
         (case reserve r of
            (Some e, r') \<Rightarrow> (Inl e, r')
          | (None, r') \<Rightarrow>
              accept_part \<lparr> ak_handle = h, ak_id = fid \<rparr> tot off pl (new_assembly tot now)
                (r'\<lparr> pending := AList.update \<lparr> ak_handle = h, ak_id = fid \<rparr> (new_assembly tot now) (pending r') \<rparr>)))"
proof -
  have lt: "tot < 65536" "off < 65536" using assms by (auto simp: max_packet_def)
  define d where "d = fragment_datagram h fid tot off pl"
  note f = fragment_fields_decode [OF lt, of h fid pl, folded d_def]
  have c: "(length d \<le> tag_len \<or> length d > max_packet + tag_len) = False"
    "(d ! 2 \<noteq> 0 \<or> length d \<le> 15) = False"
    "(tot = 0 \<or> tot > max_packet \<or> off + length pl > tot) = False"
    "(drop_bit 4 (d ! 2) = 4 \<or> drop_bit 4 (d ! 2) = 6) = False"
    using assms f(2) by (simp_all add: tag_len_def d_def)
  have t: "tag_len = 2" "frag_header_len = 15" by (simp_all add: tag_len_def frag_header_len_def)
  have h: "(h = 0) = False" using assms(1) by simp
  show ?thesis
    unfolding d_def [symmetric] accept_def Let_def f(1) h c(1) unfolding t f(3-6) c if_False ..
qed

lemma map_of_delete [simp]: "map_of (AList.delete k xs) k = None"
  by (simp add: delete_conv)

lemma map_of_update [simp]: "map_of (AList.update k v xs) k = Some v"
  by (simp add: update_conv)

text \<open>One datagram of \<open>p\<close>, arriving while its assembly represents \<open>C\<close>.\<close>

lemma accept_part_of:
  assumes rep: "asm_rep p C a" and i: "i < div_ceil (length p) n" and n: "0 < n"
    and key: "map_of (pending r) key = Some a"
  defines "C' \<equiv> C \<union> part_range p n i"
  shows "(C' = {..<length p} \<longrightarrow>
      fst (accept_part key (length p) (i * n) (take n (drop (i * n) p)) a r) = Inr (Some p) \<and>
      map_of (pending (snd (accept_part key (length p) (i * n) (take n (drop (i * n) p)) a r))) key = None) \<and>
    (C' \<noteq> {..<length p} \<longrightarrow>
      fst (accept_part key (length p) (i * n) (take n (drop (i * n) p)) a r) = Inr None \<and>
      (\<exists>a'. map_of (pending (snd (accept_part key (length p) (i * n) (take n (drop (i * n) p)) a r))) key = Some a' \<and>
        asm_rep p C' a' \<and> deadline a' = deadline a))"
proof -
  let ?pl = "take n (drop (i * n) p)"
  have fit: "i * n + length ?pl \<le> length p" using i by (simp add: div_ceil_index [OF n])
  have "\<forall>j<length ?pl. ?pl ! j = p ! (i * n + j)" using fit by auto
  from write_bytes_agrees [OF rep fit this] obtain a' where w: "write_bytes (i * n) ?pl a = Some a'"
    and rep': "asm_rep p C' a'" by (auto simp: C'_def part_range_def)
  from rep have shape: "asm_shape (length p) C a" by (simp add: asm_rep_def)
  from write_bytes_shape [OF shape fit w] have d: "deadline a' = deadline a" by simp
  have len: "length (as_packet a) = length p" using shape by (simp add: asm_shape_def)
  show ?thesis
    using w len key asm_rep_complete [OF rep'] rep' d
    by (auto simp: accept_part_def remove_pending_def)
qed

text \<open>A reassembler with room for the packet of \<open>key\<close>: nothing pending under it, and a free slot.\<close>

definition has_room :: "assembly_key \<Rightarrow> reassembler \<Rightarrow> bool" where
  "has_room key r \<longleftrightarrow>
     map_of (pending r) key = None \<and> length (pending r) < max_pending \<and> assembly_cost \<le> budget r"

text \<open>The outcome of one datagram: \<open>part_outcome p C key dl x\<close> says the result \<open>x\<close> of \<open>accept\<close> is the
  packet if \<open>C\<close> is complete, and otherwise an assembly that represents \<open>C\<close> with deadline \<open>dl\<close>.\<close>

definition part_outcome ::
    "bytes \<Rightarrow> nat set \<Rightarrow> assembly_key \<Rightarrow> instant \<Rightarrow> (drop_reason + bytes option) \<times> reassembler \<Rightarrow> bool" where
  "part_outcome p C key dl x \<longleftrightarrow>
     (C = {..<length p} \<longrightarrow> fst x = Inr (Some p) \<and> map_of (pending (snd x)) key = None) \<and>
     (C \<noteq> {..<length p} \<longrightarrow> fst x = Inr None \<and>
        (\<exists>a. map_of (pending (snd x)) key = Some a \<and> asm_rep p C a \<and> deadline a = dl))"

definition fragmentable :: "u16 \<Rightarrow> bytes \<Rightarrow> nat \<Rightarrow> bool" where
  "fragmentable h p n \<longleftrightarrow> h \<noteq> 0 \<and> 0 < n \<and> p \<noteq> [] \<and> length p \<le> max_packet \<and> n + frag_header_len < length p + tag_len"

lemma accept_part_of_eq:
  assumes "fragmentable h p n" and "i < div_ceil (length p) n"
  shows "accept (part_of h fid p n i) now r =
    (case map_of (pending r) \<lparr> ak_handle = h, ak_id = fid \<rparr> of
       Some part \<Rightarrow>
         (if now \<ge> deadline part then (Inl ReassemblyTimeout, remove_pending \<lparr> ak_handle = h, ak_id = fid \<rparr> r)
          else accept_part \<lparr> ak_handle = h, ak_id = fid \<rparr> (length p) (i * n) (take n (drop (i * n) p)) part r)
     | None \<Rightarrow>
         (case reserve r of
            (Some e, r') \<Rightarrow> (Inl e, r')
          | (None, r') \<Rightarrow>
              accept_part \<lparr> ak_handle = h, ak_id = fid \<rparr> (length p) (i * n) (take n (drop (i * n) p))
                (new_assembly (length p) now)
                (r'\<lparr> pending := AList.update \<lparr> ak_handle = h, ak_id = fid \<rparr> (new_assembly (length p) now) (pending r') \<rparr>)))"
  unfolding part_of_def
proof (rule accept_fragment)
  have n: "0 < n" using assms(1) by (simp add: fragmentable_def)
  from assms(2) have i: "i * n < length p" by (simp add: div_ceil_index [OF n])
  then show "take n (drop (i * n) p) \<noteq> []" "i * n + length (take n (drop (i * n) p)) \<le> length p"
    using n by auto
  show "15 + length (take n (drop (i * n) p)) \<le> max_packet + tag_len"
    using assms(1) by (auto simp: fragmentable_def frag_header_len_def tag_len_def)
qed (use assms(1) in \<open>auto simp: fragmentable_def\<close>)

lemma accept_present:
  assumes "fragmentable h p n" and "i < div_ceil (length p) n"
    and "map_of (pending r) \<lparr> ak_handle = h, ak_id = fid \<rparr> = Some a" and "asm_rep p C a" and "now < deadline a"
  shows "part_outcome p (C \<union> part_range p n i) \<lparr> ak_handle = h, ak_id = fid \<rparr> (deadline a)
           (accept (part_of h fid p n i) now r)"
proof -
  have n: "0 < n" using assms(1) by (simp add: fragmentable_def)
  from accept_part_of [OF assms(4,2) n assms(3)] show ?thesis
    unfolding part_outcome_def accept_part_of_eq [OF assms(1,2)] using assms(3,5) by simp
qed

lemma accept_absent:
  assumes "fragmentable h p n" and "i < div_ceil (length p) n" and "has_room \<lparr> ak_handle = h, ak_id = fid \<rparr> r"
  shows "part_outcome p (part_range p n i) \<lparr> ak_handle = h, ak_id = fid \<rparr> (now + reassembly_timeout)
           (accept (part_of h fid p n i) now r)"
proof -
  let ?k = "\<lparr> ak_handle = h, ak_id = fid \<rparr>"
  define r' where "r' = r\<lparr> budget := budget r - assembly_cost,
      pending := AList.update ?k (new_assembly (length p) now) (pending r) \<rparr>"
  have n: "0 < n" and l: "length p \<le> max_packet" using assms(1) by (simp_all add: fragmentable_def)
  have "accept (part_of h fid p n i) now r =
      accept_part ?k (length p) (i * n) (take n (drop (i * n) p)) (new_assembly (length p) now) r'"
    unfolding accept_part_of_eq [OF assms(1,2)] using assms(3) by (simp add: has_room_def reserve_def r'_def)
  moreover have "map_of (pending r') ?k = Some (new_assembly (length p) now)" by (simp add: r'_def)
  moreover have "deadline (new_assembly (length p) now) = now + reassembly_timeout"
    by (simp add: new_assembly_def)
  ultimately show ?thesis
    using accept_part_of [OF new_assembly_rep [OF l] assms(2) n, of r' ?k now]
    by (simp add: part_outcome_def)
qed

definition timed_parts :: "u16 \<Rightarrow> u64 \<Rightarrow> bytes \<Rightarrow> nat \<Rightarrow> (instant \<times> nat) list \<Rightarrow> (instant \<times> bytes) list" where
  "timed_parts h fid p n tis = map (\<lambda>(t, i). (t, part_of h fid p n i)) tis"

definition parts_cover :: "bytes \<Rightarrow> nat \<Rightarrow> (instant \<times> nat) list \<Rightarrow> nat set" where
  "parts_cover p n tis = (\<Union>i\<in>snd ` set tis. part_range p n i)"

lemma feed_present:
  assumes "fragmentable h p n" and "map_of (pending r) \<lparr> ak_handle = h, ak_id = fid \<rparr> = Some a"
    and "asm_rep p C a" and "\<forall>(t, i)\<in>set tis. i < div_ceil (length p) n \<and> t < deadline a"
    and "C \<union> parts_cover p n tis \<noteq> {..<length p}"
  shows "fst (feed (timed_parts h fid p n tis) r) = replicate (length tis) (Inr None) \<and>
    (\<exists>a'. map_of (pending (snd (feed (timed_parts h fid p n tis) r))) \<lparr> ak_handle = h, ak_id = fid \<rparr> = Some a' \<and>
       asm_rep p (C \<union> parts_cover p n tis) a' \<and> deadline a' = deadline a)"
  using assms(2-5)
proof (induction tis arbitrary: r a C)
  case Nil
  then show ?case by (simp add: timed_parts_def parts_cover_def)
next
  case (Cons ti tis)
  obtain t i where ti: "ti = (t, i)" by (cases ti)
  let ?k = "\<lparr> ak_handle = h, ak_id = fid \<rparr>" and ?C = "C \<union> part_range p n i"
  obtain res r1 where acc: "accept (part_of h fid p n i) t r = (res, r1)" by (cases "accept (part_of h fid p n i) t r")
  have it: "i < div_ceil (length p) n" "t < deadline a" using Cons.prems(3) ti by auto
  have un: "C \<union> parts_cover p n (ti # tis) = ?C \<union> parts_cover p n tis"
    by (auto simp: parts_cover_def ti)
  have sub: "C \<union> parts_cover p n (ti # tis) \<subseteq> {..<length p}"
    using Cons.prems(2) by (auto simp: asm_rep_def asm_shape_def parts_cover_def part_range_def)
  have "?C \<noteq> {..<length p}" using Cons.prems(4) sub unfolding un by blast
  then obtain a1 where res: "res = Inr None" and a1: "map_of (pending r1) ?k = Some a1" "asm_rep p ?C a1"
    "deadline a1 = deadline a"
    using accept_present [OF assms(1) it(1) Cons.prems(1,2) it(2)] acc by (auto simp: part_outcome_def)
  have feed: "feed (timed_parts h fid p n (ti # tis)) r =
      (let (rest, r2) = feed (timed_parts h fid p n tis) r1 in (res # rest, r2))"
    by (simp add: timed_parts_def ti acc)
  show ?case
    using Cons.IH [OF a1(1,2)] Cons.prems(3,4) a1(3) res
    unfolding un feed by (auto simp: case_prod_beta Let_def)
qed

lemma feed_snoc:
  "feed (evs @ [(now, d)]) r =
     (fst (feed evs r) @ [fst (accept d now (snd (feed evs r)))], snd (accept d now (snd (feed evs r))))"
  by (induction evs arbitrary: r) (auto simp: case_prod_beta Let_def split: prod.splits)

lemma list_choice:
  "\<forall>y\<in>set ys. \<exists>x. y = f x \<and> Q x \<Longrightarrow> \<exists>xs. ys = map f xs \<and> (\<forall>x\<in>set xs. Q x)"
proof (induction ys)
  case Nil
  show ?case by simp
next
  case (Cons y ys)
  then obtain x xs where "y = f x" "Q x" "ys = map f xs" "\<forall>x\<in>set xs. Q x" by auto
  then show ?case by (intro exI [of _ "x # xs"]) simp
qed

lemma part_offset:
  assumes "fragmentable h p n" and "i < div_ceil (length p) n"
  shows "unat (from_be16 [part_of h fid p n i ! 13, part_of h fid p n i ! 14]) = i * n"
proof -
  have n: "0 < n" and l: "length p < 65536" using assms(1) by (simp_all add: fragmentable_def max_packet_def)
  have "i * n < length p" using assms(2) by (simp add: div_ceil_index [OF n])
  with l have "i * n < 65536" by linarith
  from fragment_fields_decode(5) [OF l this] show ?thesis unfolding part_of_def .
qed

lemma part_of_inject:
  assumes "fragmentable h p n" and "i < div_ceil (length p) n" and "k < div_ceil (length p) n"
    and "part_of h fid p n i = part_of h fid p n k"
  shows "i = k"
proof -
  have "0 < n" using assms(1) by (simp add: fragmentable_def)
  moreover have "i * n = k * n"
    using part_offset [OF assms(1,2), of fid] part_offset [OF assms(1,3), of fid] assms(4) by metis
  ultimately show ?thesis by simp
qed

lemma feed_fragments:
  assumes frag: "fragmentable h p n" and room: "has_room \<lparr> ak_handle = h, ak_id = fid \<rparr> r"
    and idx: "\<forall>(t, i)\<in>set tis. i < div_ceil (length p) n" and j: "j < div_ceil (length p) n"
    and all: "snd ` set tis \<union> {j} = {0..<div_ceil (length p) n}" and fresh: "j \<notin> snd ` set tis"
    and time: "\<forall>t\<in>set (map fst tis @ [now]). t < hd (map fst tis @ [now]) + reassembly_timeout"
  shows "fst (feed (timed_parts h fid p n tis @ [(now, part_of h fid p n j)]) r) =
    replicate (length tis) (Inr None) @ [Inr (Some p)]"
proof -
  have n: "0 < n" using frag by (simp add: fragmentable_def)
  note ranges = part_ranges [OF n, where p = p]
  let ?k = "\<lparr> ak_handle = h, ak_id = fid \<rparr>"
  have full: "parts_cover p n tis \<union> part_range p n j = {..<length p}"
    unfolding parts_cover_def ranges(1) [symmetric] all [symmetric] by auto
  have part: "parts_cover p n tis \<noteq> {..<length p}"
  proof
    assume "parts_cover p n tis = {..<length p}"
    moreover have "j * n \<in> {..<length p}" using j by (simp add: div_ceil_index [OF n])
    ultimately have "j * n \<in> parts_cover p n tis" by simp
    then obtain k where "k \<in> snd ` set tis" "j * n \<in> part_range p n k" unfolding parts_cover_def by blast
    with ranges(3) fresh show False by blast
  qed
  show ?thesis
  proof (cases tis)
    case Nil
    from accept_absent [OF frag j room, of now] full show ?thesis
      by (simp add: Nil timed_parts_def parts_cover_def part_outcome_def case_prod_beta)
  next
    case (Cons ti ts)
    obtain t i where ti: "ti = (t, i)" by (cases ti)
    obtain res r1 where acc: "accept (part_of h fid p n i) t r = (res, r1)"
      by (cases "accept (part_of h fid p n i) t r")
    have i: "i < div_ceil (length p) n" using idx Cons ti by auto
    have un: "parts_cover p n tis = part_range p n i \<union> parts_cover p n ts" by (auto simp: parts_cover_def Cons ti)
    have "parts_cover p n tis \<subseteq> {..<length p}" using full by blast
    then have "part_range p n i \<noteq> {..<length p}" using part un by blast
    then obtain a1 where res: "res = Inr None" and a1: "map_of (pending r1) ?k = Some a1"
      "asm_rep p (part_range p n i) a1" and dl: "deadline a1 = t + reassembly_timeout"
      using accept_absent [OF frag i room, of t] acc by (auto simp: part_outcome_def)
    have times: "\<forall>(t, i)\<in>set ts. i < div_ceil (length p) n \<and> t < deadline a1" and last: "now < deadline a1"
      using idx time Cons ti dl by auto
    from feed_present [OF frag a1 times] part un obtain a2 where
      f: "fst (feed (timed_parts h fid p n ts) r1) = replicate (length ts) (Inr None)"
      and a2: "map_of (pending (snd (feed (timed_parts h fid p n ts) r1))) ?k = Some a2"
        "asm_rep p (parts_cover p n tis) a2" "deadline a2 = deadline a1" by (auto simp: un)
    have "fst (accept (part_of h fid p n j) now (snd (feed (timed_parts h fid p n ts) r1))) = Inr (Some p)"
      using accept_present [OF frag j a2(1,2)] last a2(3) full by (simp add: part_outcome_def)
    with f res show ?thesis unfolding feed_snoc by (simp add: Cons ti timed_parts_def acc Let_def case_prod_beta)
  qed
qed

lemma accept_whole:
  assumes "h \<noteq> 0" and "p \<noteq> []" and "length p \<le> max_packet" and "drop_bit 4 (p ! 0) = 4 \<or> drop_bit 4 (p ! 0) = 6"
  shows "accept (tag_datagram h p) now r = (Inr (Some p), r)"
proof -
  have l: "2 \<le> length (tag_datagram h p)" by (simp add: tag_datagram_def)
  have "slice (tag_datagram h p) 0 (0 + 2) = to_be16 h" by (simp add: tag_datagram_def slice_def)
  then have "from_be16 [tag_datagram h p ! 0, tag_datagram h p ! 1] = h"
    using two_slice [of 0 "tag_datagram h p"] l by simp
  moreover have "tag_datagram h p ! 2 = p ! 0" "drop 2 (tag_datagram h p) = p"
    "length (tag_datagram h p) = 2 + length p"
    by (simp_all add: tag_datagram_def nth_append)
  ultimately show ?thesis
    using assms by (auto simp: accept_def tag_len_def Let_def)
qed

subsection \<open>Lemmas: bounds of the reassembler\<close>

text \<open>\<open>reasm_ok B r\<close>: at most 64 incomplete packets, each within the packet limit, each really
  incomplete and with an exact byte count, under distinct keys, and together with the free budget
  they account for all \<open>B\<close> permits.\<close>

definition asm_ok :: "assembly \<Rightarrow> bool" where
  "asm_ok a \<longleftrightarrow> (\<exists>C. asm_shape (length (as_packet a)) C a) \<and> received a < length (as_packet a)"

definition reasm_ok :: "nat \<Rightarrow> reassembler \<Rightarrow> bool" where
  "reasm_ok B r \<longleftrightarrow>
     length (pending r) \<le> max_pending \<and> distinct (map fst (pending r)) \<and>
     (\<forall>(k, a)\<in>set (pending r). asm_ok a) \<and>
     budget r + assembly_cost * length (pending r) = B"

lemma length_delete:
  "distinct (map fst xs) \<Longrightarrow> map_of xs k \<noteq> None \<Longrightarrow> Suc (length (AList.delete k xs)) = length xs"
proof (induction xs)
  case Nil
  then show ?case by simp
next
  case (Cons x xs)
  show ?case
  proof (cases "fst x = k")
    case True
    with Cons.prems have "k \<notin> fst ` set xs" by auto
    then have "AList.delete k xs = xs" by (induction xs) auto
    with True show ?thesis by (cases x) simp
  next
    case False
    with Cons show ?thesis by (cases x) auto
  qed
qed

lemma length_update:
  "length (AList.update k v xs) = (if map_of xs k = None then Suc (length xs) else length xs)"
  by (induction xs) auto

lemma remove_pending_ok:
  assumes "reasm_ok B r"
  shows "reasm_ok B (remove_pending key r)"
proof (cases "map_of (pending r) key")
  case None
  with assms show ?thesis by (simp add: remove_pending_def)
next
  case (Some a)
  have len: "length (pending r) = Suc (length (AList.delete key (pending r)))"
    using length_delete [of "pending r" key] assms Some by (simp add: reasm_ok_def)
  have "\<forall>(k, a)\<in>set (AList.delete key (pending r)). asm_ok a"
    using assms set_delete_subset [of key "pending r"] unfolding reasm_ok_def by blast
  with assms Some len show ?thesis
    by (simp add: reasm_ok_def remove_pending_def distinct_delete)
qed

lemma oldest_from_mem: "oldest_from best xs \<in> insert (fst best) (fst ` set xs)"
proof (induction xs arbitrary: best)
  case Nil
  show ?case by simp
next
  case (Cons x xs)
  from Cons.IH [of x] Cons.IH [of best] show ?case
    unfolding oldest_from.simps list.set image_insert
    by (cases "deadline (snd x) < deadline (snd best)") (simp_all only: if_True if_False, blast+)
qed

lemma oldest_mem: "oldest ps = Some k \<Longrightarrow> map_of ps k \<noteq> None"
proof (cases ps)
  case (Cons x xs)
  assume "oldest ps = Some k"
  with Cons oldest_from_mem [of x xs] have "k \<in> fst ` set ps" by (simp add: oldest_def)
  then show ?thesis by (simp add: map_of_eq_None_iff)
qed (simp add: oldest_def)

text \<open>After \<open>reserve\<close> succeeds one permit set is held for the assembly about to be inserted.\<close>

lemma reserve_ok:
  assumes "reasm_ok B r" and "reserve r = (None, r')"
  shows "length (pending r') < max_pending \<and> distinct (map fst (pending r')) \<and>
    (\<forall>(k, a)\<in>set (pending r'). asm_ok a) \<and> set (pending r') \<subseteq> set (pending r) \<and>
    budget r' + assembly_cost * Suc (length (pending r')) = B"
proof (cases "length (pending r) < max_pending \<and> assembly_cost \<le> budget r")
  case True
  with assms show ?thesis by (auto simp: reserve_def reasm_ok_def)
next
  case False
  with assms(2) obtain key where key: "oldest (pending r) = Some key"
    and r': "r' = r\<lparr> evicted := evicted r + 1, pending := AList.delete key (pending r) \<rparr>"
    by (auto simp: reserve_def split: if_splits option.splits)
  have len: "Suc (length (AList.delete key (pending r))) = length (pending r)"
    using length_delete [OF _ oldest_mem [OF key]] assms(1) by (simp add: reasm_ok_def)
  with assms(1) set_delete_subset [of key "pending r"] show ?thesis
    unfolding r' by (auto simp: reasm_ok_def distinct_delete)
qed

lemma update_pending_ok:
  assumes "reasm_ok B r" and "map_of (pending r) key \<noteq> None" and "asm_ok a"
  shows "reasm_ok B (r\<lparr> pending := AList.update key a (pending r) \<rparr>)"
proof -
  have "\<forall>(k, a)\<in>set (AList.update key a (pending r)). asm_ok a"
    using assms(1,3) set_update_subset [of key a "pending r"] unfolding reasm_ok_def by blast
  with assms show ?thesis by (auto simp: reasm_ok_def length_update distinct_update)
qed

lemma accept_part_ok:
  assumes "reasm_ok B r" and "map_of (pending r) key = Some part" and "offset + length payload \<le> tot"
  shows "reasm_ok B (snd (accept_part key tot offset payload part r)) \<and>
    (\<forall>p. fst (accept_part key tot offset payload part r) = Inr (Some p) \<longrightarrow> length p = tot \<and> tot \<le> max_packet)"
proof (cases "length (as_packet part) = tot")
  case False
  with assms(1) show ?thesis by (simp add: accept_part_def remove_pending_ok)
next
  case len: True
  have "asm_ok part" using assms(1,2) map_of_SomeD unfolding reasm_ok_def by fastforce
  with len obtain C where shape: "asm_shape tot C part" by (auto simp: asm_ok_def)
  show ?thesis
  proof (cases "write_bytes offset payload part")
    case None
    with len assms(1) show ?thesis by (simp add: accept_part_def remove_pending_ok)
  next
    case (Some part')
    from write_bytes_shape [OF shape assms(3) Some]
    have s': "asm_shape tot (C \<union> {offset..<offset + length payload}) part'" by simp
    then have "received part' \<le> tot" "length (as_packet part') = tot" "tot \<le> max_packet"
      using card_mono [of "{..<tot}" "C \<union> {offset..<offset + length payload}"]
      by (auto simp: asm_shape_def)
    then have "received part' \<noteq> tot \<Longrightarrow> asm_ok part'" using s' by (auto simp: asm_ok_def)
    with len Some assms(1,2) \<open>length (as_packet part') = tot\<close> \<open>tot \<le> max_packet\<close> show ?thesis
      by (simp add: accept_part_def remove_pending_ok update_pending_ok)
  qed
qed

lemma insert_new_ok:
  assumes "reasm_ok B r" and "reserve r = (None, r')" and "map_of (pending r) key = None"
    and "0 < tot" and "tot \<le> max_packet"
  shows "reasm_ok B (r'\<lparr> pending := AList.update key (new_assembly tot now) (pending r') \<rparr>)"
proof -
  note r = reserve_ok [OF assms(1,2)]
  have "map_of (pending r') key = None"
    using r assms(3) by (auto simp: map_of_eq_None_iff)
  moreover have "asm_ok (new_assembly tot now)"
    using new_assembly_shape [OF assms(5), of now] assms(4)
    by (auto simp: asm_ok_def) (auto simp: new_assembly_def)
  then have "\<forall>(k, a)\<in>set (AList.update key (new_assembly tot now) (pending r')). asm_ok a"
    using r set_update_subset [of key "new_assembly tot now" "pending r'"] by blast
  ultimately show ?thesis
    using r by (simp add: reasm_ok_def length_update distinct_update Suc_le_eq)
qed

lemma expire_ok:
  assumes "reasm_ok B r"
  shows "reasm_ok B (snd (expire now r)) \<and>
    fst (expire now r) + length (pending (snd (expire now r))) = length (pending r)"
proof -
  let ?kept = "filter (\<lambda>(_, p). now < deadline p) (pending r)"
  have le: "length ?kept \<le> length (pending r)" by simp
  then obtain m where m: "length (pending r) = length ?kept + m" using le_Suc_ex by blast
  have "budget r + m * assembly_cost + assembly_cost * length ?kept = B"
    using assms unfolding reasm_ok_def m by (simp add: algebra_simps)
  moreover have "distinct (map fst ?kept)" using assms by (simp add: reasm_ok_def distinct_map_filter)
  moreover have "\<forall>(k, a)\<in>set ?kept. asm_ok a" using assms by (auto simp: reasm_ok_def)
  moreover have "length ?kept \<le> max_pending" using assms le unfolding reasm_ok_def by linarith
  ultimately show ?thesis by (simp add: reasm_ok_def expire_def Let_def m)
qed

text \<open>The datagrams that reach the assembly map, and \<open>accept\<close> on them.\<close>

definition fragment_accept_path :: "bytes \<Rightarrow> bool" where
  "fragment_accept_path d \<longleftrightarrow>
     (let handle = from_be16 [d ! 0, d ! 1]; tot = unat (from_be16 [d ! 11, d ! 12]);
          offset = unat (from_be16 [d ! 13, d ! 14])
      in tag_len < length d \<and> length d \<le> max_packet + tag_len \<and> handle \<noteq> 0 \<and>
         drop_bit 4 (d ! tag_len) \<noteq> 4 \<and> drop_bit 4 (d ! tag_len) \<noteq> 6 \<and>
         d ! tag_len = 0 \<and> frag_header_len < length d \<and>
         tot \<noteq> 0 \<and> tot \<le> max_packet \<and> offset + length (drop frag_header_len d) \<le> tot)"

lemma accept_path_eq:
  assumes "fragment_accept_path d"
  shows "accept d now r =
    (let key = \<lparr> ak_handle = from_be16 [d ! 0, d ! 1], ak_id = from_be64 (slice d 3 11) \<rparr>;
         tot = unat (from_be16 [d ! 11, d ! 12]); offset = unat (from_be16 [d ! 13, d ! 14]);
         payload = drop frag_header_len d
     in case map_of (pending r) key of
          Some part \<Rightarrow>
            (if now \<ge> deadline part then (Inl ReassemblyTimeout, remove_pending key r)
             else accept_part key tot offset payload part r)
        | None \<Rightarrow>
            (case reserve r of
               (Some e, r') \<Rightarrow> (Inl e, r')
             | (None, r') \<Rightarrow>
                 (let part = new_assembly tot now
                  in accept_part key tot offset payload part
                       (r'\<lparr> pending := AList.update key part (pending r') \<rparr>))))"
proof -
  note a = assms [unfolded fragment_accept_path_def Let_def]
  then have c: "(length d \<le> tag_len \<or> length d > max_packet + tag_len) = False"
    "(from_be16 [d ! 0, d ! 1] = 0) = False"
    "(drop_bit 4 (d ! tag_len) = 4 \<or> drop_bit 4 (d ! tag_len) = 6) = False"
    "(d ! tag_len \<noteq> 0 \<or> length d \<le> frag_header_len) = False"
    by (simp_all add: not_le not_less)
  from a have "\<not> (unat (from_be16 [d ! 11, d ! 12]) = 0 \<or> unat (from_be16 [d ! 11, d ! 12]) > max_packet \<or>
      unat (from_be16 [d ! 13, d ! 14]) + length (drop frag_header_len d) > unat (from_be16 [d ! 11, d ! 12]))"
    by (elim conjE) (intro notI; elim disjE; linarith)
  note c5 = Eq_FalseI [OF this]
  show ?thesis unfolding accept_def Let_def c c5 if_False ..
qed

subsection \<open>Properties\<close>

lemma encoded_reassembles:
  assumes "encode nid h p mx = (Some e, nid')" and "drop_bit 4 (p ! 0) = 4 \<or> drop_bit 4 (p ! 0) = 6"
    and "has_room \<lparr> ak_handle = h, ak_id = nid \<rparr> r"
    and "set (map snd evs) \<union> {d} = set (datagrams e)" and "d \<notin> set (map snd evs)"
    and "\<forall>t\<in>set (map fst evs @ [now]). t < hd (map fst evs @ [now]) + secs 5"
  shows "fst (feed (evs @ [(now, d)]) r) = replicate (length evs) (Inr None) @ [Inr (Some p)]"
  using assms(1)
proof (cases rule: encode_cases)
  case whole
  then have one: "set (datagrams e) = {tag_datagram h p}" by (simp add: datagrams_def)
  have din: "d \<in> set (datagrams e)" and sub: "set (map snd evs) \<subseteq> set (datagrams e)"
    unfolding assms(4) [symmetric] by blast+
  from din one have d: "d = tag_datagram h p" by simp
  from subset_singletonD [OF sub [unfolded one]] have "set (map snd evs) = {}"
    using assms(5) unfolding d by (elim disjE) simp_all
  then have "evs = []" by simp
  with d accept_whole [OF whole(2-4) assms(2)] show ?thesis by simp
next
  case (frags n)
  then have frag: "fragmentable h p n" by (simp add: fragmentable_def)
  have dg: "set (datagrams e) = part_of h nid p n ` {0..<div_ceil (length p) n}"
    by (simp add: frags(1) datagrams_def)
  have din: "d \<in> set (datagrams e)" unfolding assms(4) [symmetric] by simp
  then obtain j where j: "j < div_ceil (length p) n" "d = part_of h nid p n j" unfolding dg by auto
  have "\<forall>y\<in>set evs. \<exists>x. y = (\<lambda>(t, i). (t, part_of h nid p n i)) x \<and> snd x < div_ceil (length p) n"
  proof
    fix y assume "y \<in> set evs"
    then have "snd y \<in> set (datagrams e)" using assms(4) by auto
    then obtain i where "i < div_ceil (length p) n" "snd y = part_of h nid p n i" unfolding dg by auto
    then show "\<exists>x. y = (\<lambda>(t, i). (t, part_of h nid p n i)) x \<and> snd x < div_ceil (length p) n"
      by (intro exI [of _ "(fst y, i)"]) (cases y, simp)
  qed
  from list_choice [OF this] obtain tis where evs: "evs = timed_parts h nid p n tis"
    and idx: "\<forall>x\<in>set tis. snd x < div_ceil (length p) n" unfolding timed_parts_def by blast
  have sn: "set (map snd evs) = part_of h nid p n ` snd ` set tis" and fs: "map fst evs = map fst tis"
    by (simp_all add: evs timed_parts_def case_prod_beta comp_def image_image)
  have inj: "inj_on (part_of h nid p n) {0..<div_ceil (length p) n}"
  proof (rule inj_onI)
    fix a b assume "a \<in> {0..<div_ceil (length p) n}" "b \<in> {0..<div_ceil (length p) n}"
      and eq: "part_of h nid p n a = part_of h nid p n b"
    then have "a < div_ceil (length p) n" "b < div_ceil (length p) n" by simp_all
    then show "a = b" using part_of_inject [OF frag] eq by blast
  qed
  have sub: "snd ` set tis \<union> {j} \<subseteq> {0..<div_ceil (length p) n}" using idx j by auto
  have "part_of h nid p n ` (snd ` set tis \<union> {j}) = part_of h nid p n ` {0..<div_ceil (length p) n}"
    using assms(4) unfolding sn dg j(2) by simp
  then have all: "snd ` set tis \<union> {j} = {0..<div_ceil (length p) n}"
    using inj_on_image_eq_iff [OF inj sub order_refl] by blast
  have fresh: "j \<notin> snd ` set tis" using assms(5) unfolding sn j(2) by auto
  have "fst (feed (timed_parts h nid p n tis @ [(now, part_of h nid p n j)]) r) =
      replicate (length tis) (Inr None) @ [Inr (Some p)]"
  proof (rule feed_fragments [OF frag assms(3) _ j(1) all fresh])
    show "\<forall>(t, i)\<in>set tis. i < div_ceil (length p) n" using idx by auto
    show "\<forall>t\<in>set (map fst tis @ [now]). t < hd (map fst tis @ [now]) + reassembly_timeout"
      using assms(6) unfolding fs reassembly_timeout_def .
  qed
  then show ?thesis by (simp add: evs j(2) timed_parts_def)
qed

text \<open>C8. Framing loses nothing: whenever \<open>encode\<close> can frame an IP packet, the peer's reassembler
  gives back exactly that packet when the last missing datagram arrives and not before, in whatever
  order the datagrams come and however often the others are repeated, as long as they arrive within
  five seconds of the first and the connection has room for one more packet.\<close>

theorem fragments_reassemble:
  assumes "encode nid h p mx = (Some e, nid')" and "drop_bit 4 (p ! 0) = 4 \<or> drop_bit 4 (p ! 0) = 6"
    and "has_room \<lparr> ak_handle = h, ak_id = nid \<rparr> r"
    and "set (map snd evs) \<union> {d} = set (datagrams e)" and "d \<notin> set (map snd evs)"
    and "\<forall>t\<in>set (map fst evs @ [now]). t < hd (map fst evs @ [now]) + secs 5"
  shows "fst (feed (evs @ [(now, d)]) r) = replicate (length evs) (Inr None) @ [Inr (Some p)]"
  using assms by (rule encoded_reassembles)

definition empty_reassembler :: reassembler where
  "empty_reassembler = \<lparr> pending = [], budget = global_budget, evicted = 0 \<rparr>"

text \<open>A 64-byte IPv4 packet sent over a path of 49 bytes per datagram: two fragments of 34 and 30 bytes.\<close>

definition sample_packet :: bytes where
  "sample_packet = 0x45 # replicate 63 7"

theorem fragments_reassemble_witness:
  "\<exists>d0 d1. encode 5 1 sample_packet 49 = (Some (Fragments [d0, d1]), 6) \<and>
     fst (feed [(3, d1), (4, d1), (9, d0)] empty_reassembler) = [Inr None, Inr None, Inr (Some sample_packet)]"
proof -
  have l: "length sample_packet = 64" by (simp add: sample_packet_def)
  define d0 d1 where "d0 = part_of 1 5 sample_packet 34 0" and "d1 = part_of 1 5 sample_packet 34 1"
  have frag: "fragmentable 1 sample_packet 34"
    using l by (auto simp: fragmentable_def max_packet_def frag_header_len_def tag_len_def)
  have dc: "div_ceil 64 34 = 2" by (simp add: div_ceil_def)
  have e: "encode 5 1 sample_packet 49 = (Some (Fragments [d0, d1]), 6)"
    by (simp add: encode_def wire_size_def l max_packet_def tag_len_def frag_header_len_def dc
        max_fragments_def chunks_nth enumerate_map_upt upt_rec d0_def d1_def part_of_def)
  have ne: "d0 \<noteq> d1"
    using part_of_inject [OF frag, of 0 1 5] by (auto simp: d0_def d1_def l dc)
  have room: "has_room \<lparr> ak_handle = 1, ak_id = 5 \<rparr> empty_reassembler"
    by (simp add: has_room_def empty_reassembler_def max_pending_def assembly_cost_def max_packet_def
        global_budget_def)
  have ip: "drop_bit 4 (sample_packet ! 0) = 4 \<or> drop_bit 4 (sample_packet ! 0) = 6"
    by (simp add: sample_packet_def)
  have dg: "set (map snd [(3, d1), (4, d1)]) \<union> {d0} = set (datagrams (Fragments [d0, d1]))"
    by (auto simp: datagrams_def)
  have "fst (feed ([(3, d1), (4, d1)] @ [(9, d0)]) empty_reassembler) =
      replicate (length [(3 :: instant, d1), (4, d1)]) (Inr None) @ [Inr (Some sample_packet)]"
  proof (rule fragments_reassemble [where evs = "[(3, d1), (4, d1)]" and d = d0 and now = 9, OF e ip room dg])
    show "d0 \<notin> set (map snd [(3, d1), (4, d1)])" using ne by simp
  qed simp
  with e show ?thesis by (intro exI [of _ d0] exI [of _ d1]) (simp add: numeral_2_eq_2)
qed

text \<open>C21. A peer cannot exhaust memory: whatever datagrams a connection sends, valid or not, the
  reassembler holds at most 64 incomplete packets of at most 1500 bytes, each with an exact count of
  received bytes below its size, the permits they hold and the free budget always add up, every
  packet it delivers is within the packet limit, and expiry frees exactly what it drops.\<close>

theorem reassembler_invariant:
  assumes "reasm_ok B r"
  shows "reasm_ok B (snd (accept d now r)) \<and>
    (\<forall>p. fst (accept d now r) = Inr (Some p) \<longrightarrow> length p \<le> 1500) \<and>
    reasm_ok B (snd (expire now r)) \<and> fst (expire now r) + length (pending (snd (expire now r))) = length (pending r)"
proof -
  let ?h = "from_be16 [d ! 0, d ! 1]"
  let ?k = "\<lparr> ak_handle = ?h, ak_id = from_be64 (slice d 3 11) \<rparr>"
  let ?tot = "unat (from_be16 [d ! 11, d ! 12])" and ?off = "unat (from_be16 [d ! 13, d ! 14])"
  let ?pl = "drop frag_header_len d"
  have acc: "reasm_ok B (snd (accept d now r)) \<and>
      (\<forall>p. fst (accept d now r) = Inr (Some p) \<longrightarrow> length p \<le> max_packet)"
  proof (cases "fragment_accept_path d")
    case False
    then show ?thesis using assms remove_pending_ok [OF assms]
      by (auto simp: fragment_accept_path_def accept_def tag_len_def Let_def)
  next
    case True
    then have t: "0 < ?tot" "?tot \<le> max_packet" "?off + length ?pl \<le> ?tot"
      by (auto simp: fragment_accept_path_def Let_def)
    show ?thesis
    proof (cases "map_of (pending r) ?k")
      case (Some part)
      with True accept_part_ok [OF assms Some t(3)] remove_pending_ok [OF assms] show ?thesis
        by (auto simp: accept_path_eq Let_def)
    next
      case None
      show ?thesis
      proof (cases "reserve r")
        case (Pair e r')
        show ?thesis
        proof (cases e)
          case (Some x)
          with Pair have "r' = r" by (auto simp: reserve_def split: if_splits option.splits)
          with Some Pair None True assms show ?thesis by (simp add: accept_path_eq Let_def)
        next
          case none: None
          with Pair have res: "reserve r = (None, r')" by simp
          let ?r = "r'\<lparr> pending := AList.update ?k (new_assembly ?tot now) (pending r') \<rparr>"
          have "reasm_ok B ?r" by (rule insert_new_ok [OF assms res None t(1,2)])
          moreover have "map_of (pending ?r) ?k = Some (new_assembly ?tot now)" by simp
          ultimately show ?thesis
            using accept_part_ok [OF _ _ t(3), of B ?r ?k "new_assembly ?tot now"] True None res
            by (auto simp: accept_path_eq Let_def)
        qed
      qed
    qed
  qed
  with expire_ok [OF assms, of now] show ?thesis by (simp add: max_packet_def)
qed

theorem reassembler_invariant_witness:
  "reasm_ok global_budget (snd (accept (part_of 1 5 sample_packet 34 0) 7 empty_reassembler))"
proof -
  have "reasm_ok global_budget empty_reassembler"
    by (simp add: reasm_ok_def empty_reassembler_def max_pending_def)
  from reassembler_invariant [OF this] show ?thesis by blast
qed

end
