(* ===== verification/Frag_Verdicts.thy ===== *)
theory Frag_Verdicts
  imports Packet
begin

text \<open>
  Firewall verdicts for IPv6 fragments, \<open>src/forward/frag_verdicts.rs\<close>: the bounded table of packets
  whose first fragment was let through. The \<open>HashSet\<close> is a set and the \<open>VecDeque\<close> a list, front first;
  the two \<open>while\<close> loops are recursions on the queue. The table is used through the contract
  \<open>fragment_gate\<close>: it admits only what it allowed, and only while the verdict is fresh.
\<close>

definition verdict_ttl :: duration where "verdict_ttl = secs 10"
definition verdict_capacity :: nat where "verdict_capacity = 1024"

record fragment_verdicts =
  fv_allowed :: "fragment_key set"
  fv_order :: "(fragment_key \<times> instant) list"

definition no_verdicts :: fragment_verdicts where
  "no_verdicts = \<lparr> fv_allowed = {}, fv_order = [] \<rparr>"

fun expire_loop :: "instant \<Rightarrow> fragment_key set \<Rightarrow> (fragment_key \<times> instant) list \<Rightarrow> fragment_verdicts" where
  "expire_loop now allowed [] = \<lparr> fv_allowed = allowed, fv_order = [] \<rparr>"
| "expire_loop now allowed ((key, dl) # rest) =
     (if dl > now then \<lparr> fv_allowed = allowed, fv_order = (key, dl) # rest \<rparr>
      else expire_loop now (allowed - {key}) rest)"

definition fv_expire :: "instant \<Rightarrow> fragment_verdicts \<Rightarrow> fragment_verdicts" where
  "fv_expire now v = expire_loop now (fv_allowed v) (fv_order v)"

fun room_loop :: "fragment_key set \<Rightarrow> (fragment_key \<times> instant) list \<Rightarrow> fragment_verdicts" where
  "room_loop allowed [] = \<lparr> fv_allowed = allowed, fv_order = [] \<rparr>"
| "room_loop allowed ((key, dl) # rest) =
     (if card allowed \<ge> verdict_capacity then room_loop (allowed - {key}) rest
      else \<lparr> fv_allowed = allowed, fv_order = (key, dl) # rest \<rparr>)"

definition fv_allow :: "fragment_key \<Rightarrow> instant \<Rightarrow> fragment_verdicts \<Rightarrow> fragment_verdicts" where
  "fv_allow key now v0 =
     (let v = fv_expire now v0 in
      if key \<in> fv_allowed v then v
      else let v = room_loop (fv_allowed v) (fv_order v)
           in \<lparr> fv_allowed = insert key (fv_allowed v), fv_order = fv_order v @ [(key, now + verdict_ttl)] \<rparr>)"

definition fv_admits :: "fragment_key \<Rightarrow> instant \<Rightarrow> fragment_verdicts \<Rightarrow> bool \<times> fragment_verdicts" where
  "fv_admits key now v0 = (let v = fv_expire now v0 in (key \<in> fv_allowed v, v))"

subsection \<open>Contract\<close>

text \<open>\<open>live s\<close> are the verdicts the table may hold, with their deadlines; \<open>ok t s\<close> is its invariant when
  the clock last read \<open>t\<close>.\<close>

locale fragment_gate =
  fixes allow :: "'k \<Rightarrow> instant \<Rightarrow> 's \<Rightarrow> 's"
    and admits :: "'k \<Rightarrow> instant \<Rightarrow> 's \<Rightarrow> bool \<times> 's"
    and live :: "'s \<Rightarrow> ('k \<times> instant) set"
    and ok :: "instant \<Rightarrow> 's \<Rightarrow> bool"
    and ttl :: duration
  assumes ok_allow: "ok t s \<Longrightarrow> t \<le> now \<Longrightarrow> ok now (allow k now s)"
    and ok_admits: "ok t s \<Longrightarrow> t \<le> now \<Longrightarrow> ok now (snd (admits k now s))"
    and live_allow: "live (allow k now s) \<subseteq> insert (k, now + ttl) (live s)"
    and live_admits: "live (snd (admits k now s)) \<subseteq> live s"
    and admits_live: "ok t s \<Longrightarrow> fst (admits k now s) \<Longrightarrow> \<exists>dl. (k, dl) \<in> live s \<and> now < dl"
    and allowed_admitted: "ok t s \<Longrightarrow> t \<le> now \<Longrightarrow> (k, dl) \<in> live (allow k now s) \<Longrightarrow> later < dl \<Longrightarrow>
      fst (admits k later (allow k now s))"
begin

text \<open>Verdicts justified by a set of past approvals \<open>(key, time)\<close> stay justified, and a justified table
  admits only keys approved less than \<open>ttl\<close> ago.\<close>

definition justified :: "('k \<times> instant) set \<Rightarrow> 's \<Rightarrow> bool" where
  "justified past s \<longleftrightarrow> (\<forall>(k, dl)\<in>live s. \<exists>t. (k, t) \<in> past \<and> dl = t + ttl)"

lemma justified_allow: "justified past s \<Longrightarrow> justified (insert (k, now) past) (allow k now s)"
  using live_allow [of k now s] by (fastforce simp: justified_def)

lemma justified_admits: "justified past s \<Longrightarrow> justified past (snd (admits k now s))"
  using live_admits [of k now s] by (fastforce simp: justified_def)

lemma justified_mono: "justified past s \<Longrightarrow> past \<subseteq> past' \<Longrightarrow> justified past' s"
  by (fastforce simp: justified_def)

lemma admits_justified:
  "ok t s \<Longrightarrow> justified past s \<Longrightarrow> fst (admits k now s) \<Longrightarrow> \<exists>u. (k, u) \<in> past \<and> now < u + ttl"
  using admits_live [of t s k now] by (fastforce simp: justified_def)

end

subsection \<open>The table implements it\<close>

definition fv_ok :: "instant \<Rightarrow> fragment_verdicts \<Rightarrow> bool" where
  "fv_ok t v \<longleftrightarrow>
     fv_allowed v = fst ` set (fv_order v) \<and> distinct (map fst (fv_order v)) \<and>
     length (fv_order v) \<le> verdict_capacity \<and> sorted (map snd (fv_order v)) \<and>
     (\<forall>(k, dl)\<in>set (fv_order v). dl \<le> t + verdict_ttl)"

definition fv_live :: "fragment_verdicts \<Rightarrow> (fragment_key \<times> instant) set" where
  "fv_live v = set (fv_order v)"

lemma expire_loop_spec:
  assumes "allowed = fst ` set order" and "distinct (map fst order)" and "sorted (map snd order)"
  shows "expire_loop now allowed order =
    \<lparr> fv_allowed = fst ` set (filter (\<lambda>x. now < snd x) order), fv_order = filter (\<lambda>x. now < snd x) order \<rparr>"
  using assms
proof (induction now allowed order rule: expire_loop.induct)
  case (1 now allowed)
  then show ?case by simp
next
  case (2 now allowed key dl rest)
  show ?case
  proof (cases "dl > now")
    case True
    with "2.prems" have all: "\<forall>x\<in>set ((key, dl) # rest). now < snd x" by auto
    then have "filter (\<lambda>x. now < snd x) ((key, dl) # rest) = (key, dl) # rest" by (simp add: filter_id_conv)
    with True "2.prems"(1) show ?thesis by (simp only: expire_loop.simps if_True)
  next
    case False
    have "allowed - {key} = fst ` set rest" using "2.prems"(1,2) by force
    then show ?thesis using False "2.IH" "2.prems" by simp
  qed
qed

lemma fv_expire_spec:
  assumes "fv_ok t v"
  shows "fv_expire now v =
    \<lparr> fv_allowed = fst ` set (filter (\<lambda>x. now < snd x) (fv_order v)), fv_order = filter (\<lambda>x. now < snd x) (fv_order v) \<rparr>"
  using assms expire_loop_spec [of "fv_allowed v" "fv_order v" now] by (simp add: fv_ok_def fv_expire_def)

lemma fv_expire_ok:
  assumes "fv_ok t v" and "t \<le> now"
  shows "fv_ok now (fv_expire now v)"
proof -
  let ?kept = "filter (\<lambda>x. now < snd x) (fv_order v)"
  have "length ?kept \<le> length (fv_order v)" by simp
  also have "\<dots> \<le> verdict_capacity" using assms(1) by (simp add: fv_ok_def)
  finally have l: "length ?kept \<le> verdict_capacity" .
  have d: "\<forall>(k, dl)\<in>set ?kept. dl \<le> now + verdict_ttl"
    using assms by (fastforce simp: fv_ok_def)
  have "distinct (map fst ?kept)" "sorted (map snd ?kept)"
    using assms(1) by (simp_all add: fv_ok_def distinct_map_filter sorted_filter)
  with l d show ?thesis
    unfolding fv_expire_spec [OF assms(1)] fv_ok_def fragment_verdicts.simps by blast
qed

lemma room_loop_spec:
  assumes "allowed = fst ` set order" and "distinct (map fst order)" and "length order \<le> verdict_capacity"
  shows "room_loop allowed order =
    (if length order = verdict_capacity then \<lparr> fv_allowed = fst ` set (tl order), fv_order = tl order \<rparr>
     else \<lparr> fv_allowed = allowed, fv_order = order \<rparr>)"
proof (cases order)
  case Nil
  then show ?thesis by (simp add: verdict_capacity_def assms(1))
next
  case (Cons x rest)
  obtain key dl where x: "x = (key, dl)" by (cases x)
  have card: "card (fst ` set l) = length l" if "distinct (map fst l)" for l :: "(fragment_key \<times> instant) list"
    using distinct_card [OF that] by simp
  have key: "allowed - {key} = fst ` set rest" using assms(1,2) Cons x by force
  show ?thesis
  proof (cases "length order = verdict_capacity")
    case True
    then have "card allowed \<ge> verdict_capacity" using card [OF assms(2)] assms(1) by simp
    moreover have "room_loop (fst ` set rest) rest = \<lparr> fv_allowed = fst ` set rest, fv_order = rest \<rparr>"
    proof (cases rest)
      case (Cons y ys)
      have "card (fst ` set rest) < verdict_capacity"
        using card [of rest] assms(2,3) True \<open>order = x # rest\<close> by simp
      with Cons show ?thesis by (cases y) simp
    qed simp
    ultimately show ?thesis using True Cons x key by simp
  next
    case False
    then have "\<not> card allowed \<ge> verdict_capacity" using card [OF assms(2)] assms by simp
    with False Cons x show ?thesis by simp
  qed
qed

text \<open>What \<open>allow\<close> leaves: the unexpired verdicts, without the oldest if the table was full, and the
  new one.\<close>

lemma fv_allow_spec:
  assumes "fv_ok t v" and "t \<le> now"
  defines "kept \<equiv> filter (\<lambda>x. now < snd x) (fv_order v)"
  shows "fv_order (fv_allow key now v) =
    (if key \<in> fst ` set kept then kept
     else (if length kept = verdict_capacity then tl kept else kept) @ [(key, now + verdict_ttl)]) \<and>
    fv_allowed (fv_allow key now v) = fst ` set (fv_order (fv_allow key now v))"
proof -
  have ok: "fv_ok now (fv_expire now v)" by (rule fv_expire_ok [OF assms(1,2)])
  have e: "fv_order (fv_expire now v) = kept" "fv_allowed (fv_expire now v) = fst ` set kept"
    using fv_expire_spec [OF assms(1)] by (simp_all add: kept_def)
  have "room_loop (fst ` set kept) kept =
      (if length kept = verdict_capacity then \<lparr> fv_allowed = fst ` set (tl kept), fv_order = tl kept \<rparr>
       else \<lparr> fv_allowed = fst ` set kept, fv_order = kept \<rparr>)"
    by (rule room_loop_spec) (use ok e in \<open>simp_all add: fv_ok_def\<close>)
  then show ?thesis by (simp add: fv_allow_def Let_def e)
qed

lemma fv_allow_ok:
  assumes "fv_ok t v" and "t \<le> now"
  shows "fv_ok now (fv_allow key now v)"
proof -
  have "fv_ok now (fv_expire now v)" by (rule fv_expire_ok [OF assms])
  moreover define kept where "kept = filter (\<lambda>x. now < snd x) (fv_order v)"
  ultimately have k: "distinct (map fst kept)" "length kept \<le> verdict_capacity" "sorted (map snd kept)"
    "\<forall>(k, dl)\<in>set kept. dl \<le> now + verdict_ttl"
    unfolding fv_expire_spec [OF assms(1), of now] fv_ok_def fragment_verdicts.simps by blast+
  define base where "base = (if length kept = verdict_capacity then tl kept else kept)"
  have sub: "set base \<subseteq> set kept" by (cases kept) (auto simp: base_def)
  have b: "distinct (map fst base)" "length base < verdict_capacity" "sorted (map snd base)"
    using k by (auto simp: base_def map_tl distinct_tl sorted_tl verdict_capacity_def)
  have new: "fst ` set base \<subseteq> fst ` set kept" using sub by auto
  have spec: "fv_order (fv_allow key now v) =
      (if key \<in> fst ` set kept then kept else base @ [(key, now + verdict_ttl)])"
    "fv_allowed (fv_allow key now v) = fst ` set (fv_order (fv_allow key now v))"
    using fv_allow_spec [OF assms, of key] unfolding base_def kept_def by blast+
  show ?thesis
  proof (cases "key \<in> fst ` set kept")
    case True
    with spec k show ?thesis by (simp add: fv_ok_def)
  next
    case False
    then have "key \<notin> fst ` set base" using new by blast
    moreover have "\<forall>(k, dl)\<in>set base. dl \<le> now + verdict_ttl" using sub k(4) by blast
    ultimately show ?thesis using False spec b by (auto simp: fv_ok_def sorted_append)
  qed
qed

interpretation fgate: fragment_gate fv_allow fv_admits fv_live fv_ok verdict_ttl
proof
  fix t now later :: instant and s k dl
  show "fv_ok t s \<Longrightarrow> t \<le> now \<Longrightarrow> fv_ok now (fv_allow k now s)" by (rule fv_allow_ok)
  show "fv_ok t s \<Longrightarrow> t \<le> now \<Longrightarrow> fv_ok now (snd (fv_admits k now s))"
    by (simp add: fv_admits_def Let_def fv_expire_ok)
  have exp: "set (fv_order (expire_loop now al order)) \<subseteq> set order" for al order
    by (induction now al order rule: expire_loop.induct) auto
  have room: "set (fv_order (room_loop al order)) \<subseteq> set order" for al order
    by (induction al order rule: room_loop.induct) auto
  show "fv_live (snd (fv_admits k now s)) \<subseteq> fv_live s"
    using exp by (simp add: fv_live_def fv_admits_def Let_def fv_expire_def)
  have "set (fv_order (room_loop (fv_allowed (fv_expire now s)) (fv_order (fv_expire now s)))) \<subseteq> fv_live s"
    using room exp unfolding fv_live_def fv_expire_def by blast
  then show "fv_live (fv_allow k now s) \<subseteq> insert (k, now + verdict_ttl) (fv_live s)"
    using exp by (auto simp: fv_live_def fv_allow_def Let_def fv_expire_def split: if_splits)
  show "fv_ok t s \<Longrightarrow> fst (fv_admits k now s) \<Longrightarrow> \<exists>dl. (k, dl) \<in> fv_live s \<and> now < dl"
    by (auto simp: fv_admits_def Let_def fv_expire_spec fv_live_def)
  show "fst (fv_admits k later (fv_allow k now s))"
    if "fv_ok t s" "t \<le> now" "(k, dl) \<in> fv_live (fv_allow k now s)" "later < dl"
    using fv_expire_spec [OF fv_allow_ok [OF that(1,2), of k], of later] that(3,4)
    by (force simp: fv_admits_def Let_def fv_live_def)
qed

end
