(* ===== verification/Lazy_Dial.thy ===== *)
theory Lazy_Dial
  imports Ray_Prelude
begin

text \<open>
  Packets retained while an on-demand connection opens, \<open>src/forward/lazy_dial.rs\<close>. The specification
  is a queue per peer (\<open>retained\<close>); the lemmas show that the buffers implement it, first in first out,
  within the per-peer and the global budgets, with exact running totals.
\<close>

definition max_packets_per_peer :: nat where "max_packets_per_peer = 64"
definition max_bytes_per_peer :: nat where "max_bytes_per_peer = 128 * 1024"
definition max_packets_total :: nat where "max_packets_total = 512"
definition max_bytes_total :: nat where "max_bytes_total = 1024 * 1024"
definition max_in_flight :: nat where "max_in_flight = 16"

record lazy_dial_queue =
  ldq_packets :: "bytes list"
  ldq_bytes :: nat

record lazy_dial_buffers =
  by_peer :: "endpoint_id \<rightharpoonup> lazy_dial_queue"
  ld_packets :: nat
  ld_bytes :: nat

definition empty_queue :: lazy_dial_queue where
  "empty_queue = \<lparr> ldq_packets = [], ldq_bytes = 0 \<rparr>"

definition no_buffers :: lazy_dial_buffers where
  "no_buffers = \<lparr> by_peer = Map.empty, ld_packets = 0, ld_bytes = 0 \<rparr>"

text \<open>\<open>entry(peer).or_default()\<close> inserts an empty queue even when the packet is then refused.\<close>

definition ld_push :: "endpoint_id \<Rightarrow> bytes \<Rightarrow> lazy_dial_buffers \<Rightarrow> bool \<times> lazy_dial_buffers" where
  "ld_push peer packet b =
     (let n = length packet in
      if ld_packets b \<ge> max_packets_total \<or> ld_bytes b + n > max_bytes_total then (False, b)
      else
        (let q = (case by_peer b peer of None \<Rightarrow> empty_queue | Some q \<Rightarrow> q);
             b = b\<lparr> by_peer := (by_peer b)(peer \<mapsto> q) \<rparr>
         in if length (ldq_packets q) \<ge> max_packets_per_peer \<or> ldq_bytes q + n > max_bytes_per_peer
            then (False, b)
            else (True, b\<lparr> by_peer := (by_peer b)(peer \<mapsto>
                             \<lparr> ldq_packets = ldq_packets q @ [packet], ldq_bytes = ldq_bytes q + n \<rparr>),
                           ld_packets := ld_packets b + 1, ld_bytes := ld_bytes b + n \<rparr>)))"

definition ld_take :: "endpoint_id \<Rightarrow> lazy_dial_buffers \<Rightarrow> bytes list \<times> lazy_dial_buffers" where
  "ld_take peer b =
     (case by_peer b peer of
        None \<Rightarrow> ([], b)
      | Some q \<Rightarrow>
          (ldq_packets q,
           b\<lparr> by_peer := (by_peer b)(peer := None),
              ld_packets := ld_packets b - length (ldq_packets q),
              ld_bytes := ld_bytes b - ldq_bytes q \<rparr>))"

subsection \<open>Specification and invariant\<close>

definition retained :: "lazy_dial_buffers \<Rightarrow> endpoint_id \<Rightarrow> bytes list" where
  "retained b peer = (case by_peer b peer of None \<Rightarrow> [] | Some q \<Rightarrow> ldq_packets q)"

definition queue_ok :: "lazy_dial_queue \<Rightarrow> bool" where
  "queue_ok q \<longleftrightarrow>
     length (ldq_packets q) \<le> max_packets_per_peer \<and> ldq_bytes q \<le> max_bytes_per_peer \<and>
     ldq_bytes q = sum_list (map length (ldq_packets q))"

definition ld_ok :: "lazy_dial_buffers \<Rightarrow> bool" where
  "ld_ok b \<longleftrightarrow>
     finite (dom (by_peer b)) \<and> (\<forall>q\<in>ran (by_peer b). queue_ok q) \<and>
     ld_packets b = (\<Sum>p\<in>dom (by_peer b). length (ldq_packets (the (by_peer b p)))) \<and>
     ld_bytes b = (\<Sum>p\<in>dom (by_peer b). ldq_bytes (the (by_peer b p))) \<and>
     ld_packets b \<le> max_packets_total \<and> ld_bytes b \<le> max_bytes_total"

lemma sum_map_upd:
  fixes f :: "'q \<Rightarrow> nat"
  assumes "finite (dom m)"
  shows "(\<Sum>p\<in>dom (m(k \<mapsto> v)). f (the ((m(k \<mapsto> v)) p))) + (case m k of None \<Rightarrow> 0 | Some w \<Rightarrow> f w) =
    (\<Sum>p\<in>dom m. f (the (m p))) + f v"
proof -
  have rest: "(\<Sum>p\<in>dom m - {k}. f (the ((m(k \<mapsto> v)) p))) = (\<Sum>p\<in>dom m - {k}. f (the (m p)))"
    by (rule sum.cong) auto
  have "(\<Sum>p\<in>dom (m(k \<mapsto> v)). f (the ((m(k \<mapsto> v)) p))) = f v + (\<Sum>p\<in>dom m - {k}. f (the (m p)))"
    using assms rest by (simp add: sum.insert_remove)
  moreover have "(\<Sum>p\<in>dom m. f (the (m p))) =
      (case m k of None \<Rightarrow> 0 | Some w \<Rightarrow> f w) + (\<Sum>p\<in>dom m - {k}. f (the (m p)))"
  proof (cases "m k")
    case None
    then have "dom m - {k} = dom m" by auto
    with None show ?thesis by simp
  next
    case (Some w)
    then have "k \<in> dom m" by auto
    with assms Some show ?thesis by (simp add: sum.remove [of "dom m" k])
  qed
  ultimately show ?thesis by simp
qed

lemma sum_map_remove:
  fixes f :: "'q \<Rightarrow> nat"
  assumes "finite (dom m)" and "m k = Some v"
  shows "(\<Sum>p\<in>dom (m(k := None)). f (the ((m(k := None)) p))) + f v = (\<Sum>p\<in>dom m. f (the (m p)))"
proof -
  have "(\<Sum>p\<in>dom m - {k}. f (the ((m(k := None)) p))) = (\<Sum>p\<in>dom m - {k}. f (the (m p)))"
    by (rule sum.cong) auto
  with assms show ?thesis by (simp add: sum.remove [of "dom m" k] domI)
qed

lemma ld_insert_ok:
  assumes ok: "ld_ok b" and q: "queue_ok q" and m: "m = (by_peer b)(peer \<mapsto> q)"
    and pk: "pk + (case by_peer b peer of None \<Rightarrow> 0 | Some w \<Rightarrow> length (ldq_packets w)) =
        ld_packets b + length (ldq_packets q)"
    and bs: "by' + (case by_peer b peer of None \<Rightarrow> 0 | Some w \<Rightarrow> ldq_bytes w) = ld_bytes b + ldq_bytes q"
    and "pk \<le> max_packets_total" and "by' \<le> max_bytes_total"
  shows "ld_ok \<lparr> by_peer = m, ld_packets = pk, ld_bytes = by' \<rparr>"
proof -
  have fin: "finite (dom (by_peer b))" using ok by (simp add: ld_ok_def)
  have "\<forall>q'\<in>ran m. queue_ok q'" using ok q by (auto simp: ld_ok_def m ran_def split: if_splits)
  moreover have "(\<Sum>p\<in>dom m. length (ldq_packets (the (m p)))) = pk"
    using sum_map_upd [OF fin, of "\<lambda>w. length (ldq_packets w)" peer q] pk ok by (simp add: m ld_ok_def)
  moreover have "(\<Sum>p\<in>dom m. ldq_bytes (the (m p))) = by'"
    using sum_map_upd [OF fin, of ldq_bytes peer q] bs ok by (simp add: m ld_ok_def)
  moreover have "finite (dom m)" using fin by (simp add: m)
  ultimately show ?thesis using assms(6,7) by (simp add: ld_ok_def)
qed

lemma ld_push_ok:
  assumes "ld_ok b" and "ld_push peer packet b = (accepted, b')"
  shows "ld_ok b' \<and> retained b' = (if accepted then (retained b)(peer := retained b peer @ [packet]) else retained b)"
proof -
  define q where "q = (case by_peer b peer of None \<Rightarrow> empty_queue | Some q \<Rightarrow> q)"
  have qok: "queue_ok q"
    using assms(1) by (auto simp: q_def ld_ok_def queue_ok_def empty_queue_def ran_def split: option.splits)
  have ret: "retained b peer = ldq_packets q"
    by (simp add: retained_def q_def empty_queue_def split: option.splits)
  have q0: "(case by_peer b peer of None \<Rightarrow> 0 | Some w \<Rightarrow> length (ldq_packets w)) = length (ldq_packets q)"
    "(case by_peer b peer of None \<Rightarrow> 0 | Some w \<Rightarrow> ldq_bytes w) = ldq_bytes q"
    by (auto simp: q_def empty_queue_def split: option.splits)
  have tot: "ld_packets b \<le> max_packets_total" "ld_bytes b \<le> max_bytes_total"
    using assms(1) by (simp_all add: ld_ok_def)
  let ?n = "length packet"
  define F where "F \<longleftrightarrow> ld_packets b \<ge> max_packets_total \<or> ld_bytes b + ?n > max_bytes_total"
  define R where "R \<longleftrightarrow> length (ldq_packets q) \<ge> max_packets_per_peer \<or> ldq_bytes q + ?n > max_bytes_per_peer"
  have "ld_push peer packet b =
      (if F then (False, b)
       else if R then (False, b\<lparr> by_peer := (by_peer b)(peer \<mapsto> q) \<rparr>)
       else (True, b\<lparr> by_peer := (by_peer b)(peer \<mapsto>
                    \<lparr> ldq_packets = ldq_packets q @ [packet], ldq_bytes = ldq_bytes q + length packet \<rparr>),
                 ld_packets := ld_packets b + 1, ld_bytes := ld_bytes b + length packet \<rparr>))"
    unfolding ld_push_def Let_def q_def [symmetric] F_def [symmetric] R_def [symmetric] by simp
  with assms(2) consider (full) "b' = b" "\<not> accepted"
    | (refused) "b' = b\<lparr> by_peer := (by_peer b)(peer \<mapsto> q) \<rparr>" "\<not> accepted"
    | (pushed) "accepted" "\<not> F" "\<not> R"
        "b' = b\<lparr> by_peer := (by_peer b)(peer \<mapsto>
                    \<lparr> ldq_packets = ldq_packets q @ [packet], ldq_bytes = ldq_bytes q + length packet \<rparr>),
                 ld_packets := ld_packets b + 1, ld_bytes := ld_bytes b + length packet \<rparr>"
    by (cases F; cases R) simp_all
  then show ?thesis
  proof cases
    case full
    with assms(1) show ?thesis by simp
  next
    case refused
    have "ld_ok \<lparr> by_peer = (by_peer b)(peer \<mapsto> q), ld_packets = ld_packets b, ld_bytes = ld_bytes b \<rparr>"
      by (rule ld_insert_ok [OF assms(1) qok refl]) (use q0 tot in simp_all)
    moreover have "retained b' = retained b"
      using refused ret by (auto simp: retained_def fun_eq_iff)
    ultimately show ?thesis using refused by (cases b) simp
  next
    case pushed
    let ?q = "\<lparr> ldq_packets = ldq_packets q @ [packet], ldq_bytes = ldq_bytes q + length packet \<rparr>"
    from pushed(2,3) have lim: "ld_packets b < max_packets_total" "ld_bytes b + length packet \<le> max_bytes_total"
        "length (ldq_packets q) < max_packets_per_peer" "ldq_bytes q + length packet \<le> max_bytes_per_peer"
      by (simp_all add: F_def R_def not_le not_less)
    then have "queue_ok ?q" using qok by (simp add: queue_ok_def)
    then have "ld_ok \<lparr> by_peer = (by_peer b)(peer \<mapsto> ?q), ld_packets = ld_packets b + 1,
        ld_bytes = ld_bytes b + length packet \<rparr>"
      by (rule ld_insert_ok [OF assms(1) _ refl]) (use q0 lim in simp_all)
    moreover have "retained b' = (retained b)(peer := retained b peer @ [packet])"
      unfolding ret pushed(4) by (simp add: retained_def fun_eq_iff)
    ultimately show ?thesis using pushed(1,4) by (cases b) simp
  qed
qed

lemma ld_take_ok:
  assumes "ld_ok b" and "ld_take peer b = (packets, b')"
  shows "ld_ok b' \<and> packets = retained b peer \<and> retained b' = (retained b)(peer := [])"
proof (cases "by_peer b peer")
  case None
  with assms show ?thesis by (auto simp: ld_take_def retained_def fun_eq_iff)
next
  case (Some q)
  let ?m = "(by_peer b)(peer := None)"
  have fin: "finite (dom (by_peer b))" using assms(1) by (simp add: ld_ok_def)
  have p: "(\<Sum>p\<in>dom ?m. length (ldq_packets (the (?m p)))) + length (ldq_packets q) = ld_packets b"
    using sum_map_remove [OF fin Some, of "\<lambda>q. length (ldq_packets q)"] assms(1) by (simp add: ld_ok_def)
  have y: "(\<Sum>p\<in>dom ?m. ldq_bytes (the (?m p))) + ldq_bytes q = ld_bytes b"
    using sum_map_remove [OF fin Some, of ldq_bytes] assms(1) by (simp add: ld_ok_def)
  have r: "\<forall>q\<in>ran ?m. queue_ok q" using assms(1) by (auto simp: ld_ok_def ran_def split: if_splits)
  have b': "b' = b\<lparr> by_peer := ?m, ld_packets := ld_packets b - length (ldq_packets q), ld_bytes := ld_bytes b - ldq_bytes q \<rparr>"
    and pk: "packets = ldq_packets q" using assms(2) Some by (auto simp: ld_take_def)
  have "ld_packets b - length (ldq_packets q) = (\<Sum>p\<in>dom ?m. length (ldq_packets (the (?m p))))"
    "ld_bytes b - ldq_bytes q = (\<Sum>p\<in>dom ?m. ldq_bytes (the (?m p)))" using p y by linarith+
  moreover have "ld_packets b - length (ldq_packets q) \<le> max_packets_total"
    "ld_bytes b - ldq_bytes q \<le> max_bytes_total" using assms(1) by (auto simp: ld_ok_def)
  ultimately have "ld_ok b'" unfolding b' using fin r by (simp add: ld_ok_def)
  moreover have "retained b' = (retained b)(peer := [])" by (auto simp: b' retained_def fun_eq_iff)
  ultimately show ?thesis using Some by (simp add: pk retained_def)
qed

subsection \<open>Properties\<close>

text \<open>The dial buffers are bounded queues: within their budgets they hold at most 64 packets and
  128 KiB per peer and 512 packets and 1 MiB in all with exact totals; an accepted packet is appended
  to its peer's queue and nothing else changes, a refused one changes no queue, and taking a peer's
  packets returns all of them in arrival order and frees their budget.\<close>

theorem lazy_dial_queues:
  assumes "ld_ok b"
  shows "(ld_push peer packet b = (accepted, b') \<longrightarrow> ld_ok b' \<and>
            retained b' = (if accepted then (retained b)(peer := retained b peer @ [packet]) else retained b)) \<and>
         (ld_take peer b = (packets, b') \<longrightarrow> ld_ok b' \<and> packets = retained b peer \<and>
            retained b' = (retained b)(peer := [])) \<and>
         length (retained b peer) \<le> 64 \<and> ld_packets b \<le> 512 \<and> ld_bytes b \<le> 1048576"
proof -
  have "length (retained b peer) \<le> 64"
    using assms
    by (auto simp: ld_ok_def retained_def queue_ok_def max_packets_per_peer_def ran_def split: option.splits)
  moreover have "ld_packets b \<le> 512 \<and> ld_bytes b \<le> 1048576"
    using assms by (simp add: ld_ok_def max_packets_total_def max_bytes_total_def)
  ultimately show ?thesis using ld_push_ok [OF assms] ld_take_ok [OF assms] by blast
qed

theorem lazy_dial_queues_witness:
  "retained (snd (ld_push 7 [1, 2] no_buffers)) 7 = [[1, 2]]"
proof -
  have "ld_ok no_buffers" by (simp add: ld_ok_def no_buffers_def)
  moreover obtain b' where p: "ld_push 7 [1, 2] no_buffers = (True, b')"
    by (simp add: ld_push_def no_buffers_def max_packets_total_def max_bytes_total_def empty_queue_def
        max_packets_per_peer_def max_bytes_per_peer_def)
  ultimately show ?thesis
    using lazy_dial_queues [of no_buffers 7 "[1, 2]" True b'] by (simp add: p retained_def no_buffers_def)
qed

end
