(* ===== verification/Fq_Codel.thy ===== *)
theory Fq_Codel
  imports Fragment "HOL-Library.While_Combinator"
begin

text \<open>
  The flow scheduler of \<open>src/src/forward/fq_codel.rs\<close>: 1024 flow buckets, each a FIFO with a byte
  deficit and a CoDel controller, served from a list of new and a list of old flows. A bucket number
  is \<open>hash % BUCKETS\<close>, so the vector of 1024 flows is a function of a 10-bit index. \<open>stats\<close> is the log
  of the reasons passed to \<open>record_drop\<close>. The square root of the control law is computed on integers,
  to the nearest nanosecond.
\<close>

declare add_2_eq_Suc [simp del] add_2_eq_Suc' [simp del]

section \<open>Definitions\<close>

type_synonym bucket = "10 word"

definition quantum :: int where "quantum = 1514"
definition codel_target :: duration where "codel_target = millis 5"
definition codel_interval :: duration where "codel_interval = millis 100"
definition fq_max_bytes :: nat where "fq_max_bytes = 1024 * 1024"
definition fq_max_packets :: nat where "fq_max_packets = 10240"

record fq_packet =
  fp_bucket :: bucket
  fp_encoded :: encoded
  fp_ip_len :: nat
  fp_bytes :: nat
  fp_arrived :: instant

record codel =
  first_above :: "instant option"
  drop_next :: "instant option"
  dropping :: bool
  codel_count :: u32
  last_count :: u32

definition default_codel :: codel where
  "default_codel = \<lparr> first_above = None, drop_next = None, dropping = False, codel_count = 0, last_count = 0 \<rparr>"

text \<open>\<open>should_drop\<close> returns its verdict and the updated controller. Clock differences saturate at zero,
  as natural subtraction does.\<close>

definition should_drop :: "fq_packet option \<Rightarrow> nat \<Rightarrow> nat \<Rightarrow> instant \<Rightarrow> codel \<Rightarrow> bool \<times> codel" where
  "should_drop packet remaining max_pkt now c =
     (case packet of
        None \<Rightarrow> (False, c \<lparr> first_above := None \<rparr>)
      | Some p \<Rightarrow>
          if now - fp_arrived p < codel_target \<or> remaining \<le> max_pkt then (False, c \<lparr> first_above := None \<rparr>)
          else (case first_above c of
                  Some due \<Rightarrow> (now \<ge> due, c)
                | None \<Rightarrow> (False, c \<lparr> first_above := Some (now + codel_interval) \<rparr>)))"

function isqrt :: "nat \<Rightarrow> nat" where
  "isqrt n = (if n = 0 then 0 else let r = 2 * isqrt (n div 4) in if (r + 1) * (r + 1) \<le> n then r + 1 else r)"
  by pat_completeness auto
termination by (relation "measure id") auto

declare isqrt.simps [simp del]

definition control_law :: "instant \<Rightarrow> u32 \<Rightarrow> instant" where
  "control_law time n = time + (isqrt (4 * codel_interval * codel_interval div unat (max n 1)) + 1) div 2"

definition saturating_diff :: "u32 \<Rightarrow> u32 \<Rightarrow> u32" where
  "saturating_diff a b = (if a < b then 0 else a - b)"

record fq_flow =
  ff_packets :: "fq_packet list"
  ff_bytes :: nat
  ff_deficit :: int
  ff_active :: bool
  ff_codel :: codel

definition default_flow :: fq_flow where
  "default_flow = \<lparr> ff_packets = [], ff_bytes = 0, ff_deficit = 0, ff_active = False, ff_codel = default_codel \<rparr>"

record fq_queue =
  fq_flows :: "bucket \<Rightarrow> fq_flow"
  fq_new :: "bucket list"
  fq_old :: "bucket list"
  fq_bytes :: nat
  fq_packets :: nat
  fq_max_packet :: nat
  fq_stats :: "drop_reason list"

definition new_queue :: "drop_reason list \<Rightarrow> fq_queue" where
  "new_queue stats = \<lparr> fq_flows = (\<lambda>_. default_flow), fq_new = [], fq_old = [], fq_bytes = 0, fq_packets = 0,
     fq_max_packet = nat quantum, fq_stats = stats \<rparr>"

definition fq_clear :: "fq_queue \<Rightarrow> fq_queue" where
  "fq_clear q = q \<lparr> fq_flows := (\<lambda>_. default_flow), fq_new := [], fq_old := [], fq_bytes := 0, fq_packets := 0,
     fq_max_packet := nat quantum \<rparr>"

definition set_flow :: "bucket \<Rightarrow> fq_flow \<Rightarrow> fq_queue \<Rightarrow> fq_queue" where
  "set_flow i f q = q \<lparr> fq_flows := (fq_flows q)(i := f) \<rparr>"

definition set_codel :: "bucket \<Rightarrow> codel \<Rightarrow> fq_queue \<Rightarrow> fq_queue" where
  "set_codel i c q = set_flow i ((fq_flows q i) \<lparr> ff_codel := c \<rparr>) q"

definition fq_record_drop :: "drop_reason \<Rightarrow> fq_queue \<Rightarrow> fq_queue" where
  "fq_record_drop r q = q \<lparr> fq_stats := fq_stats q @ [r] \<rparr>"

definition fq_pop :: "bucket \<Rightarrow> fq_queue \<Rightarrow> fq_packet option \<times> fq_queue" where
  "fq_pop i q =
     (case ff_packets (fq_flows q i) of
        [] \<Rightarrow> (None, q)
      | p # rest \<Rightarrow>
          (Some p,
           (set_flow i ((fq_flows q i) \<lparr> ff_packets := rest, ff_bytes := ff_bytes (fq_flows q i) - fp_bytes p \<rparr>) q)
             \<lparr> fq_bytes := fq_bytes q - fp_bytes p, fq_packets := fq_packets q - 1 \<rparr>))"

text \<open>\<open>max_by_key\<close> returns the last of the largest. The vector is never empty, so the early exit of
  the shedding loop is not taken.\<close>

definition fattest :: "fq_queue \<Rightarrow> bucket" where
  "fattest q = foldl (\<lambda>best i. if ff_bytes (fq_flows q best) \<le> ff_bytes (fq_flows q i) then i else best) 0
     (map of_nat [0..<1024])"

fun shed_from :: "bucket \<Rightarrow> nat \<Rightarrow> fq_queue \<Rightarrow> fq_queue" where
  "shed_from i 0 q = q"
| "shed_from i (Suc n) q =
     (case fq_pop i q of
        (None, q') \<Rightarrow> shed_from i n q'
      | (Some p, q') \<Rightarrow> shed_from i n (fq_record_drop QueueFull q'))"

definition over_budget :: "fq_queue \<Rightarrow> bool" where
  "over_budget q \<longleftrightarrow> fq_bytes q > fq_max_bytes \<or> fq_packets q > fq_max_packets"

definition shed_step :: "fq_queue \<Rightarrow> fq_queue" where
  "shed_step q =
     (let i = fattest q; n = max 1 (min 64 (length (ff_packets (fq_flows q i)) div 2)) in shed_from i n q)"

definition fq_shed :: "fq_queue \<Rightarrow> fq_queue option" where
  "fq_shed q = while_option over_budget shed_step q"

definition fq_push :: "fq_packet \<Rightarrow> fq_queue \<Rightarrow> fq_queue" where
  "fq_push p q =
     (let i = fp_bucket p; f = fq_flows q i;
          f' = f \<lparr> ff_packets := ff_packets f @ [p], ff_bytes := ff_bytes f + fp_bytes p \<rparr>;
          q' = q \<lparr> fq_max_packet := max (fq_max_packet q) (fp_bytes p), fq_bytes := fq_bytes q + fp_bytes p,
                  fq_packets := fq_packets q + 1 \<rparr>
      in if \<not> ff_active f
         then (set_flow i (f' \<lparr> ff_active := True, ff_deficit := quantum \<rparr>) q') \<lparr> fq_new := fq_new q @ [i] \<rparr>
         else set_flow i f' q')"

definition fq_enqueue :: "fq_packet \<Rightarrow> fq_queue \<Rightarrow> fq_queue option" where
  "fq_enqueue p q = fq_shed (fq_push p q)"

definition codel_check :: "bucket \<Rightarrow> fq_packet option \<Rightarrow> instant \<Rightarrow> fq_queue \<Rightarrow> bool \<times> fq_queue" where
  "codel_check i packet now q =
     (let (drop, c) = should_drop packet (fq_bytes q) (fq_max_packet q) now (ff_codel (fq_flows q i))
      in (drop, set_codel i c q))"

definition codel_of :: "bucket \<Rightarrow> fq_queue \<Rightarrow> codel" where
  "codel_of i q = ff_codel (fq_flows q i)"

text \<open>One round of the drop loop: count the drop of the packet in hand, take the next one and decide
  whether the controller keeps dropping.\<close>

definition codel_round :: "bucket \<Rightarrow> instant \<Rightarrow> fq_queue \<Rightarrow> fq_packet option \<times> fq_queue" where
  "codel_round i now q =
     (let q1 = fq_record_drop QueueDelay q;
          q2 = set_codel i ((codel_of i q1) \<lparr> codel_count := saturating_inc (codel_count (codel_of i q1)) \<rparr>) q1;
          (packet, q3) = fq_pop i q2;
          (drop, q4) = codel_check i packet now q3;
          c = codel_of i q4
      in (packet,
          if \<not> drop then set_codel i (c \<lparr> dropping := False \<rparr>) q4
          else (case drop_next c of
                  Some t \<Rightarrow> set_codel i (c \<lparr> drop_next := Some (control_law t (codel_count c)) \<rparr>) q4
                | None \<Rightarrow> q4)))"

definition drop_due :: "bucket \<Rightarrow> instant \<Rightarrow> fq_queue \<Rightarrow> bool" where
  "drop_due i now q \<longleftrightarrow>
     dropping (codel_of i q) \<and> (case drop_next (codel_of i q) of Some t \<Rightarrow> now \<ge> t | None \<Rightarrow> False)"

lemma set_codel_simps [simp]:
  "fq_new (set_codel i c q) = fq_new q" "fq_old (set_codel i c q) = fq_old q"
  "fq_bytes (set_codel i c q) = fq_bytes q" "fq_packets (set_codel i c q) = fq_packets q"
  "fq_max_packet (set_codel i c q) = fq_max_packet q" "fq_stats (set_codel i c q) = fq_stats q"
  "ff_packets (fq_flows (set_codel i c q) j) = ff_packets (fq_flows q j)"
  "ff_bytes (fq_flows (set_codel i c q) j) = ff_bytes (fq_flows q j)"
  "ff_deficit (fq_flows (set_codel i c q) j) = ff_deficit (fq_flows q j)"
  "ff_active (fq_flows (set_codel i c q) j) = ff_active (fq_flows q j)"
  "codel_of i (set_codel i c q) = c"
  by (simp_all add: set_codel_def set_flow_def codel_of_def)

lemma fq_record_drop_simps [simp]:
  "fq_flows (fq_record_drop r q) = fq_flows q" "fq_new (fq_record_drop r q) = fq_new q"
  "fq_old (fq_record_drop r q) = fq_old q" "fq_bytes (fq_record_drop r q) = fq_bytes q"
  "fq_packets (fq_record_drop r q) = fq_packets q" "fq_max_packet (fq_record_drop r q) = fq_max_packet q"
  "fq_stats (fq_record_drop r q) = fq_stats q @ [r]" "codel_of i (fq_record_drop r q) = codel_of i q"
  by (simp_all add: fq_record_drop_def codel_of_def)

lemma fq_pop_simps [simp]:
  "fst (fq_pop i q) = (case ff_packets (fq_flows q i) of [] \<Rightarrow> None | p # _ \<Rightarrow> Some p)"
  "fq_new (snd (fq_pop i q)) = fq_new q" "fq_old (snd (fq_pop i q)) = fq_old q"
  "fq_max_packet (snd (fq_pop i q)) = fq_max_packet q" "fq_stats (snd (fq_pop i q)) = fq_stats q"
  "ff_packets (fq_flows (snd (fq_pop i q)) j) = (if j = i then tl (ff_packets (fq_flows q i)) else ff_packets (fq_flows q j))"
  "ff_deficit (fq_flows (snd (fq_pop i q)) j) = ff_deficit (fq_flows q j)"
  "ff_active (fq_flows (snd (fq_pop i q)) j) = ff_active (fq_flows q j)"
  "codel_of j (snd (fq_pop i q)) = codel_of j q"
  by (auto simp: fq_pop_def set_flow_def codel_of_def split: list.split)

lemma should_drop_simps [simp]:
  "dropping (snd (should_drop p n m now c)) = dropping c"
  "drop_next (snd (should_drop p n m now c)) = drop_next c"
  "\<not> fst (should_drop None n m now c)"
  by (auto simp: should_drop_def split: option.split)

lemma codel_check_simps [simp]:
  "fst (codel_check i p now q) = fst (should_drop p (fq_bytes q) (fq_max_packet q) now (codel_of i q))"
  "snd (codel_check i p now q) =
     set_codel i (snd (should_drop p (fq_bytes q) (fq_max_packet q) now (codel_of i q))) q"
  by (simp_all add: codel_check_def codel_of_def split: prod.split)

lemma codel_round_expand:
  "codel_round i now q =
     (let q2 = set_codel i ((codel_of i q) \<lparr> codel_count := saturating_inc (codel_count (codel_of i q)) \<rparr>)
                 (fq_record_drop QueueDelay q);
          p = fst (fq_pop i q2); q3 = snd (fq_pop i q2); q4 = snd (codel_check i p now q3); c = codel_of i q4
      in (p, if \<not> fst (codel_check i p now q3) then set_codel i (c \<lparr> dropping := False \<rparr>) q4
             else (case drop_next c of
                  Some t \<Rightarrow> set_codel i (c \<lparr> drop_next := Some (control_law t (codel_count c)) \<rparr>) q4
                | None \<Rightarrow> q4)))"
  by (simp add: codel_round_def Let_def case_prod_beta del: codel_check_simps fq_pop_simps split: option.split)

lemma codel_round_simps [simp]:
  "fst (codel_round i now q) = (case ff_packets (fq_flows q i) of [] \<Rightarrow> None | p # _ \<Rightarrow> Some p)"
  "ff_packets (fq_flows (snd (codel_round i now q)) j) =
     (if j = i then tl (ff_packets (fq_flows q i)) else ff_packets (fq_flows q j))"
  "ff_deficit (fq_flows (snd (codel_round i now q)) j) = ff_deficit (fq_flows q j)"
  "ff_active (fq_flows (snd (codel_round i now q)) j) = ff_active (fq_flows q j)"
  "fq_new (snd (codel_round i now q)) = fq_new q" "fq_old (snd (codel_round i now q)) = fq_old q"
  "fq_max_packet (snd (codel_round i now q)) = fq_max_packet q"
  "fq_stats (snd (codel_round i now q)) = fq_stats q @ [QueueDelay]"
  by (simp_all add: codel_round_expand Let_def split: option.split)

lemma codel_round_empty:
  "ff_packets (fq_flows q i) = [] \<Longrightarrow> \<not> dropping (codel_of i (snd (codel_round i now q)))"
  by (simp add: codel_round_expand Let_def)

function codel_loop :: "bucket \<Rightarrow> instant \<Rightarrow> fq_packet option \<Rightarrow> fq_queue \<Rightarrow> fq_packet option \<times> fq_queue" where
  "codel_loop i now packet q =
     (if drop_due i now q then codel_loop i now (fst (codel_round i now q)) (snd (codel_round i now q))
      else (packet, q))"
  by pat_completeness auto
termination
proof (relation "measure (\<lambda>(i, now, packet, q). length (ff_packets (fq_flows q i)) + of_bool (dropping (codel_of i q)))")
  fix i now packet q
  assume "drop_due i now q"
  then have "dropping (codel_of i q)" by (simp add: drop_due_def)
  then show "((i, now, fst (codel_round i now q), snd (codel_round i now q)), i, now, packet, q)
      \<in> measure (\<lambda>(i, now, packet, q). length (ff_packets (fq_flows q i)) + of_bool (dropping (codel_of i q)))"
    using codel_round_empty [of q i now] by (cases "ff_packets (fq_flows q i)") auto
qed simp

declare codel_loop.simps [simp del]

text \<open>The state in which a flow starts dropping: it resumes near its last drop rate when it left the
  dropping state less than 16 intervals ago.\<close>

definition enter_dropping :: "instant \<Rightarrow> codel \<Rightarrow> codel" where
  "enter_dropping now c =
     (let delta = saturating_diff (codel_count c) (last_count c);
          n = (if delta > 1 \<and> (case drop_next c of Some t \<Rightarrow> now - t < codel_interval * 16 | None \<Rightarrow> False)
               then delta else 1)
      in c \<lparr> dropping := True, codel_count := n, last_count := n, drop_next := Some (control_law now n) \<rparr>)"

definition codel_pop :: "bucket \<Rightarrow> instant \<Rightarrow> fq_queue \<Rightarrow> fq_packet option \<times> fq_queue" where
  "codel_pop i now q =
     (let (packet, q1) = fq_pop i q; (drop, q2) = codel_check i packet now q1 in
      if dropping (codel_of i q2) then
        codel_loop i now packet (if \<not> drop then set_codel i ((codel_of i q2) \<lparr> dropping := False \<rparr>) q2 else q2)
      else if drop then
        let q3 = fq_record_drop QueueDelay q2; (packet', q4) = fq_pop i q3; (_, q5) = codel_check i packet' now q4
        in (packet', set_codel i (enter_dropping now (codel_of i q5)) q5)
      else (packet, q2))"

definition add_deficit :: "bucket \<Rightarrow> int \<Rightarrow> fq_queue \<Rightarrow> fq_queue" where
  "add_deficit i d q = set_flow i ((fq_flows q i) \<lparr> ff_deficit := ff_deficit (fq_flows q i) + d \<rparr>) q"

text \<open>Moving the flow at the head of its list to the back of the old list, and retiring the head of
  the old list.\<close>

definition to_old :: "fq_queue \<Rightarrow> fq_queue" where
  "to_old q =
     (if fq_new q \<noteq> [] then q \<lparr> fq_new := tl (fq_new q), fq_old := fq_old q @ [hd (fq_new q)] \<rparr>
      else q \<lparr> fq_old := tl (fq_old q) @ [hd (fq_old q)] \<rparr>)"

definition retire :: "bucket \<Rightarrow> fq_queue \<Rightarrow> fq_queue" where
  "retire i q = (set_flow i ((fq_flows q i) \<lparr> ff_active := False \<rparr>) q) \<lparr> fq_old := tl (fq_old q) \<rparr>"

definition head_flow :: "fq_queue \<Rightarrow> bucket option" where
  "head_flow q = (case fq_new q of i # _ \<Rightarrow> Some i | [] \<Rightarrow> (case fq_old q of i # _ \<Rightarrow> Some i | [] \<Rightarrow> None))"

lemma codel_loop_frame:
  "ff_deficit (fq_flows (snd (codel_loop i now p q)) j) = ff_deficit (fq_flows q j) \<and>
   ff_active (fq_flows (snd (codel_loop i now p q)) j) = ff_active (fq_flows q j) \<and>
   fq_new (snd (codel_loop i now p q)) = fq_new q \<and> fq_old (snd (codel_loop i now p q)) = fq_old q"
proof (induction i now p q rule: codel_loop.induct)
  case (1 i now packet q)
  then show ?case by (cases "drop_due i now q") (simp_all add: codel_loop.simps [of i now packet q])
qed

lemma codel_pop_frame [simp]:
  "ff_deficit (fq_flows (snd (codel_pop i now q)) j) = ff_deficit (fq_flows q j)"
  "ff_active (fq_flows (snd (codel_pop i now q)) j) = ff_active (fq_flows q j)"
  "fq_new (snd (codel_pop i now q)) = fq_new q" "fq_old (snd (codel_pop i now q)) = fq_old q"
  by (simp_all add: codel_pop_def Let_def case_prod_beta codel_loop_frame)

lemma add_deficit_simps [simp]:
  "fq_new (add_deficit i d q) = fq_new q" "fq_old (add_deficit i d q) = fq_old q"
  "ff_deficit (fq_flows (add_deficit i d q) j) = ff_deficit (fq_flows q j) + (if j = i then d else 0)"
  "ff_packets (fq_flows (add_deficit i d q) j) = ff_packets (fq_flows q j)"
  "ff_bytes (fq_flows (add_deficit i d q) j) = ff_bytes (fq_flows q j)"
  "ff_active (fq_flows (add_deficit i d q) j) = ff_active (fq_flows q j)"
  "fq_bytes (add_deficit i d q) = fq_bytes q" "fq_packets (add_deficit i d q) = fq_packets q"
  "fq_max_packet (add_deficit i d q) = fq_max_packet q" "fq_stats (add_deficit i d q) = fq_stats q"
  by (simp_all add: add_deficit_def set_flow_def)

lemma to_old_simps [simp]:
  "fq_flows (to_old q) = fq_flows q" "fq_bytes (to_old q) = fq_bytes q" "fq_packets (to_old q) = fq_packets q"
  "fq_max_packet (to_old q) = fq_max_packet q" "fq_stats (to_old q) = fq_stats q"
  by (simp_all add: to_old_def)

lemma retire_simps [simp]:
  "fq_new (retire i q) = fq_new q" "fq_old (retire i q) = tl (fq_old q)"
  "ff_deficit (fq_flows (retire i q) j) = ff_deficit (fq_flows q j)"
  "ff_packets (fq_flows (retire i q) j) = ff_packets (fq_flows q j)"
  "ff_bytes (fq_flows (retire i q) j) = ff_bytes (fq_flows q j)"
  "ff_active (fq_flows (retire i q) j) = (ff_active (fq_flows q j) \<and> j \<noteq> i)"
  "fq_bytes (retire i q) = fq_bytes q" "fq_packets (retire i q) = fq_packets q"
  "fq_max_packet (retire i q) = fq_max_packet q" "fq_stats (retire i q) = fq_stats q"
  by (simp_all add: retire_def set_flow_def)

definition debt :: "fq_queue \<Rightarrow> nat" where
  "debt q = (\<Sum>i\<in>UNIV. nat (1 - ff_deficit (fq_flows q i)))"

lemma debt_add_deficit:
  assumes "ff_deficit (fq_flows q i) \<le> 0" "d > 0"
  shows "debt (to_old (add_deficit i d q)) < debt q"
  unfolding debt_def
proof (rule sum_strict_mono_ex1)
  show "\<exists>a\<in>UNIV. nat (1 - ff_deficit (fq_flows (to_old (add_deficit i d q)) a)) < nat (1 - ff_deficit (fq_flows q a))"
    by (rule bexI [of _ i]) (use assms in auto)
qed (use assms in auto)

lemma debt_frame: "(\<And>j. ff_deficit (fq_flows q' j) = ff_deficit (fq_flows q j)) \<Longrightarrow> debt q' = debt q"
  by (simp add: debt_def)

text \<open>The scheduler loop. Every turn pays off part of a flow's debt or moves an empty flow towards
  retirement, so it ends whatever the state.\<close>

function fq_dequeue :: "instant \<Rightarrow> fq_queue \<Rightarrow> fq_packet option \<times> fq_queue" where
  "fq_dequeue now q =
     (case head_flow q of
        None \<Rightarrow> (None, q)
      | Some i \<Rightarrow>
          if ff_deficit (fq_flows q i) \<le> 0 then fq_dequeue now (to_old (add_deficit i quantum q))
          else case codel_pop i now q of
              (Some p, q') \<Rightarrow> (Some p, add_deficit i (- int (fp_bytes p)) q')
            | (None, q') \<Rightarrow>
                if fq_new q \<noteq> [] then fq_dequeue now (to_old q') else fq_dequeue now (retire i q'))"
  by pat_completeness auto
termination
proof (relation "measures [\<lambda>(now, q). debt q, \<lambda>(now, q). 2 * length (fq_new q) + length (fq_old q)]", goal_cases)
  case (2 now q i)
  then show ?case using debt_add_deficit [of q i quantum] by (simp add: quantum_def)
next
  case (3 now q i x q')
  then have q': "q' = snd (codel_pop i now q)" by (metis snd_conv)
  have "debt (to_old q') = debt q" by (rule debt_frame) (simp add: q')
  with 3 show ?case by (cases "fq_new q") (simp_all add: to_old_def q')
next
  case (4 now q i x q')
  then have q': "q' = snd (codel_pop i now q)" by (metis snd_conv)
  have "debt (retire i q') = debt q" by (rule debt_frame) (simp add: q')
  with 4 show ?case by (cases "fq_old q") (simp_all add: q' head_flow_def)
qed simp

declare fq_dequeue.simps [simp del]

section \<open>Invariant\<close>

definition total_bytes :: "fq_packet list \<Rightarrow> nat" where
  "total_bytes ps = sum_list (map fp_bytes ps)"

definition fq_flow_ok :: "nat \<Rightarrow> bucket \<Rightarrow> fq_flow \<Rightarrow> bool" where
  "fq_flow_ok m i f \<longleftrightarrow>
     ff_bytes f = total_bytes (ff_packets f) \<and>
     (\<forall>p\<in>set (ff_packets f). fp_bucket p = i \<and> 0 < fp_bytes p \<and> fp_bytes p \<le> m) \<and>
     - int m < ff_deficit f \<and> ff_deficit f \<le> quantum \<and> (ff_packets f \<noteq> [] \<longrightarrow> ff_active f)"

definition fq_ok :: "fq_queue \<Rightarrow> bool" where
  "fq_ok q \<longleftrightarrow>
     (\<forall>i. fq_flow_ok (fq_max_packet q) i (fq_flows q i)) \<and>
     fq_bytes q = (\<Sum>i\<in>UNIV. ff_bytes (fq_flows q i)) \<and>
     fq_packets q = (\<Sum>i\<in>UNIV. length (ff_packets (fq_flows q i))) \<and>
     distinct (fq_new q @ fq_old q) \<and> set (fq_new q @ fq_old q) = {i. ff_active (fq_flows q i)} \<and>
     quantum \<le> int (fq_max_packet q)"

text \<open>\<open>popped D i q q'\<close>: the only difference between the two queues is that the packets \<open>D\<close> left the front
  of flow \<open>i\<close>, up to the controller of that flow and the drop log.\<close>

definition popped :: "fq_packet list \<Rightarrow> bucket \<Rightarrow> fq_queue \<Rightarrow> fq_queue \<Rightarrow> bool" where
  "popped D i q q' \<longleftrightarrow>
     (\<forall>j. ff_packets (fq_flows q j) = (if j = i then D else []) @ ff_packets (fq_flows q' j)) \<and>
     (\<forall>j. ff_bytes (fq_flows q' j) = ff_bytes (fq_flows q j) - (if j = i then total_bytes D else 0)) \<and>
     (\<forall>j. ff_deficit (fq_flows q' j) = ff_deficit (fq_flows q j) \<and> ff_active (fq_flows q' j) = ff_active (fq_flows q j)) \<and>
     fq_new q' = fq_new q \<and> fq_old q' = fq_old q \<and> fq_max_packet q' = fq_max_packet q \<and>
     fq_bytes q' = fq_bytes q - total_bytes D \<and> fq_packets q' = fq_packets q - length D"

lemma total_bytes_simps [simp]:
  "total_bytes [] = 0" "total_bytes (p # ps) = fp_bytes p + total_bytes ps"
  "total_bytes (ps @ qs) = total_bytes ps + total_bytes qs"
  by (simp_all add: total_bytes_def)

lemma popped_refl [simp]: "popped [] i q q"
  by (simp add: popped_def)

lemma popped_set_codel [simp]: "popped D i q (set_codel j c q') \<longleftrightarrow> popped D i q q'"
  by (simp add: popped_def)

lemma popped_record_drop [simp]: "popped D i q (fq_record_drop r q') \<longleftrightarrow> popped D i q q'"
  by (simp add: popped_def)

lemma popped_trans: "popped D i q q' \<Longrightarrow> popped E i q' q'' \<Longrightarrow> popped (D @ E) i q q''"
  by (simp add: popped_def)

lemma popped_pop: "popped (take 1 (ff_packets (fq_flows q i))) i q (snd (fq_pop i q))"
  by (auto simp: popped_def fq_pop_def set_flow_def split: list.split)

lemma sum_bucket_split: "(\<Sum>j\<in>UNIV. if j = i then (x :: nat) else 0) = x" for i :: bucket
  by simp

lemma popped_ok:
  assumes "fq_ok q" and "popped D i q q'"
  shows "fq_ok q'"
proof -
  have pk: "ff_packets (fq_flows q j) = (if j = i then D else []) @ ff_packets (fq_flows q' j)" for j
    using assms(2) by (simp add: popped_def)
  have flow: "fq_flow_ok (fq_max_packet q) j (fq_flows q j)" for j using assms(1) by (simp add: fq_ok_def)
  have bt: "ff_bytes (fq_flows q j) = ff_bytes (fq_flows q' j) + (if j = i then total_bytes D else 0)" for j
    using flow [of j] pk [of j] assms(2) by (auto simp: fq_flow_ok_def popped_def)
  have "fq_flow_ok (fq_max_packet q') j (fq_flows q' j)" for j
    using flow [of j] pk [of j] bt [of j] assms(2) by (auto simp: fq_flow_ok_def popped_def split: if_splits)
  moreover have "fq_bytes q' = (\<Sum>j\<in>UNIV. ff_bytes (fq_flows q' j))"
  proof -
    have "fq_bytes q = (\<Sum>j\<in>UNIV. ff_bytes (fq_flows q' j)) + total_bytes D"
      using assms(1) unfolding fq_ok_def bt sum.distrib sum_bucket_split by blast
    then show ?thesis using assms(2) by (simp add: popped_def)
  qed
  moreover have "fq_packets q' = (\<Sum>j\<in>UNIV. length (ff_packets (fq_flows q' j)))"
  proof -
    have "length (ff_packets (fq_flows q j)) = length (ff_packets (fq_flows q' j)) + (if j = i then length D else 0)" for j
      using pk [of j] by simp
    then have "fq_packets q = (\<Sum>j\<in>UNIV. length (ff_packets (fq_flows q' j))) + length D"
      using assms(1) unfolding fq_ok_def by (simp add: sum.distrib)
    then show ?thesis using assms(2) by (simp add: popped_def)
  qed
  ultimately show ?thesis using assms by (simp add: fq_ok_def popped_def)
qed

section \<open>Shedding\<close>

lemma shed_from_spec:
  "\<exists>D. popped D i q (shed_from i n q) \<and> length D = min n (length (ff_packets (fq_flows q i))) \<and>
     fq_stats (shed_from i n q) = fq_stats q @ replicate (length D) QueueFull"
proof (induction i n q rule: shed_from.induct)
  case (1 i q)
  show ?case by (rule exI [of _ "[]"]) simp
next
  case (2 i n q)
  show ?case
  proof (cases "ff_packets (fq_flows q i)")
    case Nil
    then have pop: "fq_pop i q = (None, q)" by (simp add: fq_pop_def)
    from "2.IH"(1) [OF pop [symmetric]] Nil pop show ?thesis by simp
  next
    case (Cons p rest)
    then obtain q1 where pop: "fq_pop i q = (Some p, q1)" by (simp add: fq_pop_def)
    then have q1: "q1 = snd (fq_pop i q)" by simp
    obtain D where D: "popped D i (fq_record_drop QueueFull q1) (shed_from i n (fq_record_drop QueueFull q1))"
      "length D = min n (length rest)"
      "fq_stats (shed_from i n (fq_record_drop QueueFull q1)) = fq_stats q @ replicate (Suc (length D)) QueueFull"
      using "2.IH"(2) [OF pop [symmetric] refl] Cons by (auto simp: q1)
    have "popped [p] i q (fq_record_drop QueueFull q1)" using popped_pop [of q i] Cons by (simp add: q1)
    from popped_trans [OF this D(1)] D(2,3) Cons pop show ?thesis
      by (intro exI [of _ "p # D"]) simp
  qed
qed

lemma fattest_max: "ff_bytes (fq_flows q j) \<le> ff_bytes (fq_flows q (fattest q))"
proof -
  define g where "g = (\<lambda>i. ff_bytes (fq_flows q i))"
  have fold: "g a \<le> g (foldl (\<lambda>best i. if g best \<le> g i then i else best) a xs) \<and>
      (\<forall>x\<in>set xs. g x \<le> g (foldl (\<lambda>best i. if g best \<le> g i then i else best) a xs))" for a :: bucket and xs
  proof (induction xs arbitrary: a)
    case (Cons x xs)
    from Cons.IH [of x] Cons.IH [of a] show ?case by (auto split: if_splits)
  qed simp
  have "unat j < 1024" using unsigned_less [of j] by simp
  then have "j \<in> set (map of_nat [0..<1024])" by (auto intro!: image_eqI [of _ _ "unat j"])
  with fold show ?thesis unfolding fattest_def g_def by blast
qed

text \<open>An over-full queue has a fattest flow with packets in it, since every packet has bytes; so the
  shedding loop makes progress.\<close>

lemma fattest_nonempty:
  assumes "fq_ok q" and "over_budget q"
  shows "ff_packets (fq_flows q (fattest q)) \<noteq> []"
proof
  assume "ff_packets (fq_flows q (fattest q)) = []"
  then have "ff_bytes (fq_flows q (fattest q)) = 0" using assms(1) by (simp add: fq_ok_def fq_flow_ok_def)
  then have z: "ff_bytes (fq_flows q j) = 0" for j using fattest_max [of q j] by simp
  have none: "ff_packets (fq_flows q j) = []" for j
  proof (cases "ff_packets (fq_flows q j)")
    case (Cons p ps)
    then have "0 < fp_bytes p" "ff_bytes (fq_flows q j) = fp_bytes p + total_bytes ps"
      using assms(1) by (auto simp: fq_ok_def fq_flow_ok_def dest!: spec [of _ j])
    with z [of j] show ?thesis by simp
  qed
  from z none assms show False by (simp add: fq_ok_def over_budget_def)
qed

text \<open>\<open>transfer r D out q q'\<close>: going from \<open>q\<close> to \<open>q'\<close> every flow \<open>j\<close> gave up from its front the packets
  \<open>D j\<close>, each logged once under reason \<open>r\<close>, and then the packet handed out, if it is one of its own.\<close>

definition handed :: "fq_packet option \<Rightarrow> bucket \<Rightarrow> fq_packet list" where
  "handed out j = (case out of Some p \<Rightarrow> if fp_bucket p = j then [p] else [] | None \<Rightarrow> [])"

definition transfer ::
    "drop_reason \<Rightarrow> (bucket \<Rightarrow> fq_packet list) \<Rightarrow> fq_packet option \<Rightarrow> fq_queue \<Rightarrow> fq_queue \<Rightarrow> bool" where
  "transfer r D out q q' \<longleftrightarrow>
     (\<forall>j. ff_packets (fq_flows q j) = D j @ handed out j @ ff_packets (fq_flows q' j)) \<and>
     fq_stats q' = fq_stats q @ replicate (\<Sum>j\<in>UNIV. length (D j)) r"

lemma handed_None [simp]: "handed None j = []"
  by (simp add: handed_def)

lemma transfer_refl: "transfer r (\<lambda>_. []) None q q"
  by (simp add: transfer_def)

lemma transfer_trans:
  "transfer r D None q q' \<Longrightarrow> transfer r E out q' q'' \<Longrightarrow> transfer r (\<lambda>j. D j @ E j) out q q''"
  by (simp add: transfer_def sum.distrib replicate_add)

lemma transfer_popped:
  assumes "popped D i q q'" and "fq_stats q' = fq_stats q @ replicate (length D) r"
  shows "transfer r (\<lambda>j. if j = i then D else []) None q q'"
proof -
  have "(\<Sum>j\<in>UNIV. length (if j = i then D else [])) = length D"
    using sum_bucket_split [of i "length D"] by (simp add: if_distrib [of length] cong: if_cong)
  with assms show ?thesis by (simp add: transfer_def popped_def)
qed

lemma shed_step_spec:
  assumes "fq_ok q" and "over_budget q"
  shows "fq_ok (shed_step q)" and "fq_packets (shed_step q) < fq_packets q"
    and "\<exists>D. transfer QueueFull D None q (shed_step q)"
proof -
  define i where "i = fattest q"
  define n where "n = max 1 (min 64 (length (ff_packets (fq_flows q i)) div 2))"
  have step: "shed_step q = shed_from i n q" by (simp add: shed_step_def Let_def i_def n_def)
  obtain D where D: "popped D i q (shed_step q)" "length D = min n (length (ff_packets (fq_flows q i)))"
    "fq_stats (shed_step q) = fq_stats q @ replicate (length D) QueueFull"
    using shed_from_spec [of i q n] unfolding step by blast
  show "fq_ok (shed_step q)" by (rule popped_ok [OF assms(1) D(1)])
  show "\<exists>D. transfer QueueFull D None q (shed_step q)" using transfer_popped [OF D(1,3)] by blast
  have "length D > 0" using fattest_nonempty [OF assms] by (simp add: D(2) i_def n_def)
  moreover have "length (ff_packets (fq_flows q i)) \<le> fq_packets q"
    using assms(1) member_le_sum [of i UNIV "\<lambda>j. length (ff_packets (fq_flows q j))"] by (simp add: fq_ok_def)
  moreover have "fq_packets (shed_step q) = fq_packets q - length D" using D(1) by (simp add: popped_def)
  ultimately show "fq_packets (shed_step q) < fq_packets q" using D(2) by linarith
qed

lemma fq_shed_spec:
  assumes "fq_ok q"
  obtains q' D where "fq_shed q = Some q'" "fq_ok q'" "\<not> over_budget q'" "transfer QueueFull D None q q'"
proof -
  define P where "P = (\<lambda>s. fq_ok s \<and> (\<exists>D. transfer QueueFull D None q s))"
  have P0: "P q" using assms transfer_refl by (auto simp: P_def)
  have step: "P (shed_step s) \<and> fq_packets (shed_step s) < fq_packets s" if "P s" "over_budget s" for s
    using that shed_step_spec [of s] transfer_trans unfolding P_def by blast
  have "\<exists>t. while_option over_budget shed_step q = Some t"
    by (rule measure_while_option_Some [of P _ _ fq_packets]) (use step P0 in auto)
  then obtain t where t: "while_option over_budget shed_step q = Some t" by blast
  have "P t" by (rule while_option_rule [OF _ t]) (use step P0 in auto)
  moreover have "\<not> over_budget t" using while_option_stop [OF t] .
  ultimately show ?thesis using that t by (auto simp: P_def fq_shed_def)
qed

section \<open>Enqueueing\<close>

lemma fq_push_flows:
  "ff_packets (fq_flows (fq_push p q) j) = ff_packets (fq_flows q j) @ (if j = fp_bucket p then [p] else [])"
  "ff_bytes (fq_flows (fq_push p q) j) = ff_bytes (fq_flows q j) + (if j = fp_bucket p then fp_bytes p else 0)"
  "ff_active (fq_flows (fq_push p q) j) \<longleftrightarrow> ff_active (fq_flows q j) \<or> j = fp_bucket p"
  "ff_deficit (fq_flows (fq_push p q) j) =
     (if j = fp_bucket p \<and> \<not> ff_active (fq_flows q j) then quantum else ff_deficit (fq_flows q j))"
  "fq_bytes (fq_push p q) = fq_bytes q + fp_bytes p" "fq_packets (fq_push p q) = fq_packets q + 1"
  "fq_max_packet (fq_push p q) = max (fq_max_packet q) (fp_bytes p)" "fq_stats (fq_push p q) = fq_stats q"
  "fq_old (fq_push p q) = fq_old q"
  "fq_new (fq_push p q) = fq_new q @ (if ff_active (fq_flows q (fp_bucket p)) then [] else [fp_bucket p])"
  by (auto simp: fq_push_def Let_def set_flow_def)

lemma fq_push_ok:
  assumes "fq_ok q" and "0 < fp_bytes p"
  shows "fq_ok (fq_push p q)"
proof -
  have flow: "fq_flow_ok (fq_max_packet q) j (fq_flows q j)" for j using assms(1) by (simp add: fq_ok_def)
  have "fq_flow_ok (fq_max_packet (fq_push p q)) j (fq_flows (fq_push p q) j)" for j
    using flow [of j] assms(2) by (auto simp: fq_flow_ok_def fq_push_flows quantum_def)
  moreover have "fq_bytes (fq_push p q) = (\<Sum>j\<in>UNIV. ff_bytes (fq_flows (fq_push p q) j))"
    using assms(1) by (simp add: fq_push_flows sum.distrib fq_ok_def)
  moreover have "fq_packets (fq_push p q) = (\<Sum>j\<in>UNIV. length (ff_packets (fq_flows (fq_push p q) j)))"
    using assms(1) by (simp add: fq_push_flows sum.distrib fq_ok_def if_distrib [of length] cong: if_cong)
  moreover have "distinct (fq_new (fq_push p q) @ fq_old (fq_push p q))"
    "set (fq_new (fq_push p q) @ fq_old (fq_push p q)) = {i. ff_active (fq_flows (fq_push p q) i)}"
    using assms(1) by (auto simp: fq_push_flows fq_ok_def)
  moreover have "quantum \<le> int (fq_max_packet (fq_push p q))"
  proof -
    have "quantum \<le> int (fq_max_packet q)" using assms(1) by (simp add: fq_ok_def)
    then show ?thesis by (simp add: fq_push_flows of_nat_max le_max_iff_disj)
  qed
  ultimately show ?thesis unfolding fq_ok_def by (intro conjI allI)
qed

lemma fq_enqueue_spec:
  assumes "fq_ok q" and "0 < fp_bytes p"
  obtains q' D where "fq_enqueue p q = Some q'" "fq_ok q'" "\<not> over_budget q'"
    "transfer QueueFull D None (fq_push p q) q'"
  by (rule fq_shed_spec [OF fq_push_ok [OF assms]]) (auto simp: fq_enqueue_def intro: that)

section \<open>Dequeueing\<close>

text \<open>A packet is late when it waited at least the target delay.\<close>

definition late :: "instant \<Rightarrow> fq_packet \<Rightarrow> bool" where
  "late now p \<longleftrightarrow> codel_target \<le> now - fp_arrived p"

lemma should_drop_late: "fst (should_drop packet n m now c) \<Longrightarrow> \<exists>p. packet = Some p \<and> late now p \<and> m < n"
  by (auto simp: should_drop_def late_def split: option.splits if_splits)

definition the_list :: "'a option \<Rightarrow> 'a list" where
  "the_list x = (case x of Some a \<Rightarrow> [a] | None \<Rightarrow> [])"

lemma the_list_simps [simp]: "the_list None = []" "the_list (Some a) = [a]"
  by (simp_all add: the_list_def)

lemma fq_pop_list: "the_list (fst (fq_pop i q)) = take 1 (ff_packets (fq_flows q i))"
  by (simp split: list.split)

lemma codel_round_popped: "popped (the_list (fst (codel_round i now q))) i q (snd (codel_round i now q))"
proof -
  define q2 where "q2 = set_codel i ((codel_of i q) \<lparr> codel_count := saturating_inc (codel_count (codel_of i q)) \<rparr>)
      (fq_record_drop QueueDelay q)"
  have "popped [] i q q2" by (simp add: q2_def)
  with popped_pop [of q2 i] have "popped (the_list (fst (fq_pop i q2))) i q (snd (fq_pop i q2))"
    using popped_trans [of "[]" i q q2] fq_pop_list [of i q2] by (simp del: fq_pop_simps)
  then show ?thesis
    by (simp add: codel_round_expand Let_def q2_def del: fq_pop_simps split: option.split)
qed

lemma codel_round_dropping:
  "dropping (codel_of i (snd (codel_round i now q))) \<longrightarrow> (\<exists>p. fst (codel_round i now q) = Some p \<and> late now p)"
proof
  assume assms: "dropping (codel_of i (snd (codel_round i now q)))"
  define q2 where "q2 = set_codel i ((codel_of i q) \<lparr> codel_count := saturating_inc (codel_count (codel_of i q)) \<rparr>)
      (fq_record_drop QueueDelay q)"
  define q3 where "q3 = snd (fq_pop i q2)"
  have "fst (codel_check i (fst (fq_pop i q2)) now q3)"
    using assms by (auto simp: codel_round_expand Let_def q2_def q3_def split: if_splits)
  then have "fst (should_drop (fst (fq_pop i q2)) (fq_bytes q3) (fq_max_packet q3) now (codel_of i q3))" by simp
  from should_drop_late [OF this] show "\<exists>p. fst (codel_round i now q) = Some p \<and> late now p" by (auto simp: q2_def)
qed

lemma codel_loop_spec:
  assumes "dropping (codel_of i q) \<longrightarrow> (\<exists>p. packet = Some p \<and> late now p)"
    and "packet = None \<longrightarrow> ff_packets (fq_flows q i) = []"
  shows "\<exists>D lost. popped D i q (snd (codel_loop i now packet q)) \<and>
    the_list packet @ D = lost @ the_list (fst (codel_loop i now packet q)) \<and> (\<forall>p\<in>set lost. late now p) \<and>
    fq_stats (snd (codel_loop i now packet q)) = fq_stats q @ replicate (length lost) QueueDelay \<and>
    (fst (codel_loop i now packet q) = None \<longrightarrow> ff_packets (fq_flows (snd (codel_loop i now packet q)) i) = [])"
  using assms
proof (induction i now packet q rule: codel_loop.induct)
  case (1 i now packet q)
  show ?case
  proof (cases "drop_due i now q")
    case True
    then obtain p where p: "packet = Some p" "late now p" using "1.prems"(1) by (auto simp: drop_due_def)
    let ?p' = "fst (codel_round i now q)" and ?q' = "snd (codel_round i now q)"
    have "?p' = None \<longrightarrow> ff_packets (fq_flows ?q' i) = []" by (simp split: list.splits)
    from "1.IH" [OF True codel_round_dropping this] obtain D lost where D:
      "popped D i ?q' (snd (codel_loop i now ?p' ?q'))"
      "the_list ?p' @ D = lost @ the_list (fst (codel_loop i now ?p' ?q'))" "\<forall>p\<in>set lost. late now p"
      "fq_stats (snd (codel_loop i now ?p' ?q')) = fq_stats ?q' @ replicate (length lost) QueueDelay"
      "fst (codel_loop i now ?p' ?q') = None \<longrightarrow> ff_packets (fq_flows (snd (codel_loop i now ?p' ?q')) i) = []"
      by (elim exE conjE) (rule that; assumption)
    have step: "codel_loop i now packet q = codel_loop i now ?p' ?q'"
      using True by (subst codel_loop.simps) simp
    have "popped (the_list ?p' @ D) i q (snd (codel_loop i now ?p' ?q'))"
      by (rule popped_trans [OF codel_round_popped D(1)])
    moreover have "the_list packet @ the_list ?p' @ D = (p # lost) @ the_list (fst (codel_loop i now ?p' ?q'))"
      using D(2) p(1) by simp
    moreover have "fq_stats (snd (codel_loop i now ?p' ?q')) = fq_stats q @ replicate (length (p # lost)) QueueDelay"
      using D(4) by simp
    moreover have "\<forall>x\<in>set (p # lost). late now x" using D(3) p(2) by simp
    ultimately show ?thesis unfolding step using D(5) by (intro exI conjI)
  next
    case False
    then have stop: "codel_loop i now packet q = (packet, q)" by (subst codel_loop.simps) simp
    show ?thesis unfolding stop using "1.prems"(2) by (intro exI [of _ "[]"] exI [of _ "[]"]) simp
  qed
qed

lemma codel_pop_spec:
  obtains D lost where "popped D i q (snd (codel_pop i now q))"
    "D = lost @ the_list (fst (codel_pop i now q))" "\<forall>p\<in>set lost. late now p"
    "fq_stats (snd (codel_pop i now q)) = fq_stats q @ replicate (length lost) QueueDelay"
    "fst (codel_pop i now q) = None \<longrightarrow> ff_packets (fq_flows (snd (codel_pop i now q)) i) = []"
proof -
  define packet q1 drop q2 where "packet = fst (fq_pop i q)" and "q1 = snd (fq_pop i q)"
    and "drop = fst (codel_check i packet now q1)" and "q2 = snd (codel_check i packet now q1)"
  define q3 where "q3 = (if \<not> drop then set_codel i ((codel_of i q2) \<lparr> dropping := False \<rparr>) q2 else q2)"
  define q4 where "q4 = snd (fq_pop i (fq_record_drop QueueDelay q2))"
  define packet' where "packet' = fst (fq_pop i (fq_record_drop QueueDelay q2))"
  define q5 where "q5 = snd (codel_check i packet' now q4)"
  have pop: "codel_pop i now q =
      (if dropping (codel_of i q2) then codel_loop i now packet q3
       else if drop then (packet', set_codel i (enter_dropping now (codel_of i q5)) q5) else (packet, q2))"
    by (simp add: codel_pop_def Let_def case_prod_beta packet_def q1_def drop_def q2_def q3_def q4_def packet'_def q5_def
        del: codel_check_simps fq_pop_simps)
  have p1: "popped (the_list packet) i q q1" using popped_pop [of q i] fq_pop_list [of i q] by (simp add: packet_def q1_def)
  then have p2: "popped (the_list packet) i q q2" "popped (the_list packet) i q q3" by (simp_all add: q2_def q3_def)
  have s2: "fq_stats q2 = fq_stats q" "fq_stats q3 = fq_stats q" by (simp_all add: q2_def q1_def q3_def)
  have empty: "packet = None \<longrightarrow> ff_packets (fq_flows q2 i) = [] \<and> ff_packets (fq_flows q3 i) = []"
    by (simp add: packet_def q2_def q3_def q1_def split: list.split)
  have drop: "drop \<longrightarrow> (\<exists>p. packet = Some p \<and> late now p)"
    using should_drop_late by (fastforce simp: drop_def)
  show ?thesis
  proof (cases "dropping (codel_of i q2)")
    case True
    have d3: "dropping (codel_of i q3) \<longrightarrow> (\<exists>p. packet = Some p \<and> late now p)"
      using drop by (simp add: q3_def)
    have e3: "packet = None \<longrightarrow> ff_packets (fq_flows q3 i) = []" using empty by simp
    obtain D lost where D: "popped D i q3 (snd (codel_loop i now packet q3))"
      "the_list packet @ D = lost @ the_list (fst (codel_loop i now packet q3))" "\<forall>p\<in>set lost. late now p"
      "fq_stats (snd (codel_loop i now packet q3)) = fq_stats q3 @ replicate (length lost) QueueDelay"
      "fst (codel_loop i now packet q3) = None \<longrightarrow> ff_packets (fq_flows (snd (codel_loop i now packet q3)) i) = []"
      using codel_loop_spec [OF d3 e3] by (elim exE conjE) (rule that; assumption)
    from True pop have "codel_pop i now q = codel_loop i now packet q3" by simp
    then show ?thesis using that [of "the_list packet @ D" lost, OF _ _ D(3)] popped_trans [OF p2(2) D(1)] D(2,4,5) s2(2)
      by (simp only: simp_thms)
  next
    case False
    show ?thesis
    proof (cases drop)
      case True
      with drop obtain p where p: "packet = Some p" "late now p" by blast
      have "popped (the_list packet') i (fq_record_drop QueueDelay q2) q4"
        using popped_pop [of "fq_record_drop QueueDelay q2" i] fq_pop_list [of i "fq_record_drop QueueDelay q2"]
        by (simp add: packet'_def q4_def)
      moreover have "popped (the_list packet) i q (fq_record_drop QueueDelay q2)" using p2(1) by simp
      ultimately have "popped (the_list packet @ the_list packet') i q q4" by (rule popped_trans [rotated])
      moreover have "packet' = None \<longrightarrow> ff_packets (fq_flows q4 i) = []"
        by (simp add: packet'_def q4_def split: list.split)
      moreover have "codel_pop i now q = (packet', set_codel i (enter_dropping now (codel_of i q5)) q5)"
        using pop False True by (simp only: if_True if_False)
      moreover have "fq_stats q5 = fq_stats q @ [QueueDelay]" using s2(1) by (simp add: q5_def q4_def)
      moreover have "ff_packets (fq_flows q5 i) = ff_packets (fq_flows q4 i)" by (simp add: q5_def)
      moreover have "popped (the_list packet @ the_list packet') i q q5 \<longleftrightarrow> popped (the_list packet @ the_list packet') i q q4"
        by (simp add: q5_def)
      ultimately show ?thesis by (intro that [of "p # the_list packet'" "[p]"]) (use p in simp_all)
    next
      case ndrop: False
      have "codel_pop i now q = (packet, q2)" using pop False ndrop by (simp only: if_False)
      then show ?thesis by (intro that [of "the_list packet" "[]"]) (use p2(1) s2(1) empty in simp_all)
    qed
  qed
qed

lemma head_flow_Some:
  "head_flow q = Some i \<longleftrightarrow> (\<exists>xs. fq_new q = i # xs) \<or> (fq_new q = [] \<and> (\<exists>xs. fq_old q = i # xs))"
  by (auto simp: head_flow_def split: list.splits)

lemma head_flow_None: "head_flow q = None \<longleftrightarrow> fq_new q = [] \<and> fq_old q = []"
  by (auto simp: head_flow_def split: list.splits)

lemma fq_ok_to_old:
  assumes "fq_ok q" and "head_flow q = Some i"
  shows "fq_ok (to_old q)"
proof -
  have "distinct (fq_new (to_old q) @ fq_old (to_old q)) \<longleftrightarrow> distinct (fq_new q @ fq_old q)"
    "set (fq_new (to_old q) @ fq_old (to_old q)) = set (fq_new q @ fq_old q)"
    using assms(2) unfolding head_flow_Some by (auto simp: to_old_def)
  with assms(1) show ?thesis unfolding fq_ok_def to_old_simps by blast
qed

lemma fq_ok_add_deficit:
  assumes "fq_ok q" and "- int (fq_max_packet q) < ff_deficit (fq_flows q i) + d" and "ff_deficit (fq_flows q i) + d \<le> quantum"
  shows "fq_ok (add_deficit i d q)"
proof -
  have "fq_flow_ok (fq_max_packet q) j (fq_flows (add_deficit i d q) j)" for j
    using assms by (auto simp: fq_ok_def fq_flow_ok_def)
  with assms(1) show ?thesis unfolding fq_ok_def add_deficit_simps by blast
qed

lemma fq_ok_retire:
  assumes "fq_ok q" and "fq_new q = []" and "fq_old q = i # xs" and "ff_packets (fq_flows q i) = []"
  shows "fq_ok (retire i q)"
proof -
  have "fq_flow_ok (fq_max_packet q) j (fq_flows (retire i q) j)" for j
    using assms(1,4) by (auto simp: fq_ok_def fq_flow_ok_def)
  moreover have "distinct (fq_new q @ tl (fq_old q))" "set (fq_new q @ tl (fq_old q)) = {j. ff_active (fq_flows q j) \<and> j \<noteq> i}"
    using assms(1-3) by (auto simp: fq_ok_def)
  ultimately show ?thesis using assms(1) unfolding fq_ok_def retire_simps by blast
qed

lemma fq_ok_idle:
  assumes "fq_ok q" and "head_flow q = None"
  shows "fq_packets q = 0"
proof -
  have "ff_packets (fq_flows q j) = []" for j
    using assms by (auto simp: head_flow_None fq_ok_def fq_flow_ok_def)
  with assms(1) show ?thesis by (simp add: fq_ok_def)
qed

lemma transfer_cong:
  assumes "\<And>j. ff_packets (fq_flows q1 j) = ff_packets (fq_flows q j)" and "fq_stats q1 = fq_stats q"
  shows "transfer r D out q0 q1 \<longleftrightarrow> transfer r D out q0 q"
    and "transfer r D out q1 q' \<longleftrightarrow> transfer r D out q q'"
  using assms by (simp_all add: transfer_def)

lemma transfer_out:
  assumes "popped (lost @ [p]) i q q'" and "fq_stats q' = fq_stats q @ replicate (length lost) r" and "fp_bucket p = i"
  shows "transfer r (\<lambda>j. if j = i then lost else []) (Some p) q q'"
proof -
  have "(\<Sum>j\<in>UNIV. length (if j = i then lost else [])) = length lost"
    using sum_bucket_split [of i "length lost"] by (simp add: if_distrib [of length] cong: if_cong)
  with assms show ?thesis by (simp add: transfer_def popped_def handed_def)
qed

text \<open>What one call of the scheduler did to a consistent queue.\<close>

definition dequeued :: "instant \<Rightarrow> fq_queue \<Rightarrow> fq_packet option \<times> fq_queue \<Rightarrow> bool" where
  "dequeued now q res \<longleftrightarrow>
     fq_ok (snd res) \<and> (fst res = None \<longrightarrow> fq_packets (snd res) = 0) \<and>
     (\<exists>D. transfer QueueDelay D (fst res) q (snd res) \<and> (\<forall>j. \<forall>p\<in>set (D j). late now p))"

lemma dequeued_after:
  assumes "dequeued now q1 res" and "transfer QueueDelay D None q q1" and "\<forall>j. \<forall>p\<in>set (D j). late now p"
  shows "dequeued now q res"
proof -
  from assms(1) obtain E where "transfer QueueDelay E (fst res) q1 (snd res)" "\<forall>j. \<forall>p\<in>set (E j). late now p"
    by (auto simp: dequeued_def)
  with transfer_trans [OF assms(2)] assms(3)
  have "transfer QueueDelay (\<lambda>j. D j @ E j) (fst res) q (snd res)" "\<forall>j. \<forall>p\<in>set (D j @ E j). late now p" by auto
  with assms(1) show ?thesis unfolding dequeued_def by blast
qed

lemma codel_pop_delivers:
  assumes "fq_ok q" and "ff_deficit (fq_flows q i) > 0" and "codel_pop i now q = (Some p, q')"
  shows "dequeued now q (Some p, add_deficit i (- int (fp_bytes p)) q')"
proof -
  obtain D lost where D: "popped D i q q'" "D = lost @ [p]" "\<forall>p\<in>set lost. late now p"
    "fq_stats q' = fq_stats q @ replicate (length lost) QueueDelay"
    using codel_pop_spec [of i q now] assms(3) by (metis fst_conv snd_conv the_list_simps(2))
  have "p \<in> set (ff_packets (fq_flows q i))" using D(1,2) by (simp add: popped_def)
  then have p: "fp_bucket p = i" "fp_bytes p \<le> fq_max_packet q" using assms(1) by (auto simp: fq_ok_def fq_flow_ok_def)
  have ok: "fq_ok q'" by (rule popped_ok [OF assms(1) D(1)])
  have d: "ff_deficit (fq_flows q' i) = ff_deficit (fq_flows q i)" "fq_max_packet q' = fq_max_packet q"
    using D(1) by (simp_all add: popped_def)
  have "ff_deficit (fq_flows q i) \<le> quantum" using assms(1) by (simp add: fq_ok_def fq_flow_ok_def)
  then have "fq_ok (add_deficit i (- int (fp_bytes p)) q')"
    by (intro fq_ok_add_deficit [OF ok]) (use assms(2) p d in linarith)+
  moreover have "transfer QueueDelay (\<lambda>j. if j = i then lost else []) (Some p) q (add_deficit i (- int (fp_bytes p)) q')"
    using transfer_out [of lost p i q q' QueueDelay] D p(1) by (simp add: transfer_def)
  moreover have "\<forall>j. \<forall>x\<in>set (if j = i then lost else []). late now x" using D(3) by simp
  ultimately show ?thesis unfolding dequeued_def fst_conv snd_conv by blast
qed

lemma codel_pop_exhausts:
  assumes "fq_ok q" and "codel_pop i now q = (None, q')"
  obtains D where "fq_ok q'" "transfer QueueDelay D None q q'" "\<forall>j. \<forall>p\<in>set (D j). late now p"
    "ff_packets (fq_flows q' i) = []" "fq_new q' = fq_new q" "fq_old q' = fq_old q"
proof -
  obtain lost where D: "popped lost i q q'" "\<forall>p\<in>set lost. late now p"
    "fq_stats q' = fq_stats q @ replicate (length lost) QueueDelay" "ff_packets (fq_flows q' i) = []"
    using codel_pop_spec [of i q now] assms(2) by (metis fst_conv snd_conv the_list_simps(1) append_Nil2)
  show ?thesis
  proof (rule that [of "\<lambda>j. if j = i then lost else []"])
    show "fq_ok q'" by (rule popped_ok [OF assms(1) D(1)])
    show "transfer QueueDelay (\<lambda>j. if j = i then lost else []) None q q'" by (rule transfer_popped [OF D(1,3)])
    show "fq_new q' = fq_new q" "fq_old q' = fq_old q" using D(1) by (simp_all add: popped_def)
  qed (use D in auto)
qed

lemma fq_dequeue_spec: "fq_ok q \<Longrightarrow> dequeued now q (fq_dequeue now q)"
proof (induction now q rule: fq_dequeue.induct)
  case (1 now q)
  show ?case
  proof (cases "head_flow q")
    case None
    then have "fq_dequeue now q = (None, q)" by (subst fq_dequeue.simps) simp
    moreover have "\<forall>j. \<forall>p\<in>set ((\<lambda>_. []) (j :: bucket)). late now p" by simp
    ultimately show ?thesis using "1.prems" fq_ok_idle [OF "1.prems" None] transfer_refl [of QueueDelay q]
      unfolding dequeued_def by (metis fst_conv snd_conv)
  next
    case (Some i)
    show ?thesis
    proof (cases "ff_deficit (fq_flows q i) \<le> 0")
      case True
      let ?q = "to_old (add_deficit i quantum q)"
      have "head_flow (add_deficit i quantum q) = Some i" using Some by (simp add: head_flow_Some)
      moreover have "fq_ok (add_deficit i quantum q)"
        using "1.prems" True by (intro fq_ok_add_deficit) (auto simp: fq_ok_def fq_flow_ok_def quantum_def dest!: spec [of _ i])
      ultimately have "fq_ok ?q" by (intro fq_ok_to_old)
      from "1.IH"(1) [OF Some True this] have "dequeued now ?q (fq_dequeue now ?q)" .
      moreover have "transfer QueueDelay (\<lambda>_. []) None q ?q" using transfer_refl [of QueueDelay q] by (simp add: transfer_def)
      ultimately have "dequeued now q (fq_dequeue now ?q)" by (rule dequeued_after) simp
      with Some True show ?thesis by (subst fq_dequeue.simps) simp
    next
      case False
      obtain r q' where pop: "codel_pop i now q = (r, q')" by (cases "codel_pop i now q")
      show ?thesis
      proof (cases r)
        case (Some p)
        with codel_pop_delivers [of q i now p q'] pop False "1.prems" \<open>head_flow q = Some i\<close>
        show ?thesis by (subst fq_dequeue.simps) simp
      next
        case None
        with pop have pop': "codel_pop i now q = (None, q')" by simp
        obtain D where D: "fq_ok q'" "transfer QueueDelay D None q q'" "\<forall>j. \<forall>p\<in>set (D j). late now p"
          "ff_packets (fq_flows q' i) = []" "fq_new q' = fq_new q" "fq_old q' = fq_old q"
          by (rule codel_pop_exhausts [OF "1.prems" pop'])
        have hd: "head_flow q' = Some i" using Some D(5,6) by (simp add: head_flow_Some)
        show ?thesis
        proof (cases "fq_new q = []")
          case new: False
          have "dequeued now (to_old q') (fq_dequeue now (to_old q'))"
            by (rule "1.IH"(2) [OF Some False pop' [symmetric] refl new]) (rule fq_ok_to_old [OF D(1) hd])
          moreover have "transfer QueueDelay D None q (to_old q')" using D(2) by (simp add: transfer_def)
          ultimately have "dequeued now q (fq_dequeue now (to_old q'))" using D(3) by (rule dequeued_after)
          then show ?thesis using Some False pop' new by (subst fq_dequeue.simps) simp
        next
          case new: True
          then obtain xs where "fq_old q' = i # xs" using hd D(5) by (auto simp: head_flow_Some)
          then have "fq_ok (retire i q')" using D(1,4,5) new by (intro fq_ok_retire) auto
          then have "dequeued now (retire i q') (fq_dequeue now (retire i q'))"
            using "1.IH"(3) [OF Some False pop' [symmetric] refl] new by simp
          moreover have "transfer QueueDelay D None q (retire i q')" using D(2) by (simp add: transfer_def)
          ultimately have "dequeued now q (fq_dequeue now (retire i q'))" using D(3) by (rule dequeued_after)
          then show ?thesis using Some False pop' new by (subst fq_dequeue.simps) simp
        qed
      qed
    qed
  qed
qed

section \<open>Control law\<close>

lemma isqrt_spec: "isqrt n * isqrt n \<le> n \<and> n < (isqrt n + 1) * (isqrt n + 1)"
proof (induction n rule: isqrt.induct)
  case (1 n)
  show ?case
  proof (cases "n = 0")
    case True
    then show ?thesis by (simp add: isqrt.simps)
  next
    case False
    define r where "r = isqrt (n div 4)"
    have "r * r \<le> n div 4" "n div 4 < (r + 1) * (r + 1)" using "1.IH" [OF False] by (simp_all add: r_def)
    then have "4 * (r * r) \<le> n" "n < 4 * ((r + 1) * (r + 1))" by linarith+
    then have "2 * r * (2 * r) \<le> n" "n < (2 * r + 2) * (2 * r + 2)" by (simp_all add: algebra_simps)
    moreover have "isqrt n = (if (2 * r + 1) * (2 * r + 1) \<le> n then 2 * r + 1 else 2 * r)"
      using False by (subst isqrt.simps) (simp add: Let_def r_def)
    ultimately show ?thesis by (auto simp: algebra_simps)
  qed
qed

text \<open>The gap to the next drop is the interval divided by the square root of the count, to the
  nearest nanosecond.\<close>

lemma control_law_gap:
  fixes n :: u32 and t :: instant
  defines "gap \<equiv> control_law t n - t" and "k \<equiv> unat (max n 1)"
  shows "(2 * gap - 1) * (2 * gap - 1) * k \<le> 4 * codel_interval * codel_interval"
    and "4 * codel_interval * codel_interval < (2 * gap + 1) * (2 * gap + 1) * k"
proof -
  define x r where "x = 4 * codel_interval * codel_interval" and "r = isqrt (x div k)"
  have gap: "gap = (r + 1) div 2" by (simp add: gap_def control_law_def r_def x_def k_def)
  have "n \<noteq> 0 \<or> max n 1 = 1" by auto
  then have "max n 1 \<noteq> 0" by (metis max_def zero_neq_one)
  then have k: "k > 0" by (simp add: k_def unat_gt_0)
  have lo: "2 * gap - 1 \<le> r" and hi: "r + 1 \<le> 2 * gap + 1" using gap by linarith+
  note le = mult_le_mono [OF lo lo] mult_le_mono [OF hi hi]
  have "r * r \<le> x div k" "x div k < (r + 1) * (r + 1)" using isqrt_spec [of "x div k"] by (simp_all add: r_def)
  with le have "(2 * gap - 1) * (2 * gap - 1) \<le> x div k" "x div k < (2 * gap + 1) * (2 * gap + 1)" by linarith+
  then show "(2 * gap - 1) * (2 * gap - 1) * k \<le> 4 * codel_interval * codel_interval"
    and "4 * codel_interval * codel_interval < (2 * gap + 1) * (2 * gap + 1) * k"
    using k unfolding x_def [symmetric] by (simp_all add: less_eq_div_iff_mult_less_eq div_less_iff_less_mult)
qed

section \<open>Reachable queues\<close>

inductive fq_reach :: "fq_queue \<Rightarrow> bool" where
  reach_new: "fq_reach (new_queue stats)"
| reach_enqueue: "fq_reach q \<Longrightarrow> 0 < fp_bytes p \<Longrightarrow> fq_enqueue p q = Some q' \<Longrightarrow> fq_reach q'"
| reach_dequeue: "fq_reach q \<Longrightarrow> fq_dequeue now q = (r, q') \<Longrightarrow> fq_reach q'"
| reach_clear: "fq_reach q \<Longrightarrow> fq_reach (fq_clear q)"

lemma default_flow_ok: "quantum \<le> int m \<Longrightarrow> fq_flow_ok m i default_flow"
  by (simp add: fq_flow_ok_def default_flow_def quantum_def)

lemma new_queue_ok: "fq_ok (new_queue stats)" and fq_clear_ok: "fq_ok (fq_clear q)"
  using default_flow_ok by (simp_all add: fq_ok_def new_queue_def fq_clear_def default_flow_def quantum_def)

lemma transfer_shrinks:
  assumes "fq_ok q" and "fq_ok q'" and "transfer r D out q q'"
  shows "fq_bytes q' \<le> fq_bytes q" and "fq_packets q' \<le> fq_packets q"
proof -
  have b: "ff_bytes (fq_flows x j) = total_bytes (ff_packets (fq_flows x j))" if "fq_ok x" for x j
    using that by (simp add: fq_ok_def fq_flow_ok_def)
  have "ff_packets (fq_flows q j) = D j @ handed out j @ ff_packets (fq_flows q' j)" for j
    using assms(3) by (simp add: transfer_def)
  then have "ff_bytes (fq_flows q' j) \<le> ff_bytes (fq_flows q j)"
    "length (ff_packets (fq_flows q' j)) \<le> length (ff_packets (fq_flows q j))" for j
    by (simp_all add: b assms(1,2))
  then show "fq_bytes q' \<le> fq_bytes q" "fq_packets q' \<le> fq_packets q"
    using assms(1,2) by (auto simp: fq_ok_def intro!: sum_mono)
qed

lemma fq_reach_ok: "fq_reach q \<Longrightarrow> fq_ok q \<and> \<not> over_budget q"
proof (induction rule: fq_reach.induct)
  case (reach_new stats)
  then show ?case by (simp add: new_queue_ok) (simp add: over_budget_def new_queue_def)
next
  case (reach_enqueue q p q')
  then show ?case using fq_enqueue_spec [of q p] by (metis option.inject)
next
  case (reach_dequeue q now r q')
  then have d: "dequeued now q (r, q')" using fq_dequeue_spec [of q now] by simp
  then obtain D where "fq_ok q'" "transfer QueueDelay D r q q'" by (auto simp: dequeued_def)
  with reach_dequeue.IH transfer_shrinks [of q q'] show ?case by (auto simp: over_budget_def)
next
  case (reach_clear q)
  then show ?case by (simp add: fq_clear_ok) (simp add: over_budget_def fq_clear_def)
qed

section \<open>Properties\<close>

definition sample_fq_packet :: "nat \<Rightarrow> instant \<Rightarrow> fq_packet" where
  "sample_fq_packet n t = \<lparr> fp_bucket = 7, fp_encoded = Whole [], fp_ip_len = n, fp_bytes = n, fp_arrived = t \<rparr>"

text \<open>C29. The scheduler accepts every packet and stays within its budget: on every reachable queue the
  shedding loop of \<open>enqueue\<close> ends, leaves at most 1 MiB and 10240 packets, keeps the scheduler
  consistent, and each flow is what it was, with the new packet last, less packets shed from its
  front; every shed packet is counted once as \<open>QueueFull\<close>.\<close>

theorem fq_enqueue_total:
  assumes "fq_reach q" and "0 < fp_bytes p"
  shows "\<exists>q' D. fq_enqueue p q = Some q' \<and> fq_ok q' \<and> fq_bytes q' \<le> 1024 * 1024 \<and> fq_packets q' \<le> 10240 \<and>
    (\<forall>j. ff_packets (fq_flows q j) @ (if j = fp_bucket p then [p] else []) = D j @ ff_packets (fq_flows q' j)) \<and>
    fq_stats q' = fq_stats q @ replicate (\<Sum>j\<in>UNIV. length (D j)) QueueFull"
proof -
  obtain q' D where q': "fq_enqueue p q = Some q'" "fq_ok q'" "\<not> over_budget q'" "transfer QueueFull D None (fq_push p q) q'"
    using fq_enqueue_spec [of q p] fq_reach_ok [OF assms(1)] assms(2) by blast
  have "fq_bytes q' \<le> 1024 * 1024" "fq_packets q' \<le> 10240"
    using q'(3) by (simp_all add: over_budget_def fq_max_bytes_def fq_max_packets_def)
  moreover have "ff_packets (fq_flows q j) @ (if j = fp_bucket p then [p] else []) = D j @ ff_packets (fq_flows q' j)" for j
    using q'(4) fq_push_flows(1) [of p q j] by (simp add: transfer_def)
  moreover have "fq_stats q' = fq_stats q @ replicate (\<Sum>j\<in>UNIV. length (D j)) QueueFull"
    using q'(4) by (simp add: transfer_def fq_push_flows)
  ultimately show ?thesis using q'(1,2) by blast
qed

theorem fq_enqueue_total_witness:
  "0 < fp_bytes (sample_fq_packet 100 0) \<and>
   (\<exists>q'. fq_enqueue (sample_fq_packet 100 0) (new_queue []) = Some q' \<and> fq_ok q' \<and> fq_bytes q' \<le> 1024 * 1024)"
proof
  show "0 < fp_bytes (sample_fq_packet 100 0)" by (simp add: sample_fq_packet_def)
  from fq_enqueue_total [OF reach_new this, of "[]"]
  show "\<exists>q'. fq_enqueue (sample_fq_packet 100 0) (new_queue []) = Some q' \<and> fq_ok q' \<and> fq_bytes q' \<le> 1024 * 1024"
    by blast
qed

text \<open>C15. The scheduler loses and reorders nothing on its own: \<open>dequeue\<close> ends on every reachable queue,
  and each flow is split, in order, into the packets CoDel dropped, the packet handed out, and what
  remains. Every dropped packet had waited at least 5 ms and is counted once as \<open>QueueDelay\<close>, and the
  answer is empty only when the queue is.\<close>

theorem fq_dequeue_conserves:
  assumes "fq_reach q"
  shows "\<exists>r q' D. fq_dequeue now q = (r, q') \<and> fq_ok q' \<and> (r = None \<longrightarrow> fq_packets q' = 0) \<and>
    (\<forall>j. ff_packets (fq_flows q j) = D j @ handed r j @ ff_packets (fq_flows q' j)) \<and>
    (\<forall>j. \<forall>p\<in>set (D j). now - fp_arrived p \<ge> millis 5) \<and>
    fq_stats q' = fq_stats q @ replicate (\<Sum>j\<in>UNIV. length (D j)) QueueDelay"
proof -
  obtain r q' where rq: "fq_dequeue now q = (r, q')" by (cases "fq_dequeue now q")
  have "dequeued now q (r, q')" using fq_dequeue_spec [of q now] fq_reach_ok [OF assms] rq by simp
  then obtain D where "fq_ok q'" "r = None \<longrightarrow> fq_packets q' = 0" "transfer QueueDelay D r q q'"
    "\<forall>j. \<forall>p\<in>set (D j). late now p" by (auto simp: dequeued_def)
  with rq show ?thesis unfolding transfer_def late_def codel_target_def by blast
qed

lemma sample_queue_reachable: "fq_reach (fq_push (sample_fq_packet 100 0) (new_queue []))"
proof (rule reach_enqueue [OF reach_new])
  show "fq_enqueue (sample_fq_packet 100 0) (new_queue []) = Some (fq_push (sample_fq_packet 100 0) (new_queue []))"
    by (simp add: fq_enqueue_def fq_shed_def while_option_unfold over_budget_def fq_push_flows new_queue_def
        sample_fq_packet_def fq_max_bytes_def fq_max_packets_def)
qed (simp add: sample_fq_packet_def)

theorem fq_dequeue_conserves_witness:
  "\<exists>r q' D. fq_dequeue 1 (fq_push (sample_fq_packet 100 0) (new_queue [])) = (r, q') \<and> fq_ok q' \<and>
    [sample_fq_packet 100 0] = D 7 @ handed r 7 @ ff_packets (fq_flows q' 7) \<and>
    (\<forall>p\<in>set (D 7). 1 - fp_arrived p \<ge> millis 5)"
proof -
  define q where "q = fq_push (sample_fq_packet 100 0) (new_queue [])"
  have flow: "ff_packets (fq_flows q 7) = [sample_fq_packet 100 0]"
    by (simp add: q_def fq_push_flows new_queue_def default_flow_def) (simp add: sample_fq_packet_def)
  obtain r q' D where "fq_dequeue 1 q = (r, q')" "fq_ok q'"
    and split: "\<forall>j. ff_packets (fq_flows q j) = D j @ handed r j @ ff_packets (fq_flows q' j)"
    and late: "\<forall>j. \<forall>p\<in>set (D j). 1 - fp_arrived p \<ge> millis 5"
    using fq_dequeue_conserves [OF sample_queue_reachable, of 1, folded q_def]
    by (elim exE conjE) (rule that; assumption)
  then show ?thesis unfolding q_def [symmetric] flow [symmetric] by (intro exI conjI) (assumption, assumption, auto)
qed

end
