(* ===== verification/Rate_Limit.thy ===== *)
theory Rate_Limit
  imports Ray_Prelude
begin

text \<open>
  The per-connection guard of inbound control streams, \<open>src/src/ratelimit.rs\<close>. The token bucket is the
  \<open>ratelimit\<close> crate: its constructor and \<open>try_wait\<close> are parameters, \<open>try_wait\<close> telling whether a token was
  taken and returning the bucket after.
\<close>

section \<open>Definitions\<close>

definition gate_capacity :: u64 where "gate_capacity = 20"
definition gate_refill_per_sec :: u64 where "gate_refill_per_sec = 2"
definition gate_strike_limit :: u32 where "gate_strike_limit = 100"

datatype gate_verdict = GateAllow | GateDrop | GateClose

record 'l control_gate =
  limiter :: 'l
  strikes :: u32
  strike_limit :: u32

definition gate_with_params :: "(u64 \<Rightarrow> u64 \<Rightarrow> 'l) \<Rightarrow> u64 \<Rightarrow> u64 \<Rightarrow> u32 \<Rightarrow> 'l control_gate" where
  "gate_with_params build capacity refill limit =
     \<lparr> limiter = build capacity refill, strikes = 0, strike_limit = limit \<rparr>"

definition gate_new :: "(u64 \<Rightarrow> u64 \<Rightarrow> 'l) \<Rightarrow> 'l control_gate" where
  "gate_new build = gate_with_params build gate_capacity gate_refill_per_sec gate_strike_limit"

definition gate_check :: "('l \<Rightarrow> bool \<times> 'l) \<Rightarrow> 'l control_gate \<Rightarrow> gate_verdict \<times> 'l control_gate" where
  "gate_check try_wait g =
     (let (granted, l) = try_wait (limiter g) in
      if granted then
        (GateAllow, g \<lparr> limiter := l, strikes := saturating_dec (strikes g) \<rparr>)
      else
        let n = saturating_inc (strikes g) in
        (if n \<ge> strike_limit g then GateClose else GateDrop, g \<lparr> limiter := l, strikes := n \<rparr>))"

text \<open>\<open>n\<close> messages in a row, and the answers the bucket gives them.\<close>

fun gate_run :: "('l \<Rightarrow> bool \<times> 'l) \<Rightarrow> nat \<Rightarrow> 'l control_gate \<Rightarrow> gate_verdict list \<times> 'l control_gate" where
  "gate_run try_wait 0 g = ([], g)"
| "gate_run try_wait (Suc n) g =
     (let (vs, g1) = gate_run try_wait n g; (v, g2) = gate_check try_wait g1 in (vs @ [v], g2))"

fun bucket_run :: "('l \<Rightarrow> bool \<times> 'l) \<Rightarrow> nat \<Rightarrow> 'l \<Rightarrow> bool list \<times> 'l" where
  "bucket_run try_wait 0 l = ([], l)"
| "bucket_run try_wait (Suc n) l =
     (let (bs, l1) = bucket_run try_wait n l; (b, l2) = try_wait l1 in (bs @ [b], l2))"

section \<open>Strikes\<close>

text \<open>Refusals less grants over a stretch of messages, and the largest such excess of any stretch that
  ends now.\<close>

definition net_refused :: "bool list \<Rightarrow> int" where
  "net_refused bs = int (length (filter Not bs)) - int (length (filter (\<lambda>b. b) bs))"

definition recent_excess :: "bool list \<Rightarrow> int" where
  "recent_excess bs = Max ((\<lambda>j. net_refused (drop j bs)) ` {0..length bs})"

lemma recent_excess_snoc:
  "recent_excess (bs @ [b]) = max 0 (recent_excess bs + (if b then - 1 else 1))"
proof -
  define d :: int where "d = (if b then - 1 else 1)"
  have step: "net_refused (xs @ [b]) = net_refused xs + d" for xs
    by (simp add: net_refused_def d_def)
  have "(\<lambda>j. net_refused (drop j (bs @ [b]))) ` {0..length (bs @ [b])} =
      insert 0 ((\<lambda>x. x + d) ` (\<lambda>j. net_refused (drop j bs)) ` {0..length bs})"
  proof -
    have "{0..length (bs @ [b])} = insert (Suc (length bs)) {0..length bs}" by auto
    moreover have "net_refused (drop (Suc (length bs)) (bs @ [b])) = 0" by (simp add: net_refused_def)
    moreover have "(\<lambda>j. net_refused (drop j (bs @ [b]))) ` {0..length bs} =
        (\<lambda>j. net_refused (drop j bs) + d) ` {0..length bs}"
      by (rule image_cong) (simp_all add: step)
    ultimately show ?thesis by (simp add: image_image)
  qed
  then have "recent_excess (bs @ [b]) = max 0 (Max ((\<lambda>x. x + d) ` (\<lambda>j. net_refused (drop j bs)) ` {0..length bs}))"
    unfolding recent_excess_def by (simp add: Max_insert)
  also have "Max ((\<lambda>x. x + d) ` (\<lambda>j. net_refused (drop j bs)) ` {0..length bs}) = recent_excess bs + d"
    unfolding recent_excess_def by (rule mono_Max_commute [symmetric]) (auto simp: mono_def)
  finally show ?thesis by (simp add: d_def)
qed

lemma recent_excess_bounds: "0 \<le> recent_excess bs \<and> recent_excess bs \<le> int (length bs)"
proof (induction bs rule: rev_induct)
  case Nil
  show ?case by (simp add: recent_excess_def net_refused_def)
next
  case (snoc b bs)
  then show ?case by (auto simp: recent_excess_snoc)
qed

lemma gate_run_limiter: "limiter (snd (gate_run try_wait n g)) = snd (bucket_run try_wait n (limiter g))"
  by (induction n) (auto simp: gate_check_def Let_def case_prod_beta)

lemma gate_run_limit: "strike_limit (snd (gate_run try_wait n g)) = strike_limit g"
  by (induction n) (auto simp: gate_check_def Let_def case_prod_beta)

lemma bucket_run_length [simp]: "length (fst (bucket_run try_wait n l)) = n"
  by (induction n) (auto simp: Let_def case_prod_beta)

lemma gate_run_strikes:
  assumes "strikes g = 0" and "n < 2 ^ 32"
  shows "uint (strikes (snd (gate_run try_wait n g))) = recent_excess (fst (bucket_run try_wait n (limiter g)))"
  using assms(2)
proof (induction n)
  case 0
  show ?case by (simp add: assms(1) recent_excess_def net_refused_def)
next
  case (Suc n)
  define g1 bs where "g1 = snd (gate_run try_wait n g)" and "bs = fst (bucket_run try_wait n (limiter g))"
  define b where "b = fst (try_wait (limiter g1))"
  have ih: "uint (strikes g1) = recent_excess bs" using Suc by (simp add: g1_def bs_def)
  have bs': "fst (bucket_run try_wait (Suc n) (limiter g)) = bs @ [b]"
    by (simp add: Let_def case_prod_beta bs_def b_def g1_def gate_run_limiter)
  have small: "recent_excess bs < 2 ^ 32 - 1" using recent_excess_bounds [of bs] Suc.prems by (simp add: bs_def)
  have "strikes (snd (gate_run try_wait (Suc n) g)) =
      (if b then saturating_dec (strikes g1) else saturating_inc (strikes g1))"
    by (simp add: Let_def case_prod_beta gate_check_def g1_def b_def)
  then show ?case unfolding bs' using ih recent_excess_bounds [of bs] small
    by (cases b) (simp_all only: if_True if_False recent_excess_snoc uint_saturating_dec uint_saturating_inc, linarith+)
qed

lemma bucket_run_take:
  "m \<le> n \<Longrightarrow> fst (bucket_run try_wait m l) = take m (fst (bucket_run try_wait n l))"
proof (induction n)
  case (Suc n)
  then show ?case by (cases "m = Suc n") (simp_all add: Let_def case_prod_beta)
qed simp

lemma gate_run_length [simp]: "length (fst (gate_run try_wait n g)) = n"
  by (induction n) (auto simp: Let_def case_prod_beta)

lemma gate_run_nth:
  "k < n \<Longrightarrow> fst (gate_run try_wait n g) ! k = fst (gate_check try_wait (snd (gate_run try_wait k g)))"
proof (induction n)
  case (Suc n)
  then show ?case by (cases "k = n") (simp_all add: Let_def case_prod_beta nth_append)
qed simp

text \<open>When the last message was refused, the worst stretch is not empty.\<close>

lemma recent_excess_refused:
  assumes "length bs = Suc k" and "\<not> bs ! k"
  shows "recent_excess bs \<ge> m \<longleftrightarrow> (\<exists>j\<le>k. net_refused (drop j bs) \<ge> m)"
proof -
  have last: "net_refused (drop k bs) = 1" using assms
    by (simp add: Cons_nth_drop_Suc [symmetric] net_refused_def)
  have "recent_excess bs \<ge> m \<longleftrightarrow> (\<exists>j\<le>Suc k. net_refused (drop j bs) \<ge> m)"
    unfolding recent_excess_def by (subst Max_ge_iff) (auto simp: assms(1))
  also have "\<dots> \<longleftrightarrow> (\<exists>j\<le>k. net_refused (drop j bs) \<ge> m)"
  proof
    assume "\<exists>j\<le>Suc k. net_refused (drop j bs) \<ge> m"
    then obtain j where j: "j \<le> Suc k" "net_refused (drop j bs) \<ge> m" by blast
    show "\<exists>j\<le>k. net_refused (drop j bs) \<ge> m"
    proof (cases "j = Suc k")
      case True
      then have "m \<le> 0" using j(2) assms(1) by (simp add: net_refused_def)
      with last show ?thesis by (intro exI [of _ k]) simp
    qed (use j in \<open>auto simp: le_Suc_eq\<close>)
  qed (auto intro: le_SucI)
  finally show ?thesis .
qed

section \<open>Properties\<close>

text \<open>C36. The gate punishes floods and nothing else: of any run of messages on a fresh gate, each one is
  admitted exactly when the bucket has a token for it, and a refused one closes the connection exactly
  when over some stretch of messages ending with it the refusals exceed the grants by the strike limit.\<close>

theorem gate_closes_on_flood:
  assumes "k < n" and "n < 2 ^ 32"
    and bs_def: "bs = fst (bucket_run try_wait n (build capacity refill))"
  shows "fst (gate_run try_wait n (gate_with_params build capacity refill limit)) ! k =
    (if bs ! k then GateAllow
     else if \<exists>j\<le>k. net_refused (drop j (take (Suc k) bs)) \<ge> uint limit then GateClose else GateDrop)"
proof -
  define g where "g = gate_with_params build capacity refill limit"
  define g1 where "g1 = snd (gate_run try_wait k g)"
  define os where "os = fst (bucket_run try_wait (Suc k) (build capacity refill))"
  have lim: "limiter g = build capacity refill" "strikes g = 0" "strike_limit g = limit"
    by (simp_all add: g_def gate_with_params_def)
  have os: "os = take (Suc k) bs" unfolding os_def bs_def using assms(1) by (intro bucket_run_take) simp
  have last: "os ! k = fst (try_wait (limiter g1))"
    by (simp add: os_def Let_def case_prod_beta g1_def gate_run_limiter lim nth_append)
  have "os ! k = bs ! k" by (simp add: os)
  have v: "fst (gate_run try_wait n g) ! k = fst (gate_check try_wait g1)"
    using assms(1) by (simp add: gate_run_nth g1_def)
  have s: "uint (strikes (snd (gate_check try_wait g1))) = recent_excess os"
    using gate_run_strikes [of g "Suc k" try_wait] assms lim by (simp add: Let_def case_prod_beta g1_def os_def)
  have "fst (gate_check try_wait g1) =
      (if os ! k then GateAllow else if recent_excess os \<ge> uint limit then GateClose else GateDrop)"
  proof (cases "os ! k")
    case False
    then have "fst (gate_check try_wait g1) = (if strikes (snd (gate_check try_wait g1)) \<ge> limit then GateClose else GateDrop)"
      using last gate_run_limit [of try_wait k g] by (simp add: gate_check_def Let_def case_prod_beta g1_def lim)
    with False show ?thesis by (simp add: word_le_def s)
  qed (use last in \<open>simp add: gate_check_def Let_def case_prod_beta\<close>)
  moreover have "\<not> os ! k \<Longrightarrow> recent_excess os \<ge> uint limit \<longleftrightarrow> (\<exists>j\<le>k. net_refused (drop j os) \<ge> uint limit)"
    by (rule recent_excess_refused) (simp_all add: os_def del: bucket_run.simps)
  ultimately show ?thesis using v \<open>os ! k = bs ! k\<close> by (simp add: os g_def)
qed

theorem gate_closes_on_flood_witness:
  "fst (gate_run (\<lambda>l. (0 < l, l - 1)) (Suc (Suc (Suc 0))) (gate_with_params (\<lambda>c r. unat c) 1 1 2)) ! Suc (Suc 0) = GateClose"
proof -
  define try_wait :: "nat \<Rightarrow> bool \<times> nat" where "try_wait = (\<lambda>l. (0 < l, l - 1))"
  have n: "Suc (Suc (Suc 0)) < 2 ^ 32" by simp
  have bs: "[True, False, False] = fst (bucket_run try_wait (Suc (Suc (Suc 0))) ((\<lambda>c r. unat (c :: u64)) 1 (1 :: u64)))"
    by (simp add: try_wait_def)
  have "net_refused (drop 1 (take (Suc (Suc (Suc 0))) [True, False, False])) \<ge> uint (2 :: u32)"
    by (simp add: net_refused_def)
  then have "\<exists>j\<le>Suc (Suc 0). net_refused (drop j (take (Suc (Suc (Suc 0))) [True, False, False])) \<ge> uint (2 :: u32)"
    by (intro exI [of _ 1]) simp
  then show ?thesis unfolding try_wait_def [symmetric]
    by (subst gate_closes_on_flood [where build = "\<lambda>c r. unat c" and capacity = 1 and refill = 1, OF lessI n bs]) simp
qed

end
