(* ===== verification/Hostname.thy ===== *)
theory Hostname
  imports Ray_Text
begin

text \<open>
  Hostnames for Magic DNS, \<open>src/src/hostname.rs\<close>: validation, the folding of a device name into a
  label, collision resolution and the hostname of an admitted peer. A device name is a list of
  Unicode code points, since it may hold a curly apostrophe; a hostname is a \<open>string\<close>. The operating
  system's name and the random name are arguments of \<open>default_hostname\<close>.
\<close>

section \<open>Definitions\<close>

definition placeholders :: "string list" where
  "placeholders = [''localhost'', ''unknown'', ''android'']"

abbreviation hyphen :: char where "hyphen \<equiv> CHR ''-''"

definition host_char :: "char \<Rightarrow> bool" where
  "host_char c \<longleftrightarrow> is_lower c \<or> is_digit c \<or> c = hyphen"

definition is_valid_hostname :: "string \<Rightarrow> bool" where
  "is_valid_hostname name =
     (if name = [] \<or> length name > 63 then False
      else if hd name = hyphen \<or> last name = hyphen then False
      else list_all host_char name)"

definition trim_end_hyphens :: "string \<Rightarrow> string" where
  "trim_end_hyphens s = rev (dropWhile (\<lambda>c. c = hyphen) (rev s))"

definition trim_hyphens :: "string \<Rightarrow> string" where
  "trim_hyphens s = trim_end_hyphens (dropWhile (\<lambda>c. c = hyphen) s)"

subsection \<open>Folding a device name\<close>

type_synonym code_point = nat

definition to_ascii_lower :: "code_point \<Rightarrow> code_point" where
  "to_ascii_lower c = (if 65 \<le> c \<and> c \<le> 90 then c + 32 else c)"

definition ascii_lower_or_digit :: "code_point \<Rightarrow> bool" where
  "ascii_lower_or_digit c \<longleftrightarrow> (97 \<le> c \<and> c \<le> 122) \<or> (48 \<le> c \<and> c \<le> 57)"

definition ascii_alphanumeric :: "code_point \<Rightarrow> bool" where
  "ascii_alphanumeric c \<longleftrightarrow> ascii_lower_or_digit c \<or> (65 \<le> c \<and> c \<le> 90)"

text \<open>A possessive: an apostrophe, straight or curly, before an \<open>s\<close> that ends its word.\<close>

definition possessive :: "code_point \<Rightarrow> code_point list \<Rightarrow> bool" where
  "possessive c ahead \<longleftrightarrow>
     (c = 39 \<or> c = 0x2019) \<and>
     (case ahead of
        [] \<Rightarrow> False
      | x # rest \<Rightarrow> x = 115 \<and> (case rest of [] \<Rightarrow> True | y # _ \<Rightarrow> \<not> ascii_alphanumeric y))"

fun fold_label :: "string \<Rightarrow> code_point list \<Rightarrow> string" where
  "fold_label name [] = name"
| "fold_label name (c # cs) =
     (if possessive c cs then fold_label name (tl cs)
      else if ascii_lower_or_digit c then fold_label (name @ [char_of c]) cs
      else if name = [] \<or> last name \<noteq> hyphen then fold_label (name @ [hyphen]) cs
      else fold_label name cs)"

definition mesh_form :: "code_point list \<Rightarrow> string option" where
  "mesh_form raw =
     (let name = trim_hyphens (fold_label [] (map to_ascii_lower raw));
          name' = trim_end_hyphens (take 63 name)
      in if is_valid_hostname name' \<and> name' \<notin> set placeholders then Some name' else None)"

definition host_label_form :: "code_point list \<Rightarrow> string option" where
  "host_label_form raw = mesh_form (takeWhile (\<lambda>c. c \<noteq> 46) raw)"

definition system_hostname :: "code_point list option \<Rightarrow> string option" where
  "system_hostname raw = Option.bind raw host_label_form"

definition default_hostname :: "code_point list option \<Rightarrow> string \<Rightarrow> string option \<Rightarrow> string list \<Rightarrow> string" where
  "default_hostname raw generated configured taken =
     (case configured of
        Some name \<Rightarrow> name
      | None \<Rightarrow> (case system_hostname raw of
                  Some name \<Rightarrow> if name \<notin> set taken then name else generated
                | None \<Rightarrow> generated))"

subsection \<open>Collisions\<close>

definition suffixed :: "string \<Rightarrow> nat \<Rightarrow> string" where
  "suffixed desired i =
     (let suffix = hyphen # show_nat i in trim_end_hyphens (take (63 - length suffix) desired) @ suffix)"

text \<open>The counter is a \<open>u32\<close>; running past its range panics, here \<open>None\<close>.\<close>

function collision_loop :: "string \<Rightarrow> string list \<Rightarrow> nat \<Rightarrow> string option" where
  "collision_loop desired taken i =
     (if i \<ge> 2 ^ 32 then None
      else if suffixed desired i \<notin> set taken then Some (suffixed desired i)
      else collision_loop desired taken (i + 1))"
  by pat_completeness auto
termination by (relation "measure (\<lambda>(_, _, i). 2 ^ 32 - i)") auto

declare collision_loop.simps [simp del]

definition resolve_collision :: "string \<Rightarrow> string list \<Rightarrow> string option" where
  "resolve_collision desired taken =
     (if desired \<notin> set taken then Some desired else collision_loop desired taken 1)"

datatype admission_error = InvalidHostname string | HostnameInUse string

definition admission_hostname :: "string \<Rightarrow> string list \<Rightarrow> bool \<Rightarrow> (admission_error + string) option" where
  "admission_hostname desired taken authoritative =
     (if \<not> is_valid_hostname desired then Some (Inl (InvalidHostname desired))
      else if authoritative then
        (if desired \<in> set taken then Some (Inl (HostnameInUse desired)) else Some (Inr desired))
      else map_option Inr (resolve_collision desired taken))"

section \<open>Trimming\<close>

lemma trim_end_decomp: "\<exists>t. s = trim_end_hyphens s @ t \<and> (\<forall>c\<in>set t. c = hyphen)"
proof -
  have "s = trim_end_hyphens s @ rev (takeWhile (\<lambda>c. c = hyphen) (rev s))"
    unfolding trim_end_hyphens_def by (metis rev_append rev_rev_ident takeWhile_dropWhile_id)
  moreover have "\<forall>c\<in>set (rev (takeWhile (\<lambda>c. c = hyphen) (rev s))). c = hyphen"
    by (auto dest: set_takeWhileD)
  ultimately show ?thesis by blast
qed

lemma trim_end_last: "trim_end_hyphens s \<noteq> [] \<Longrightarrow> last (trim_end_hyphens s) \<noteq> hyphen"
  unfolding trim_end_hyphens_def using hd_dropWhile [of "\<lambda>c. c = hyphen" "rev s"] by (auto simp: last_rev)

lemma trim_end_id: "s = [] \<or> last s \<noteq> hyphen \<Longrightarrow> trim_end_hyphens s = s"
  by (cases s rule: rev_cases) (auto simp: trim_end_hyphens_def)

lemma trim_end_hd:
  assumes "s \<noteq> []" and "hd s \<noteq> hyphen"
  shows "trim_end_hyphens s \<noteq> []" and "hd (trim_end_hyphens s) = hd s"
proof -
  obtain u t where u: "u = trim_end_hyphens s" and t: "s = u @ t" "\<forall>c\<in>set t. c = hyphen"
    using trim_end_decomp by blast
  have "u \<noteq> []" using t assms by (cases u; cases t) auto
  with t(1) show "trim_end_hyphens s \<noteq> []" "hd (trim_end_hyphens s) = hd s" unfolding u [symmetric] by simp_all
qed

lemma trim_end_set: "set (trim_end_hyphens s) \<subseteq> set s"
  unfolding trim_end_hyphens_def by (auto dest: set_dropWhileD)

lemma trim_end_length: "length (trim_end_hyphens s) \<le> length s"
  unfolding trim_end_hyphens_def using length_dropWhile_le [of "\<lambda>c. c = hyphen" "rev s"] by simp

section \<open>Collisions\<close>

lemma show_nat_length: "n < 10 ^ k \<Longrightarrow> 0 < k \<Longrightarrow> length (show_nat n) \<le> k"
proof (induction n arbitrary: k rule: show_nat.induct)
  case (1 n)
  show ?case
  proof (cases "n < 10")
    case True
    then show ?thesis using "1.prems" by (subst show_nat.simps) simp
  next
    case False
    with "1.prems" obtain m where k: "k = Suc m" "0 < m" by (cases k; cases "k - 1") auto
    then have "n div 10 < 10 ^ m" using "1.prems" by (simp add: div_less_iff_less_mult mult.commute)
    with "1.IH" [OF False this k(2)] False k(1) show ?thesis by (subst show_nat.simps) simp
  qed
qed

lemma suffixed_inj: "suffixed desired i = suffixed desired j \<Longrightarrow> i = j"
proof -
  assume eq: "suffixed desired i = suffixed desired j"
  have tail: "takeWhile (\<lambda>c. c \<noteq> hyphen) (rev (suffixed desired n)) = rev (show_nat n)" for n
  proof -
    have "c \<in> set (rev (show_nat n)) \<Longrightarrow> c \<noteq> hyphen" for c by (auto dest: show_nat_chars)
    from takeWhile_append2 [of "rev (show_nat n)", OF this] show ?thesis by (simp add: suffixed_def Let_def)
  qed
  have "rev (show_nat i) = rev (show_nat j)" using tail [of i] tail [of j] eq by simp
  then show "i = j" using digits_value_show by (metis rev_is_rev_conv)
qed

lemma is_valid_hostname_iff:
  "is_valid_hostname s \<longleftrightarrow>
     s \<noteq> [] \<and> length s \<le> 63 \<and> hd s \<noteq> hyphen \<and> last s \<noteq> hyphen \<and> (\<forall>c\<in>set s. host_char c)"
  by (auto simp: is_valid_hostname_def list_all_iff)

lemma suffixed_valid:
  assumes "is_valid_hostname desired" and "i < 2 ^ 32"
  shows "is_valid_hostname (suffixed desired i)"
proof -
  define n where "n = 63 - length (hyphen # show_nat i)"
  define base where "base = trim_end_hyphens (take n desired)"
  have "i < 10 ^ 10" using assms(2) by simp
  then have len: "length (show_nat i) \<le> 10" by (rule show_nat_length) simp
  then have n: "0 < n" "n + length (hyphen # show_nat i) = 63" by (simp_all add: n_def)
  have d: "desired \<noteq> []" "hd desired \<noteq> hyphen" "\<forall>c\<in>set desired. host_char c"
    using assms(1) by (simp_all add: is_valid_hostname_iff)
  then have t: "take n desired \<noteq> []" "hd (take n desired) = hd desired" using n(1) by simp_all
  have base: "base \<noteq> []" "hd base = hd desired" "length base \<le> n"
    using trim_end_hd [OF t(1)] t d trim_end_length [of "take n desired"] by (auto simp: base_def)
  have s: "suffixed desired i = base @ hyphen # show_nat i"
    by (simp add: suffixed_def Let_def base_def n_def)
  have "set base \<subseteq> set desired" using trim_end_set [of "take n desired"] set_take_subset by (fastforce simp: base_def)
  moreover have "\<forall>c\<in>set (show_nat i). host_char c"
    using show_nat_digits [of i] by (auto simp: list_all_iff host_char_def)
  moreover have "last (show_nat i) \<noteq> hyphen" using show_nat_chars [OF last_in_set [OF show_nat_nonempty]] by blast
  ultimately have "\<forall>c\<in>set (suffixed desired i). host_char c" using d(3) by (auto simp: s host_char_def)
  moreover have "length (suffixed desired i) \<le> 63" using base(3) n(2) by (simp add: s)
  moreover have "last (suffixed desired i) \<noteq> hyphen" using \<open>last (show_nat i) \<noteq> hyphen\<close> by (simp add: s)
  moreover have "suffixed desired i \<noteq> []" "hd (suffixed desired i) \<noteq> hyphen" using base(1,2) d(2) by (simp_all add: s)
  ultimately show ?thesis unfolding is_valid_hostname_iff by blast
qed

lemma collision_loop_hits:
  assumes "suffixed desired (i + d) \<notin> set taken" and "i + d < 2 ^ 32"
  shows "\<exists>j. i \<le> j \<and> j < 2 ^ 32 \<and> collision_loop desired taken i = Some (suffixed desired j) \<and>
    suffixed desired j \<notin> set taken"
  using assms
proof (induction d arbitrary: i)
  case 0
  then show ?case by (intro exI [of _ i]) (simp add: collision_loop.simps [of desired taken i])
next
  case (Suc d)
  show ?case
  proof (cases "suffixed desired i \<in> set taken")
    case True
    obtain j where j: "i + 1 \<le> j" "j < 2 ^ 32" "collision_loop desired taken (i + 1) = Some (suffixed desired j)"
      "suffixed desired j \<notin> set taken" using Suc.IH [of "i + 1"] Suc.prems by auto
    have "collision_loop desired taken i = collision_loop desired taken (i + 1)"
      using True Suc.prems(2) by (subst collision_loop.simps) simp
    with j show ?thesis by (intro exI [of _ j]) simp
  next
    case False
    then show ?thesis using Suc.prems(2) by (intro exI [of _ i]) (simp add: collision_loop.simps [of desired taken i])
  qed
qed

text \<open>Among as many suffixes as there are taken names, plus one, one is free.\<close>

lemma free_suffix:
  obtains d where "d \<le> length taken" "suffixed desired (i + d) \<notin> set taken"
proof -
  define f where "f = (\<lambda>d. suffixed desired (i + d))"
  have "inj_on f {0..length taken}" unfolding f_def inj_on_def using suffixed_inj by fastforce
  then have "card (f ` {0..length taken}) = Suc (length taken)" by (simp add: card_image)
  then have "\<not> f ` {0..length taken} \<subseteq> set taken"
    using card_mono [of "set taken"] card_length [of taken] by (metis List.finite_set Suc_n_not_le_n le_trans)
  then obtain d where "d \<le> length taken" "f d \<notin> set taken" unfolding image_subset_iff by force
  then show ?thesis using that by (simp add: f_def)
qed

section \<open>Folding\<close>

abbreviation no_double :: "string \<Rightarrow> bool" where
  "no_double s \<equiv> successively (\<lambda>a b. \<not> (a = hyphen \<and> b = hyphen)) s"

lemma successively_part: "successively P (a @ b @ c) \<Longrightarrow> successively P b"
  by (simp add: successively_append_iff)

lemma fold_label_shape:
  "no_double name \<Longrightarrow> \<forall>c\<in>set name. host_char c \<Longrightarrow>
   no_double (fold_label name cs) \<and> (\<forall>c\<in>set (fold_label name cs). host_char c)"
proof (induction name cs rule: fold_label.induct)
  case (2 name c cs)
  have "host_char (char_of c) \<and> (char_of c :: char) \<noteq> hyphen" if "ascii_lower_or_digit c"
  proof -
    have c: "(of_char (char_of c :: char) :: nat) = c" using that by (auto simp: ascii_lower_or_digit_def)
    then have "is_lower (char_of c) \<or> is_digit (char_of c)"
      using that by (simp add: ascii_lower_or_digit_def is_lower_def is_digit_def)
    moreover have "(char_of c :: char) \<noteq> hyphen"
    proof
      assume "(char_of c :: char) = hyphen"
      with c have "c = 45" by simp
      with that show False by (simp add: ascii_lower_or_digit_def)
    qed
    ultimately show ?thesis by (auto simp: host_char_def)
  qed
  moreover have "host_char hyphen" by (simp add: host_char_def)
  ultimately show ?case using 2 by (auto simp: successively_append_iff)
qed simp

text \<open>Folding a name made of host characters without double hyphens changes nothing.\<close>

lemma fold_label_id:
  "\<forall>c\<in>set s. host_char c \<Longrightarrow> no_double (name @ s) \<Longrightarrow> fold_label name (map of_char s) = name @ s"
proof (induction s arbitrary: name)
  case (Cons c s)
  have c: "host_char c" using Cons.prems by simp
  then have np: "\<not> possessive (of_char c) (map of_char s)"
    by (auto simp: possessive_def host_char_def is_lower_def is_digit_def)
  have ih: "fold_label (name @ [c]) (map of_char s) = name @ c # s" using Cons.IH [of "name @ [c]"] Cons.prems by simp
  show ?case
  proof (cases "c = hyphen")
    case True
    then have "name = [] \<or> last name \<noteq> hyphen" using Cons.prems(2) by (auto simp: successively_append_iff)
    with True np ih show ?thesis by (simp add: ascii_lower_or_digit_def)
  next
    case False
    then have "ascii_lower_or_digit (of_char c)" using c by (auto simp: host_char_def is_lower_def is_digit_def ascii_lower_or_digit_def)
    with np ih show ?thesis by simp
  qed
qed simp

lemma to_ascii_lower_host: "host_char c \<Longrightarrow> to_ascii_lower (of_char c) = of_char c"
  by (auto simp: to_ascii_lower_def host_char_def is_lower_def is_digit_def)

lemma mesh_form_id:
  assumes "is_valid_hostname s" and "no_double s" and "s \<notin> set placeholders"
  shows "mesh_form (map of_char s) = Some s"
proof -
  have s: "s \<noteq> []" "length s \<le> 63" "hd s \<noteq> hyphen" "last s \<noteq> hyphen" "\<forall>c\<in>set s. host_char c"
    using assms(1) by (simp_all add: is_valid_hostname_iff)
  then have low: "map to_ascii_lower (map of_char s) = (map of_char s :: nat list)" by (simp add: to_ascii_lower_host)
  have "fold_label [] (map to_ascii_lower (map of_char s)) = s"
    unfolding low using fold_label_id [of s "[]"] s(5) assms(2) by simp
  moreover have "trim_hyphens s = s" using s trim_end_id [of s] by (cases s) (auto simp: trim_hyphens_def)
  ultimately show ?thesis using s assms trim_end_id [of s] by (simp add: mesh_form_def Let_def)
qed

lemma mesh_form_shape:
  assumes "mesh_form raw = Some s"
  shows "is_valid_hostname s" and "s \<notin> set placeholders" and "no_double s"
proof -
  define f where "f = fold_label [] (map to_ascii_lower raw)"
  have s: "s = trim_end_hyphens (take 63 (trim_hyphens f))" "is_valid_hostname s" "s \<notin> set placeholders"
    using assms by (auto simp: mesh_form_def Let_def f_def split: if_splits)
  show "is_valid_hostname s" "s \<notin> set placeholders" by fact+
  have "no_double f" using fold_label_shape [of "[]"] by (simp add: f_def)
  obtain a b t where "f = a @ b" "b = dropWhile (\<lambda>c. c = hyphen) f" "b = trim_hyphens f @ t"
    using trim_end_decomp takeWhile_dropWhile_id [of _ f] unfolding trim_hyphens_def by metis
  then have "no_double (trim_hyphens f)" using \<open>no_double f\<close> by (metis successively_part)
  then have "no_double (take 63 (trim_hyphens f))" by (metis append_take_drop_id successively_append_iff)
  then show "no_double s" unfolding s(1) using trim_end_decomp by (metis successively_append_iff)
qed

section \<open>Properties\<close>

text \<open>C37. Every machine gets a name of its own: for a valid desired name and any list of fewer than
  \<open>2\<^sup>3\<^sup>2 - 1\<close> taken ones, collision resolution ends with a valid hostname that is not taken, and that is
  the desired one whenever it is free.\<close>

theorem resolve_collision_total:
  assumes "is_valid_hostname desired" and "length taken + 1 < 2 ^ 32"
  shows "\<exists>name. resolve_collision desired taken = Some name \<and> is_valid_hostname name \<and> name \<notin> set taken \<and>
    (desired \<notin> set taken \<longrightarrow> name = desired)"
proof (cases "desired \<in> set taken")
  case True
  obtain d where d: "d \<le> length taken" "suffixed desired (1 + d) \<notin> set taken" by (rule free_suffix)
  with assms(2) have "1 + d < 2 ^ 32" by linarith
  with collision_loop_hits [OF d(2)] obtain j where "j < 2 ^ 32"
    "collision_loop desired taken 1 = Some (suffixed desired j)" "suffixed desired j \<notin> set taken" by blast
  with True suffixed_valid [OF assms(1)] show ?thesis by (simp add: resolve_collision_def)
qed (use assms(1) in \<open>simp add: resolve_collision_def\<close>)

theorem resolve_collision_total_witness:
  "is_valid_hostname ''web'' \<and> resolve_collision ''web'' [''web'', ''web-1''] = Some ''web-2'' \<and>
   (\<exists>name. resolve_collision ''web'' [''web'', ''web-1''] = Some name \<and> is_valid_hostname name \<and> name \<notin> {''web'', ''web-1''})"
proof -
  have v: "is_valid_hostname ''web''" by (simp add: is_valid_hostname_def host_char_def is_lower_def)
  have d: "digit_char 1 = CHR ''1''" "digit_char 2 = CHR ''2''" by code_simp+
  have "show_nat 1 = ''1''" "show_nat 2 = ''2''" using d by (simp_all add: show_nat.simps)
  then have n: "suffixed ''web'' 1 = ''web-1''" "suffixed ''web'' 2 = ''web-2''"
    by (simp_all add: suffixed_def trim_end_hyphens_def)
  have "collision_loop ''web'' [''web'', ''web-1''] 2 = Some ''web-2''"
    using n(2) by (subst collision_loop.simps) simp
  then have "collision_loop ''web'' [''web'', ''web-1''] 1 = Some ''web-2''"
    using n(1) by (subst collision_loop.simps) (simp add: Suc_1 [unfolded One_nat_def])
  then have "resolve_collision ''web'' [''web'', ''web-1''] = Some ''web-2''" by (simp add: resolve_collision_def)
  with v resolve_collision_total [OF v, of "[''web'', ''web-1'']"] show ?thesis by simp
qed

text \<open>Folding a device name gives a normal form: the result is a valid hostname, is none of the
  names several machines would share, and folds to itself.\<close>

theorem mesh_form_normal:
  assumes "mesh_form raw = Some name"
  shows "is_valid_hostname name \<and> name \<notin> {''localhost'', ''unknown'', ''android''} \<and>
    mesh_form (map of_char name) = Some name"
  using mesh_form_shape [OF assms] mesh_form_id [of name] by (simp add: placeholders_def)

theorem mesh_form_normal_witness:
  "mesh_form [66, 111, 98, 39, 115, 32, 32, 66, 111, 120] = Some ''bob-box'' \<and> is_valid_hostname ''bob-box''"
proof -
  have "mesh_form [66, 111, 98, 39, 115, 32, 32, 66, 111, 120] = Some ''bob-box''"
  proof -
    have c: "char_of (98 :: nat) = CHR ''b''" "char_of (111 :: nat) = CHR ''o''" "char_of (120 :: nat) = CHR ''x''"
      by code_simp+
    have "fold_label [] (map to_ascii_lower [66, 111, 98, 39, 115, 32, 32, 66, 111, 120]) = ''bob-box''"
      by (simp add: to_ascii_lower_def possessive_def ascii_lower_or_digit_def ascii_alphanumeric_def c)
    then show ?thesis
      by (simp add: mesh_form_def trim_hyphens_def trim_end_hyphens_def is_valid_hostname_def host_char_def
          is_lower_def placeholders_def)
  qed
  with mesh_form_normal [OF this] show ?thesis by simp
qed

end
