(* ===== verification/Ordered_Map.thy ===== *)
theory Ordered_Map
  imports Ray_Prelude
begin

text \<open>
  \<open>BTreeMap\<close> as its sorted association list, and the contract of the stores the daemon builds on it:
  entries that carry their own key, inserted, removed, looked up, listed in key order and rebuilt
  from a list.
\<close>

section \<open>Sorted association lists\<close>

type_synonym ('k, 'v) btree_map = "('k \<times> 'v) list"

fun bt_insert :: "'k :: linorder \<Rightarrow> 'v \<Rightarrow> ('k, 'v) btree_map \<Rightarrow> ('k, 'v) btree_map" where
  "bt_insert k v [] = [(k, v)]"
| "bt_insert k v ((k', v') # m) =
     (if k < k' then (k, v) # (k', v') # m else if k = k' then (k, v) # m else (k', v') # bt_insert k v m)"

definition bt_remove :: "'k \<Rightarrow> ('k, 'v) btree_map \<Rightarrow> ('k, 'v) btree_map" where
  "bt_remove k m = filter (\<lambda>(k', _). k' \<noteq> k) m"

definition bt_update :: "'k \<Rightarrow> ('v \<Rightarrow> 'v) \<Rightarrow> ('k, 'v) btree_map \<Rightarrow> ('k, 'v) btree_map" where
  "bt_update k f m = map (\<lambda>(k', v). (k', if k' = k then f v else v)) m"

definition bt_values :: "('k, 'v) btree_map \<Rightarrow> 'v list" where
  "bt_values m = map snd m"

definition bt_ok :: "('k :: linorder, 'v) btree_map \<Rightarrow> bool" where
  "bt_ok m \<longleftrightarrow> sorted_wrt (<) (map fst m)"

lemma bt_ok_Nil [simp]: "bt_ok []"
  by (simp add: bt_ok_def)

lemma bt_ok_Cons: "bt_ok ((k, v) # m) \<longleftrightarrow> (\<forall>k'\<in>fst ` set m. k < k') \<and> bt_ok m"
  by (auto simp: bt_ok_def)

lemma bt_ok_distinct: "bt_ok m \<Longrightarrow> distinct (map fst m)"
  by (induction m) (auto simp: bt_ok_def)

lemma fst_bt_insert [simp]: "fst ` set (bt_insert k v m) = insert k (fst ` set m)"
  by (induction k v m rule: bt_insert.induct) auto

lemma bt_ok_insert [simp]: "bt_ok m \<Longrightarrow> bt_ok (bt_insert k v m)"
  by (induction k v m rule: bt_insert.induct) (fastforce simp: bt_ok_Cons)+

lemma bt_ok_remove [simp]: "bt_ok m \<Longrightarrow> bt_ok (bt_remove k m)"
  by (induction m) (auto simp: bt_ok_def bt_remove_def)

lemma bt_ok_update [simp]: "bt_ok (bt_update k f m) \<longleftrightarrow> bt_ok m"
  by (simp add: bt_ok_def bt_update_def case_prod_beta comp_def)

lemma bt_get_insert [simp]: "bt_ok m \<Longrightarrow> map_of (bt_insert k v m) k' = (if k' = k then Some v else map_of m k')"
proof (induction k v m rule: bt_insert.induct)
  case (2 k v k0 v0 m)
  then show ?case by (auto simp: bt_ok_Cons)
qed simp

lemma bt_get_remove [simp]: "map_of (bt_remove k m) k' = (if k' = k then None else map_of m k')"
  by (induction m) (auto simp: bt_remove_def)

lemma bt_get_update [simp]: "map_of (bt_update k f m) k' = (if k' = k then map_option f (map_of m k') else map_of m k')"
  by (induction m) (auto simp: bt_update_def)

lemma bt_ext:
  assumes "bt_ok m" and "bt_ok m'" and "\<And>k. map_of m k = map_of m' k"
  shows "m = m'"
proof -
  have rebuild: "map (\<lambda>k. (k, the (map_of x k))) (map fst x) = x" if "bt_ok x" for x :: "('a, 'b) btree_map"
    unfolding map_map using bt_ok_distinct [OF that] by (intro map_idI) auto
  have "fst ` set m = fst ` set m'" using assms(3) by (metis dom_map_of_conv_image_fst ext)
  then have "map fst m = map fst m'"
    using assms(1,2) by (simp add: bt_ok_def strict_sorted_equal)
  with rebuild [OF assms(1)] rebuild [OF assms(2)] assms(3) show ?thesis by simp
qed

section \<open>Keyed stores\<close>

locale keyed_store =
  fixes empty :: 's
    and put :: "'e \<Rightarrow> 's \<Rightarrow> 's"
    and del :: "'k \<Rightarrow> 's \<Rightarrow> 's"
    and look :: "'s \<Rightarrow> 'k \<Rightarrow> 'e option"
    and entries :: "'s \<Rightarrow> 'e list"
    and key :: "'e \<Rightarrow> 'k"
    and ok :: "'s \<Rightarrow> bool"
  assumes ok_empty: "ok empty"
    and ok_put: "ok s \<Longrightarrow> ok (put e s)"
    and ok_del: "ok s \<Longrightarrow> ok (del k s)"
    and look_empty: "look empty k = None"
    and look_put: "ok s \<Longrightarrow> look (put e s) k = (if k = key e then Some e else look s k)"
    and look_del: "ok s \<Longrightarrow> look (del k s) k' = (if k' = k then None else look s k')"
    and look_entries: "ok s \<Longrightarrow> look s k = Some e \<longleftrightarrow> e \<in> set (entries s) \<and> key e = k"
    and entries_distinct: "ok s \<Longrightarrow> distinct (map key (entries s))"
    and store_ext: "ok s \<Longrightarrow> ok s' \<Longrightarrow> (\<And>k. look s k = look s' k) \<Longrightarrow> s = s'"
begin

definition fill :: "'e list \<Rightarrow> 's" where
  "fill es = fold put es empty"

lemma ok_fold: "ok s \<Longrightarrow> ok (fold put es s)"
  by (induction es arbitrary: s) (simp_all add: ok_put)

lemma ok_fill: "ok (fill es)"
  by (simp add: fill_def ok_fold ok_empty)

lemma look_fold:
  "ok s \<Longrightarrow> look (fold put es s) k = (case find (\<lambda>e. key e = k) (rev es) of Some e \<Rightarrow> Some e | None \<Rightarrow> look s k)"
proof (induction es rule: rev_induct)
  case (snoc e es)
  then show ?case using ok_fold [of s es] by (auto simp: look_put)
qed simp

lemma look_fill: "look (fill es) k = find (\<lambda>e. key e = k) (rev es)"
  by (simp add: fill_def look_fold ok_empty look_empty split: option.split)

text \<open>With one entry per key, the order of insertion does not matter.\<close>

lemma find_distinct:
  assumes "distinct (map key es)" and "mset es = mset es'"
  shows "find (\<lambda>e. key e = k) es = find (\<lambda>e. key e = k) es'"
proof -
  have d: "find (\<lambda>e. key e = k) xs = Some e \<longleftrightarrow> e \<in> set xs \<and> key e = k" if "distinct (map key xs)" for xs e
    using that by (induction xs) (auto simp: image_iff)
  have "distinct (map key es')" using assms by (metis mset_eq_imp_distinct_iff mset_map)
  then have "find (\<lambda>e. key e = k) es = Some e \<longleftrightarrow> find (\<lambda>e. key e = k) es' = Some e" for e
    using d [OF assms(1)] d [of es'] assms(2) by (metis set_mset_mset)
  then show ?thesis by (metis option.exhaust_sel)
qed

lemma fill_perm: "distinct (map key es) \<Longrightarrow> mset es = mset es' \<Longrightarrow> fill es = fill es'"
proof (rule store_ext)
  fix k
  assume "distinct (map key es)" "mset es = mset es'"
  then show "look (fill es) k = look (fill es') k"
    unfolding look_fill by (intro find_distinct) (simp_all add: rev_map [symmetric])
qed (simp_all add: ok_fill)

text \<open>A store rebuilt from its listing is the store.\<close>

lemma fill_entries: "ok s \<Longrightarrow> fill (entries s) = s"
proof (rule store_ext)
  fix k
  assume s: "ok s"
  have "find (\<lambda>e. key e = k) (rev xs) = Some e \<longleftrightarrow> e \<in> set xs \<and> key e = k" if "distinct (map key xs)" for xs e
    using that by (induction xs rule: rev_induct) (auto simp: image_iff)
  from this [OF entries_distinct [OF s]] look_entries [OF s]
  have "look (fill (entries s)) k = Some e \<longleftrightarrow> look s k = Some e" for e by (simp add: look_fill)
  then show "look (fill (entries s)) k = look s k" by (metis option.exhaust_sel)
qed (simp_all add: ok_fill)

end

end
