(* ===== verification/Membership.thy ===== *)
theory Membership
  imports Ordered_Map Firewall_Text "HOL-Library.List_Lexorder" "HOL-Library.Char_ord"
begin

text \<open>
  Network membership, \<open>src/src/membership.rs\<close>: exit-family claims, the member and approved lists, mesh
  address derivation, reusable join keys and the group blob, with the device certificate of
  \<open>src/src/control.rs\<close>. An endpoint id is its 32 bytes as a 256-bit word, so the byte order of the source
  is the order of the word. BLAKE3, the ed25519 verifier, the msgpack codec and the parsers of
  textual addresses and identities are parameters.
\<close>

declare add_2_eq_Suc [simp del] add_2_eq_Suc' [simp del]

section \<open>Definitions\<close>

subsection \<open>Exit families\<close>

datatype exit_families = FamUnknown | FamV4 | FamV6 | FamDual | FamNeither

definition carries_v6 :: "exit_families \<Rightarrow> bool" where
  "carries_v6 f \<longleftrightarrow> f \<in> {FamDual, FamV6}"

definition carries_v4 :: "exit_families \<Rightarrow> bool" where
  "carries_v4 f \<longleftrightarrow> f \<in> {FamDual, FamV4}"

definition carries :: "exit_families \<Rightarrow> ip_addr \<Rightarrow> bool" where
  "carries f ip = (case ip of V4 _ \<Rightarrow> carries_v4 f | V6 _ \<Rightarrow> carries_v6 f)"

definition is_unknown :: "exit_families \<Rightarrow> bool" where
  "is_unknown f \<longleftrightarrow> f = FamUnknown"

definition tunnelled :: "exit_families \<Rightarrow> exit_families" where
  "tunnelled f = (if is_unknown f then FamV6 else f)"

definition from_uplinks :: "bool \<Rightarrow> bool \<Rightarrow> exit_families" where
  "from_uplinks has_v4 has_v6 =
     (if has_v4 \<and> has_v6 then FamDual else if has_v4 then FamV4 else if has_v6 then FamV6 else FamNeither)"

subsection \<open>Device certificates\<close>

record device_cert =
  dc_user_identity :: endpoint_id
  dc_device_key :: endpoint_id
  dc_generation :: u64
  dc_signature :: bytes

definition id_bytes :: "endpoint_id \<Rightarrow> bytes" where
  "id_bytes i = be_bytes 32 (unat i)"

definition signing_bytes :: "endpoint_id \<Rightarrow> u64 \<Rightarrow> bytes" where
  "signing_bytes device gen = id_bytes device @ (if gen > 0 then rev (to_be64 gen) else [])"

definition cert_create :: "(bytes \<Rightarrow> bytes) \<Rightarrow> endpoint_id \<Rightarrow> endpoint_id \<Rightarrow> u64 \<Rightarrow> device_cert" where
  "cert_create sign public device gen =
     \<lparr> dc_user_identity = public, dc_device_key = device, dc_generation = gen,
       dc_signature = sign (signing_bytes device gen) \<rparr>"

definition cert_verify :: "(endpoint_id \<Rightarrow> bytes \<Rightarrow> bytes \<Rightarrow> bool) \<Rightarrow> device_cert \<Rightarrow> bool" where
  "cert_verify verify c =
     verify (dc_user_identity c) (signing_bytes (dc_device_key c) (dc_generation c)) (dc_signature c)"

subsection \<open>Members\<close>

record member =
  m_identity :: endpoint_id
  m_is_coordinator :: bool
  m_hostname :: "string option"
  m_user_identity :: "endpoint_id option"
  m_device_cert :: "device_cert option"
  m_last_seen :: "u64 option"
  m_exit_node :: bool
  m_exit_families :: exit_families

definition matches_identity :: "member \<Rightarrow> endpoint_id \<Rightarrow> bool" where
  "matches_identity m i \<longleftrightarrow> m_identity m = i \<or> m_user_identity m = Some i"

type_synonym member_list = "(endpoint_id, member) btree_map"

definition ml_add :: "member \<Rightarrow> member_list \<Rightarrow> member_list" where
  "ml_add m ms = bt_insert (m_identity m) m ms"

definition ml_remove :: "endpoint_id \<Rightarrow> member_list \<Rightarrow> member option \<times> member_list" where
  "ml_remove i ms = (map_of ms i, bt_remove i ms)"

definition ml_get :: "member_list \<Rightarrow> endpoint_id \<Rightarrow> member option" where
  "ml_get ms i = map_of ms i"

definition is_member :: "member_list \<Rightarrow> endpoint_id \<Rightarrow> bool" where
  "is_member ms i \<longleftrightarrow> map_of ms i \<noteq> None"

definition ml_iter :: "member_list \<Rightarrow> member list" where
  "ml_iter ms = bt_values ms"

definition ml_from :: "member list \<Rightarrow> member_list" where
  "ml_from ms = fold ml_add ms []"

definition mark_coordinator :: "endpoint_id \<Rightarrow> member_list \<Rightarrow> member_list" where
  "mark_coordinator i ms = bt_update i (\<lambda>m. m \<lparr> m_is_coordinator := True \<rparr>) ms"

record approved_entry =
  ae_identity :: endpoint_id
  ae_hostname :: "string option"
  ae_user_identity :: "endpoint_id option"
  ae_device_cert :: "device_cert option"

type_synonym approved_list = "(endpoint_id, approved_entry) btree_map"

definition approve :: "approved_entry \<Rightarrow> approved_list \<Rightarrow> approved_list" where
  "approve e es = bt_insert (ae_identity e) e es"

definition is_approved :: "approved_list \<Rightarrow> endpoint_id \<Rightarrow> bool" where
  "is_approved es i \<longleftrightarrow> map_of es i \<noteq> None"

definition al_remove :: "endpoint_id \<Rightarrow> approved_list \<Rightarrow> approved_entry option \<times> approved_list" where
  "al_remove i es = (map_of es i, bt_remove i es)"

definition al_iter :: "approved_list \<Rightarrow> approved_entry list" where
  "al_iter es = bt_values es"

definition al_from :: "approved_entry list \<Rightarrow> approved_list" where
  "al_from es = fold approve es []"

subsection \<open>Addresses\<close>

definition hex_digit :: "nat \<Rightarrow> char" where
  "hex_digit d = char_of (if d < 10 then 48 + d else 87 + d)"

definition hex_string :: "bytes \<Rightarrow> string" where
  "hex_string bs = concat (map (\<lambda>b. [hex_digit (unat b div 16), hex_digit (unat b mod 16)]) bs)"

definition str_bytes :: "string \<Rightarrow> bytes" where
  "str_bytes s = map (\<lambda>c. word_of_nat (of_char c)) s"

definition show_id :: "endpoint_id \<Rightarrow> string" where
  "show_id i = hex_string (id_bytes i)"

definition derive_ipv6 :: "(bytes \<Rightarrow> bytes) \<Rightarrow> endpoint_id \<Rightarrow> ipv6_addr" where
  "derive_ipv6 blake3 i = v6_of_octets (0x02 # take 15 (blake3 (str_bytes (show_id i))))"

definition is_overlay_ip :: "ip_addr \<Rightarrow> bool" where
  "is_overlay_ip ip = (case ip of V6 a \<Rightarrow> and (drop_bit 112 a) 0xfe00 = 0x0200 | V4 _ \<Rightarrow> False)"

definition is_cgnat_range :: "ipv4_addr \<Rightarrow> bool" where
  "is_cgnat_range a \<longleftrightarrow> (let os = v4_octets a in os ! 0 = 100 \<and> and (os ! 1) 0xC0 = 64)"

subsection \<open>Selectors\<close>

definition resolve_peer_literal ::
    "(bytes \<Rightarrow> bytes) \<Rightarrow> (string \<Rightarrow> ipv6_addr option) \<Rightarrow> (string \<Rightarrow> endpoint_id option) \<Rightarrow> member_list \<Rightarrow> string \<Rightarrow> endpoint_id option" where
  "resolve_peer_literal blake3 parse_v6 parse_id ms name =
     (case Option.bind (parse_v6 name) (\<lambda>v6. find (\<lambda>m. derive_ipv6 blake3 (m_identity m) = v6) (ml_iter ms)) of
        Some m \<Rightarrow> Some (m_identity m)
      | None \<Rightarrow>
          (case Option.bind (parse_id name) (\<lambda>i. find (\<lambda>m. matches_identity m i) (ml_iter ms)) of
             Some m \<Rightarrow> Some (m_identity m)
           | None \<Rightarrow> None))"

definition prefix_matches :: "string \<Rightarrow> member \<Rightarrow> bool" where
  "prefix_matches selector m \<longleftrightarrow>
     prefix selector (show_id (m_identity m)) \<or>
     (case m_user_identity m of Some u \<Rightarrow> prefix selector (show_id u) | None \<Rightarrow> False)"

definition resolve_peer_selector ::
    "(bytes \<Rightarrow> bytes) \<Rightarrow> (string \<Rightarrow> ipv6_addr option) \<Rightarrow> (string \<Rightarrow> endpoint_id option) \<Rightarrow> member_list \<Rightarrow> string \<Rightarrow> endpoint_id option" where
  "resolve_peer_selector blake3 parse_v6 parse_id ms selector =
     (case map m_identity (filter (\<lambda>m. m_hostname m = Some selector) (ml_iter ms)) of
        [i] \<Rightarrow> Some i
      | [] \<Rightarrow>
          (case resolve_peer_literal blake3 parse_v6 parse_id ms selector of
             Some i \<Rightarrow> Some i
           | None \<Rightarrow>
               (case map m_identity (filter (prefix_matches selector) (ml_iter ms)) of
                  [i] \<Rightarrow> Some i
                | _ \<Rightarrow> None))
      | _ \<Rightarrow> None)"

subsection \<open>Reusable keys\<close>

definition hash_secret :: "(bytes \<Rightarrow> bytes) \<Rightarrow> bytes \<Rightarrow> string" where
  "hash_secret blake3 secret = hex_string (blake3 secret)"

definition saturating_add64 :: "u64 \<Rightarrow> u64 \<Rightarrow> u64" where
  "saturating_add64 a b = (if unat a + unat b \<ge> 2 ^ 64 then - 1 else a + b)"

record reusable_key =
  rk_id :: string
  rk_created :: u64
  rk_expires :: u64
  rk_revoked :: bool

definition reusable_from_secret :: "(bytes \<Rightarrow> bytes) \<Rightarrow> bytes \<Rightarrow> u64 \<Rightarrow> u64 \<Rightarrow> string \<times> reusable_key" where
  "reusable_from_secret blake3 secret created ttl =
     (let h = hash_secret blake3 secret in
      (h, \<lparr> rk_id = take 8 h, rk_created = created, rk_expires = saturating_add64 created ttl, rk_revoked = False \<rparr>))"

datatype key_error = AmbiguousKey string | NoSuchKey string

definition revoke_reusable ::
    "string \<Rightarrow> (string, reusable_key) btree_map \<Rightarrow> key_error + (string, reusable_key) btree_map" where
  "revoke_reusable i keys =
     (case filter (\<lambda>(h, k). prefix i (rk_id k)) keys of
        [] \<Rightarrow> Inl (NoSuchKey i)
      | [(h, _)] \<Rightarrow> Inr (bt_update h (\<lambda>k. k \<lparr> rk_revoked := True \<rparr>) keys)
      | _ \<Rightarrow> Inl (AmbiguousKey i))"

definition validate_reusable_key ::
    "(bytes \<Rightarrow> bytes) \<Rightarrow> (string, reusable_key) btree_map \<Rightarrow> bytes \<Rightarrow> u64 \<Rightarrow> reusable_key option" where
  "validate_reusable_key blake3 keys secret now =
     (case map_of keys (hash_secret blake3 secret) of
        None \<Rightarrow> None
      | Some k \<Rightarrow> if rk_revoked k \<or> now \<ge> rk_expires k then None else Some k)"

subsection \<open>The group blob\<close>

record group_blob =
  gb_members :: member_list
  gb_approved :: approved_list
  gb_suggested_firewall :: suggested_firewall
  gb_name :: "string option"
  gb_reusable_keys :: "(string, reusable_key) btree_map"
  gb_nullifiers :: "endpoint_id list"

text \<open>What the serializer is given: the two lists as plain sequences, the maps and the set in key order.\<close>

type_synonym group_wire =
  "member list \<times> approved_entry list \<times> suggested_firewall \<times> string option \<times> (string, reusable_key) btree_map \<times> endpoint_id list"

definition blob_wire :: "group_blob \<Rightarrow> group_wire" where
  "blob_wire b = (ml_iter (gb_members b), al_iter (gb_approved b), gb_suggested_firewall b, gb_name b,
     gb_reusable_keys b, gb_nullifiers b)"

definition wire_blob :: "group_wire \<Rightarrow> group_blob" where
  "wire_blob w = (case w of (ms, es, sf, n, ks, ns) \<Rightarrow>
     \<lparr> gb_members = ml_from ms, gb_approved = al_from es, gb_suggested_firewall = sf, gb_name = n,
       gb_reusable_keys = ks, gb_nullifiers = ns \<rparr>)"

definition canonical_group_bytes :: "(group_wire \<Rightarrow> bytes) \<Rightarrow> group_blob \<Rightarrow> bytes" where
  "canonical_group_bytes pack b = pack (blob_wire b)"

definition group_blob_hash :: "(bytes \<Rightarrow> bytes) \<Rightarrow> (group_wire \<Rightarrow> bytes) \<Rightarrow> group_blob \<Rightarrow> bytes" where
  "group_blob_hash blake3 pack b = blake3 (canonical_group_bytes pack b)"

datatype blob_error = BadBlob | HashMismatch bytes bytes

definition decode_group_blob :: "(bytes \<Rightarrow> group_wire option) \<Rightarrow> bytes \<Rightarrow> blob_error + group_blob" where
  "decode_group_blob unpack bs = (case unpack bs of None \<Rightarrow> Inl BadBlob | Some w \<Rightarrow> Inr (wire_blob w))"

definition verify_group_blob ::
    "(bytes \<Rightarrow> bytes) \<Rightarrow> (bytes \<Rightarrow> group_wire option) \<Rightarrow> bytes \<Rightarrow> bytes \<Rightarrow> blob_error + group_blob" where
  "verify_group_blob blake3 unpack bs expected =
     (let actual = blake3 bs in
      if actual \<noteq> expected then Inl (HashMismatch expected actual) else decode_group_blob unpack bs)"

definition trusted_reconverge_hash :: "bytes option \<Rightarrow> bytes \<Rightarrow> bytes option" where
  "trusted_reconverge_hash current committed = (if current = Some committed then None else Some committed)"

section \<open>The lists are keyed stores\<close>

definition ml_ok :: "member_list \<Rightarrow> bool" where
  "ml_ok ms \<longleftrightarrow> bt_ok ms \<and> (\<forall>(i, m)\<in>set ms. m_identity m = i)"

definition al_ok :: "approved_list \<Rightarrow> bool" where
  "al_ok es \<longleftrightarrow> bt_ok es \<and> (\<forall>(i, e)\<in>set es. ae_identity e = i)"

text \<open>Both lists map an entry's own identity to it.\<close>

definition self_keyed :: "('v \<Rightarrow> 'k :: linorder) \<Rightarrow> ('k, 'v) btree_map \<Rightarrow> bool" where
  "self_keyed key m \<longleftrightarrow> bt_ok m \<and> (\<forall>(k, v)\<in>set m. key v = k)"

lemma set_bt_insert: "set (bt_insert k v m) \<subseteq> insert (k, v) (set m)"
  by (induction k v m rule: bt_insert.induct) auto

lemma self_keyed_store:
  "keyed_store [] (\<lambda>e. bt_insert (key e) e) bt_remove map_of bt_values key (self_keyed key)"
proof
  fix s s' :: "('a, 'b) btree_map" and e :: 'b and k k' :: 'a
  show "self_keyed key []" by (simp add: self_keyed_def)
  show "self_keyed key (bt_insert (key e) e s)" if "self_keyed key s"
    using that set_bt_insert [of "key e" e s] by (auto simp: self_keyed_def)
  show "self_keyed key (bt_remove k s)" if "self_keyed key s"
    using that by (auto simp: self_keyed_def bt_remove_def [of k s] bt_ok_remove [unfolded bt_remove_def])
  show "map_of [] k = (None :: 'b option)" by simp
  show "map_of (bt_insert (key e) e s) k = (if k = key e then Some e else map_of s k)" if "self_keyed key s"
    using that by (simp add: self_keyed_def)
  show "map_of (bt_remove k s) k' = (if k' = k then None else map_of s k')" by simp
  show "map_of s k = Some e \<longleftrightarrow> e \<in> set (bt_values s) \<and> key e = k" if "self_keyed key s"
    using that bt_ok_distinct [of s] by (force simp: self_keyed_def bt_values_def)
  have "map key (bt_values s) = map fst s" if "self_keyed key s"
    using that by (auto simp: self_keyed_def bt_values_def)
  then show "distinct (map key (bt_values s))" if "self_keyed key s"
    using that bt_ok_distinct [of s] by (simp add: self_keyed_def)
  show "s = s'" if "self_keyed key s" "self_keyed key s'" "\<And>k. map_of s k = map_of s' k"
    using that bt_ext [of s s'] by (simp add: self_keyed_def)
qed

interpretation mlist: keyed_store "[]" ml_add bt_remove ml_get ml_iter m_identity ml_ok
  using self_keyed_store [of m_identity]
  unfolding ml_add_def [abs_def] ml_get_def [abs_def] ml_iter_def [abs_def] ml_ok_def [abs_def] self_keyed_def [abs_def] .

interpretation alist: keyed_store "[]" approve bt_remove map_of al_iter ae_identity al_ok
  using self_keyed_store [of ae_identity]
  unfolding approve_def [abs_def] al_iter_def [abs_def] al_ok_def [abs_def] self_keyed_def [abs_def] .

section \<open>Lemmas\<close>

subsection \<open>Addresses\<close>

lemma and_push_bit: "and x (push_bit k y) = push_bit k (and (drop_bit k x) y)" for x :: "'a :: len word"
  by (rule bit_eqI) (auto simp: bit_simps)

lemma and_fe00: "and (x :: 128 word) 0xfe00 = push_bit 9 (and (drop_bit 9 x) 0x7f)"
  using and_push_bit [of x 9 "0x7f"] by simp

lemma overlay_prefix:
  assumes "length bs = 15"
  shows "is_overlay_ip (V6 (v6_of_octets (0x02 # bs)))"
proof -
  define n where "n = be_nat (0x02 # bs)"
  have b: "be_nat bs < 256 ^ 15" using be_nat_bound [of bs] assms by simp
  have n: "n = 2 * 256 ^ 15 + be_nat bs" by (simp add: n_def be_nat_Cons assms)
  then have "n div 2 ^ 121 = 1" using b by simp
  moreover have "n < 2 ^ 128" using n b by simp
  then have "unat (word_of_nat n :: 128 word) = n" by (simp add: unat_of_nat_small)
  ultimately have "unat (drop_bit 121 (word_of_nat n :: 128 word)) = 1"
    unfolding unat_drop_bit_eq by (simp add: drop_bit_eq_div)
  then have "drop_bit 121 (word_of_nat n :: 128 word) = 1"
    by (intro unsigned_word_eqI [where 'a = nat]) simp
  then have "drop_bit 9 (drop_bit 112 (word_of_nat n :: 128 word)) = 1" by simp
  then show ?thesis by (simp add: is_overlay_ip_def v6_of_octets_def n_def [symmetric] and_fe00)
qed

subsection \<open>Certificates\<close>

interpretation idc: wire_codec 32 id_bytes "\<lambda>bs. word_of_nat (be_nat bs) :: endpoint_id"
  unfolding id_bytes_def by (rule word_be_codec) simp

lemma signing_bytes_inject: "signing_bytes d g = signing_bytes d' g' \<longleftrightarrow> d = d' \<and> g = g'"
proof
  assume eq: "signing_bytes d g = signing_bytes d' g'"
  have t: "take 32 (signing_bytes x y) = id_bytes x" "drop 32 (signing_bytes x y) = (if y > 0 then rev (to_be64 y) else [])" for x y
    by (simp_all add: signing_bytes_def idc.length_enc)
  have ids: "id_bytes d = id_bytes d'" using t(1) eq by metis
  have "(if g > 0 then rev (to_be64 g) else []) = (if g' > 0 then rev (to_be64 g') else [])" using t(2) eq by metis
  moreover have "to_be64 x \<noteq> []" for x using be64.length_enc [of x] by (metis list.size(3) zero_neq_numeral)
  ultimately have "g = g'" using be64.enc_inject [of g g'] by (auto split: if_splits simp: word_gt_0)
  with ids show "d = d' \<and> g = g'" by (simp add: idc.enc_inject)
qed simp

subsection \<open>Blobs\<close>

lemma ml_from_fill: "ml_from = mlist.fill"
  by (simp add: fun_eq_iff ml_from_def mlist.fill_def)

lemma al_from_fill: "al_from = alist.fill"
  by (simp add: fun_eq_iff al_from_def alist.fill_def)

lemma wire_blob_wire: "ml_ok (gb_members b) \<Longrightarrow> al_ok (gb_approved b) \<Longrightarrow> wire_blob (blob_wire b) = b"
  by (simp add: wire_blob_def blob_wire_def ml_from_fill al_from_fill mlist.fill_entries alist.fill_entries)

subsection \<open>Selecting members\<close>

lemma ml_iter_member: "ml_ok ms \<Longrightarrow> m \<in> set (ml_iter ms) \<Longrightarrow> is_member ms (m_identity m)"
  using mlist.look_entries [of ms "m_identity m" m] by (auto simp: is_member_def ml_get_def)

lemma singleton_map_filter: "map f (filter P xs) = [i] \<Longrightarrow> \<exists>x. filter P xs = [x] \<and> f x = i \<and> x \<in> set xs \<and> P x"
proof -
  assume "map f (filter P xs) = [i]"
  then obtain x where x: "filter P xs = [x]" "f x = i" by (auto simp: map_eq_Cons_conv)
  then have "x \<in> set (filter P xs)" by simp
  then have "x \<in> set xs" "P x" by (simp_all only: set_filter mem_Collect_eq)
  with x show ?thesis by blast
qed

lemma resolve_peer_literal_member:
  assumes "ml_ok ms" and "resolve_peer_literal blake3 parse_v6 parse_id ms name = Some i"
  shows "is_member ms i"
  using assms(2) ml_iter_member [OF assms(1)]
  unfolding resolve_peer_literal_def by (auto split: option.splits bind_splits dest!: find_map_filter)

section \<open>Properties\<close>

text \<open>C26. Equal rosters have equal bytes: two coordinators that hold the same members and approved
  entries, whatever order they learnt them in, publish the same bytes and so the same hash.\<close>

theorem group_bytes_canonical:
  assumes "distinct (map m_identity ms)" and "mset ms = mset ms'"
    and "distinct (map ae_identity es)" and "mset es = mset es'"
  shows "canonical_group_bytes pack (b \<lparr> gb_members := ml_from ms, gb_approved := al_from es \<rparr>) =
    canonical_group_bytes pack (b \<lparr> gb_members := ml_from ms', gb_approved := al_from es' \<rparr>)"
  using mlist.fill_perm [OF assms(1,2)] alist.fill_perm [OF assms(3,4)]
  by (simp add: canonical_group_bytes_def ml_from_fill al_from_fill)

definition sample_member :: "endpoint_id \<Rightarrow> string \<Rightarrow> member" where
  "sample_member i h = \<lparr> m_identity = i, m_is_coordinator = False, m_hostname = Some h, m_user_identity = None,
     m_device_cert = None, m_last_seen = None, m_exit_node = False, m_exit_families = FamUnknown \<rparr>"

definition empty_blob :: group_blob where
  "empty_blob = \<lparr> gb_members = [], gb_approved = [], gb_suggested_firewall = [], gb_name = None, gb_reusable_keys = [],
     gb_nullifiers = [] \<rparr>"

theorem group_bytes_canonical_witness:
  "canonical_group_bytes (\<lambda>w. concat (map (\<lambda>m. id_bytes (m_identity m)) (fst w)))
     (empty_blob \<lparr> gb_members := ml_from [sample_member 1 ''a'', sample_member 2 ''b''], gb_approved := al_from [] \<rparr>) =
   canonical_group_bytes (\<lambda>w. concat (map (\<lambda>m. id_bytes (m_identity m)) (fst w)))
     (empty_blob \<lparr> gb_members := ml_from [sample_member 2 ''b'', sample_member 1 ''a''], gb_approved := al_from [] \<rparr>)"
  by (rule group_bytes_canonical) (simp_all add: sample_member_def)

text \<open>C11. A verified blob is the published one: a reader that checks fetched bytes against the hash of
  a consistent blob accepts the published bytes and gets back that very blob, and gets no other blob
  from any bytes that do not collide with them under the hash.\<close>

theorem verified_blob_is_published:
  assumes "ml_ok (gb_members b)" and "al_ok (gb_approved b)"
    and "unpack (pack (blob_wire b)) = Some (blob_wire b)"
    and "blake3 bs = blake3 (canonical_group_bytes pack b) \<longrightarrow> bs = canonical_group_bytes pack b"
  shows "verify_group_blob blake3 unpack (canonical_group_bytes pack b) (group_blob_hash blake3 pack b) = Inr b \<and>
    (\<forall>b'. verify_group_blob blake3 unpack bs (group_blob_hash blake3 pack b) = Inr b' \<longrightarrow> b' = b)"
  using assms wire_blob_wire [OF assms(1,2)]
  by (auto simp: verify_group_blob_def group_blob_hash_def decode_group_blob_def canonical_group_bytes_def Let_def
      split: if_splits)

theorem verified_blob_is_published_witness:
  "verify_group_blob (\<lambda>x. x) (\<lambda>x. if x = [1] then Some (blob_wire empty_blob) else None)
     (canonical_group_bytes (\<lambda>_. [1]) empty_blob) (group_blob_hash (\<lambda>x. x) (\<lambda>_. [1]) empty_blob) = Inr empty_blob"
proof -
  have "ml_ok (gb_members empty_blob)" "al_ok (gb_approved empty_blob)"
    by (simp_all add: empty_blob_def ml_ok_def al_ok_def)
  from verified_blob_is_published [OF this, of "\<lambda>x. if x = [1] then Some (blob_wire empty_blob) else None" "\<lambda>_. [1]"
      "\<lambda>x. x" "[]"]
  show ?thesis by simp
qed

text \<open>Every derived mesh address is an overlay address, so it is kept out of the transport
  candidates and inside the one route the daemon installs.\<close>

theorem derived_address_in_overlay:
  assumes "\<forall>x. length (blake3 x) = 32"
  shows "is_overlay_ip (V6 (derive_ipv6 blake3 i))"
  unfolding derive_ipv6_def by (rule overlay_prefix) (simp add: assms)

theorem derived_address_in_overlay_witness:
  "is_overlay_ip (V6 (derive_ipv6 (\<lambda>x. replicate 32 (word_of_nat (length x))) 5))"
  by (rule derived_address_in_overlay) simp

text \<open>C38. Revoking a reusable key takes effect on exactly one key: it succeeds exactly when one key's id
  starts with the given text; afterwards no secret of that key is admitted, at any time, and every
  other secret is treated as before.\<close>

theorem revoke_reusable_spec:
  assumes "bt_ok keys"
  shows "case revoke_reusable i keys of
      Inl e \<Rightarrow> \<not> (\<exists>!h. \<exists>k. map_of keys h = Some k \<and> prefix i (rk_id k))
    | Inr keys' \<Rightarrow> bt_ok keys' \<and>
        (\<exists>h k. map_of keys h = Some k \<and> prefix i (rk_id k) \<and>
          (\<forall>h' k'. map_of keys h' = Some k' \<and> prefix i (rk_id k') \<longrightarrow> h' = h) \<and>
          (\<forall>secret now. validate_reusable_key blake3 keys' secret now =
             (if hash_secret blake3 secret = h then None else validate_reusable_key blake3 keys secret now)))"
proof -
  define P where "P = (\<lambda>(h :: string, k :: reusable_key). prefix i (rk_id k))"
  have d: "distinct (map fst keys)" by (rule bt_ok_distinct [OF assms])
  have mem: "map_of keys h = Some k \<and> prefix i (rk_id k) \<longleftrightarrow> (h, k) \<in> set (filter P keys)" for h k
    using d by (auto simp: P_def)
  consider "filter P keys = []" | h k where "filter P keys = [(h, k)]" | h k h' k' xs where "filter P keys = (h, k) # (h', k') # xs"
    by (metis list.exhaust surj_pair)
  then show ?thesis
  proof cases
    case 1
    then have r: "revoke_reusable i keys = Inl (NoSuchKey i)" by (simp add: revoke_reusable_def P_def)
    show ?thesis unfolding r sum.case mem using 1 by auto
  next
    case (2 h k)
    define keys' where "keys' = bt_update h (\<lambda>k. k \<lparr> rk_revoked := True \<rparr>) keys"
    have r: "revoke_reusable i keys = Inr keys'" using 2 by (simp add: revoke_reusable_def P_def keys'_def)
    have hk: "map_of keys h = Some k" "prefix i (rk_id k)" using mem [of h k] 2 by simp_all
    have "validate_reusable_key blake3 keys' secret now =
        (if hash_secret blake3 secret = h then None else validate_reusable_key blake3 keys secret now)" for secret now
      using hk(1) by (simp add: validate_reusable_key_def keys'_def)
    moreover have "h' = h" if "map_of keys h' = Some k' \<and> prefix i (rk_id k')" for h' k' using that mem 2 by auto
    moreover have "bt_ok keys'" using assms by (simp add: keys'_def)
    ultimately show ?thesis unfolding r sum.case using hk by blast
  next
    case (3 h k h' k' xs)
    then have r: "revoke_reusable i keys = Inl (AmbiguousKey i)" by (simp add: revoke_reusable_def P_def)
    have "distinct (map fst (filter P keys))" using d by (rule distinct_map_filter)
    then have "h \<noteq> h'" using 3 by auto
    moreover have "map_of keys h = Some k \<and> prefix i (rk_id k)" "map_of keys h' = Some k' \<and> prefix i (rk_id k')"
      using mem 3 by auto
    ultimately show ?thesis unfolding r sum.case by blast
  qed
qed

definition sample_key :: "string \<Rightarrow> reusable_key" where
  "sample_key i = \<lparr> rk_id = i, rk_created = 0, rk_expires = 100, rk_revoked = False \<rparr>"

theorem revoke_reusable_spec_witness:
  "\<exists>keys'. revoke_reusable ''ab'' [(''ab01'', sample_key ''ab01''), (''cd02'', sample_key ''cd02'')] = Inr keys' \<and>
     (\<forall>secret now. hash_secret (\<lambda>x. x) secret = ''ab01'' \<longrightarrow> validate_reusable_key (\<lambda>x. x) keys' secret now = None)"
proof -
  define keys where "keys = [(''ab01'', sample_key ''ab01''), (''cd02'', sample_key ''cd02'')]"
  have ok: "bt_ok keys" by (simp add: keys_def bt_ok_def less_char_def)
  obtain keys' where r: "revoke_reusable ''ab'' keys = Inr keys'"
    by (simp add: keys_def revoke_reusable_def sample_key_def)
  obtain h k where h: "map_of keys h = Some k" "prefix ''ab'' (rk_id k)"
    and v: "\<forall>secret now. validate_reusable_key (\<lambda>x. x) keys' secret now =
        (if hash_secret (\<lambda>x. x) secret = h then None else validate_reusable_key (\<lambda>x. x) keys secret now)"
    using revoke_reusable_spec [OF ok, of "''ab''" "\<lambda>x. x"] unfolding r sum.case by blast
  have "h = ''ab01''" using h by (auto simp: keys_def sample_key_def split: if_splits)
  with r v show ?thesis unfolding keys_def by auto
qed

text \<open>A selector names a member or nobody: whatever text the user gives, a resolved peer is a member
  of the roster; a hostname on the roster always wins, and is refused when two members bear it.\<close>

theorem resolve_peer_selector_sound:
  assumes "ml_ok ms" and "resolve_peer_selector blake3 parse_v6 parse_id ms sel = Some i"
  shows "is_member ms i \<and>
    (\<forall>m\<in>set (ml_iter ms). m_hostname m = Some sel \<longrightarrow> m_identity m = i)"
proof -
  define H where "H = filter (\<lambda>m. m_hostname m = Some sel) (ml_iter ms)"
  have hosts: "m \<in> set H" if "m \<in> set (ml_iter ms)" "m_hostname m = Some sel" for m using that by (simp add: H_def)
  consider "H = []" | h where "H = [h]" | h h' xs where "H = h # h' # xs" by (metis list.exhaust)
  then show ?thesis
  proof cases
    case 1
    then have none: "m_hostname m \<noteq> Some sel" if "m \<in> set (ml_iter ms)" for m using hosts [OF that] by auto
    have "is_member ms i"
    proof (cases "resolve_peer_literal blake3 parse_v6 parse_id ms sel")
      case None
      with 1 assms(2) have "map m_identity (filter (prefix_matches sel) (ml_iter ms)) = [i]"
        by (auto simp: resolve_peer_selector_def H_def split: list.splits)
      from singleton_map_filter [OF this] obtain m where "m \<in> set (ml_iter ms)" "m_identity m = i" by blast
      with ml_iter_member [OF assms(1)] show ?thesis by blast
    next
      case (Some j)
      with 1 assms(2) have "j = i" by (simp add: resolve_peer_selector_def H_def)
      with Some resolve_peer_literal_member [OF assms(1)] show ?thesis by blast
    qed
    with none show ?thesis by blast
  next
    case (2 h)
    then have "h \<in> set (ml_iter ms)" by (metis H_def filter_is_subset list.set_intros(1) subsetD)
    moreover have "m_identity h = i" using 2 assms(2) by (simp add: resolve_peer_selector_def H_def)
    ultimately show ?thesis using hosts 2 ml_iter_member [OF assms(1)] by auto
  next
    case 3
    with assms(2) show ?thesis by (simp add: resolve_peer_selector_def H_def)
  qed
qed

theorem resolve_peer_selector_sound_witness:
  "is_member (ml_from [sample_member 1 ''a'', sample_member 2 ''b'']) 2"
proof -
  have "ml_ok (ml_from [sample_member 1 ''a'', sample_member 2 ''b''])"
    unfolding ml_from_fill by (rule mlist.ok_fill)
  moreover have "resolve_peer_selector (\<lambda>x. x) (\<lambda>_. None) (\<lambda>_. None)
      (ml_from [sample_member 1 ''a'', sample_member 2 ''b'']) ''b'' = Some 2"
    by (simp add: resolve_peer_selector_def ml_from_def ml_add_def ml_iter_def bt_values_def sample_member_def)
  ultimately show ?thesis using resolve_peer_selector_sound by blast
qed

text \<open>A device certificate binds its device and its pairing generation: what is created verifies,
  and no certificate of another device or generation has the same signed bytes.\<close>

theorem cert_binds_device:
  assumes "\<forall>msg. verify public msg (sign msg)"
  shows "cert_verify verify (cert_create sign public d g) \<and>
    (signing_bytes d g = signing_bytes d' g' \<longleftrightarrow> d = d' \<and> g = g')"
  using assms signing_bytes_inject [of d g d' g'] by (simp add: cert_verify_def cert_create_def)

theorem cert_binds_device_witness:
  "cert_verify (\<lambda>p m s. s = rev m) (cert_create rev 9 1 2) \<and> signing_bytes 1 2 \<noteq> signing_bytes 1 0"
  using cert_binds_device [of "\<lambda>p m s. s = rev m" 9 rev 1 2 1 0] by simp

end
