(* ===== verification/Invite.thy ===== *)
theory Invite
  imports Membership
begin

text \<open>
  One-time invites: the coordinator's ledger of \<open>src/src/invite.rs\<close> and the code format of
  \<open>src/ray-proto/src/invite.rs\<close>. A store is the list in memory together with what the ledger file
  holds; each operation that saves takes a flag saying whether the write succeeds, and a failed write
  is an error that leaves the file as it was. The clock (\<open>now_secs\<close>) and the random secret are
  arguments; BLAKE3, base58 and the validity of a public key are parameters.
\<close>

section \<open>Definitions\<close>

subsection \<open>Codes\<close>

definition secret_len :: nat where "secret_len = 16"
definition max_code_len :: nat where "max_code_len = 120"
definition payload_len :: nat where "payload_len = 32 + 32 + secret_len"
definition checksum_len :: nat where "checksum_len = 4"

definition invite_checksum :: "(bytes \<Rightarrow> bytes) \<Rightarrow> bytes \<Rightarrow> bytes" where
  "invite_checksum blake3 payload = take checksum_len (blake3 payload)"

definition invite_bytes :: "(bytes \<Rightarrow> bytes) \<Rightarrow> endpoint_id \<Rightarrow> endpoint_id \<Rightarrow> bytes \<Rightarrow> bytes" where
  "invite_bytes blake3 network coordinator secret =
     (let payload = id_bytes network @ id_bytes coordinator @ secret in payload @ invite_checksum blake3 payload)"

definition encode_invite_code ::
    "(bytes \<Rightarrow> bytes) \<Rightarrow> (bytes \<Rightarrow> string) \<Rightarrow> endpoint_id \<Rightarrow> endpoint_id \<Rightarrow> bytes \<Rightarrow> string" where
  "encode_invite_code blake3 enc58 network coordinator secret = enc58 (invite_bytes blake3 network coordinator secret)"

record decoded_invite =
  di_network_key :: endpoint_id
  di_coordinator :: endpoint_id
  di_secret :: bytes

datatype code_error =
    CodeTooLong | CodeNotBase58 | CodeChecksum | CodeLength nat | BadNetworkKey | BadCoordinatorKey

definition decode_payload :: "(bytes \<Rightarrow> bytes) \<Rightarrow> bytes \<Rightarrow> code_error + bytes" where
  "decode_payload blake3 bs =
     (if length bs = payload_len then Inr bs
      else if length bs = payload_len + checksum_len then
        (if drop payload_len bs \<noteq> invite_checksum blake3 (take payload_len bs) then Inl CodeChecksum
         else Inr (take payload_len bs))
      else Inl (CodeLength (length bs)))"

definition decode_invite_code ::
    "(bytes \<Rightarrow> bytes) \<Rightarrow> (string \<Rightarrow> bytes option) \<Rightarrow> (bytes \<Rightarrow> endpoint_id option) \<Rightarrow> string \<Rightarrow> code_error + decoded_invite" where
  "decode_invite_code blake3 dec58 key_of code =
     (let code' = trim code in
      if length code' > max_code_len then Inl CodeTooLong
      else case dec58 code' of
          None \<Rightarrow> Inl CodeNotBase58
        | Some bs \<Rightarrow>
            (case decode_payload blake3 bs of
               Inl e \<Rightarrow> Inl e
             | Inr payload \<Rightarrow>
                 (case key_of (slice payload 0 32) of
                    None \<Rightarrow> Inl BadNetworkKey
                  | Some network \<Rightarrow>
                      (case key_of (slice payload 32 64) of
                         None \<Rightarrow> Inl BadCoordinatorKey
                       | Some coordinator \<Rightarrow>
                           Inr \<lparr> di_network_key = network, di_coordinator = coordinator, di_secret = drop 64 payload \<rparr>))))"

subsection \<open>The ledger\<close>

datatype invite_status = Pending | Redeemed endpoint_id u64 | Revoked

record delivery =
  dv_recipient :: endpoint_id
  dv_code :: string
  dv_delivered :: bool
  dv_unsupported :: bool
  dv_refusal :: "string option"

record invite =
  iv_id :: string
  iv_secret_hash :: string
  iv_created :: u64
  iv_expires :: u64
  iv_status :: invite_status
  iv_hostname :: "string option"
  iv_delivery :: "delivery option"

definition new_invite ::
    "(bytes \<Rightarrow> bytes) \<Rightarrow> u64 \<Rightarrow> bytes \<Rightarrow> u64 \<Rightarrow> string option \<Rightarrow> delivery option \<Rightarrow> invite" where
  "new_invite blake3 now secret ttl hostname del =
     (let h = hash_secret blake3 secret in
      \<lparr> iv_id = take 8 h, iv_secret_hash = h, iv_created = now, iv_expires = saturating_add64 now ttl,
        iv_status = Pending, iv_hostname = hostname, iv_delivery = del \<rparr>)"

definition is_live :: "u64 \<Rightarrow> invite \<Rightarrow> bool" where
  "is_live now i \<longleftrightarrow> iv_status i = Pending \<and> iv_expires i > now"

definition delivery_ttl :: u64 where "delivery_ttl = 7 * 86400"

datatype invite_error =
    InvalidInvite | InviteUsed | InviteRevoked | InviteExpired | AmbiguousInvite | NoInvite | AlreadyUsed
  | DeliveryMissing | SaveFailed

record invite_store =
  st_invites :: "invite list"
  st_disk :: "invite list"

type_synonym 'a store_result = "(invite_error + 'a) \<times> invite_store"

definition save_then :: "bool \<Rightarrow> 'a \<Rightarrow> invite_store \<Rightarrow> 'a store_result" where
  "save_then io x st = (if io then (Inr x, st \<lparr> st_disk := st_invites st \<rparr>) else (Inl SaveFailed, st))"

definition reload :: "invite_store \<Rightarrow> invite_store" where
  "reload st = st \<lparr> st_invites := st_disk st \<rparr>"

fun upd_first :: "('a \<Rightarrow> bool) \<Rightarrow> ('a \<Rightarrow> 'a) \<Rightarrow> 'a list \<Rightarrow> 'a list" where
  "upd_first P f [] = []"
| "upd_first P f (x # xs) = (if P x then f x # xs else x # upd_first P f xs)"

definition mint :: "(bytes \<Rightarrow> bytes) \<Rightarrow> bool \<Rightarrow> u64 \<Rightarrow> bytes \<Rightarrow> u64 \<Rightarrow> string option \<Rightarrow> invite_store \<Rightarrow> (bytes \<times> string) store_result" where
  "mint blake3 io now secret ttl hostname st =
     (let i = new_invite blake3 now secret ttl hostname None in
      save_then io (secret, iv_id i) (st \<lparr> st_invites := st_invites st @ [i] \<rparr>))"

definition live_delivery :: "u64 \<Rightarrow> endpoint_id \<Rightarrow> invite_store \<Rightarrow> invite option" where
  "live_delivery now recipient st =
     find (\<lambda>i. is_live now i \<and> (case iv_delivery i of Some d \<Rightarrow> dv_recipient d = recipient | None \<Rightarrow> False)) (st_invites st)"

definition delivery_for ::
    "(bytes \<Rightarrow> bytes) \<Rightarrow> (bytes \<Rightarrow> string) \<Rightarrow> bool \<Rightarrow> u64 \<Rightarrow> bytes \<Rightarrow> endpoint_id \<Rightarrow> endpoint_id \<Rightarrow> endpoint_id \<Rightarrow>
      invite_store \<Rightarrow> invite store_result" where
  "delivery_for blake3 enc58 io now secret recipient network coordinator st =
     (case live_delivery now recipient st of
        Some i \<Rightarrow> (Inr i, st)
      | None \<Rightarrow>
          let del = \<lparr> dv_recipient = recipient, dv_code = encode_invite_code blake3 enc58 network coordinator secret,
                      dv_delivered = False, dv_unsupported = False, dv_refusal = None \<rparr>;
              i = new_invite blake3 now secret delivery_ttl None (Some del)
          in save_then io i (st \<lparr> st_invites := st_invites st @ [i] \<rparr>))"

text \<open>The first invite with the id, if it has a delivery.\<close>

definition edit_delivery :: "bool \<Rightarrow> string \<Rightarrow> (delivery \<Rightarrow> delivery) \<Rightarrow> invite_store \<Rightarrow> unit store_result" where
  "edit_delivery io i f st =
     (case Option.bind (find (\<lambda>v. iv_id v = i) (st_invites st)) iv_delivery of
        None \<Rightarrow> (Inl DeliveryMissing, st)
      | Some d \<Rightarrow>
          save_then io ()
            (st \<lparr> st_invites := upd_first (\<lambda>v. iv_id v = i) (\<lambda>v. v \<lparr> iv_delivery := Some (f d) \<rparr>) (st_invites st) \<rparr>))"

definition mark_delivered :: "bool \<Rightarrow> string \<Rightarrow> invite_store \<Rightarrow> unit store_result" where
  "mark_delivered io i = edit_delivery io i (\<lambda>d. d \<lparr> dv_delivered := True, dv_unsupported := False \<rparr>)"

definition mark_unsupported :: "bool \<Rightarrow> string \<Rightarrow> invite_store \<Rightarrow> unit store_result" where
  "mark_unsupported io i = edit_delivery io i (\<lambda>d. d \<lparr> dv_unsupported := True \<rparr>)"

definition mark_refused :: "bool \<Rightarrow> string \<Rightarrow> string \<Rightarrow> invite_store \<Rightarrow> unit store_result" where
  "mark_refused io i reason = edit_delivery io i (\<lambda>d. d \<lparr> dv_refusal := Some reason \<rparr>)"

definition live_deliveries :: "u64 \<Rightarrow> invite_store \<Rightarrow> delivery list" where
  "live_deliveries now st = List.map_filter iv_delivery (filter (is_live now) (st_invites st))"

definition deliveries_to_check :: "u64 \<Rightarrow> invite_store \<Rightarrow> endpoint_id list" where
  "deliveries_to_check now st =
     map dv_recipient (filter (\<lambda>d. \<not> dv_unsupported d \<and> dv_refusal d = None) (live_deliveries now st))"

definition pending_deliveries :: "u64 \<Rightarrow> invite_store \<Rightarrow> endpoint_id list" where
  "pending_deliveries now st =
     map dv_recipient
       (filter (\<lambda>d. \<not> dv_delivered d \<and> \<not> dv_unsupported d \<and> dv_refusal d = None) (live_deliveries now st))"

definition by_hash :: "string \<Rightarrow> invite \<Rightarrow> bool" where
  "by_hash h i \<longleftrightarrow> iv_secret_hash i = h"

definition set_status :: "invite_status \<Rightarrow> invite \<Rightarrow> invite" where
  "set_status s i = i \<lparr> iv_status := s \<rparr>"

definition is_redeemed :: "invite \<Rightarrow> bool" where
  "is_redeemed i = (case iv_status i of Redeemed _ _ \<Rightarrow> True | _ \<Rightarrow> False)"

definition redeem ::
    "(bytes \<Rightarrow> bytes) \<Rightarrow> bool \<Rightarrow> u64 \<Rightarrow> bytes \<Rightarrow> endpoint_id \<Rightarrow> invite_store \<Rightarrow> string option store_result" where
  "redeem blake3 io now secret redeemer st =
     (let h = hash_secret blake3 secret in
      case find (by_hash h) (st_invites st) of
        None \<Rightarrow> (Inl InvalidInvite, st)
      | Some i \<Rightarrow>
          (case iv_status i of
             Redeemed _ _ \<Rightarrow> (Inl InviteUsed, st)
           | Revoked \<Rightarrow> (Inl InviteRevoked, st)
           | Pending \<Rightarrow>
               if now \<ge> iv_expires i then (Inl InviteExpired, st)
               else save_then io (iv_hostname i)
                 (st \<lparr> st_invites := upd_first (by_hash h) (set_status (Redeemed redeemer now)) (st_invites st) \<rparr>)))"

definition restore :: "(bytes \<Rightarrow> bytes) \<Rightarrow> bool \<Rightarrow> bytes \<Rightarrow> invite_store \<Rightarrow> unit store_result" where
  "restore blake3 io secret st =
     (let h = hash_secret blake3 secret in
      case find (by_hash h) (st_invites st) of
        None \<Rightarrow> (Inr (), st)
      | Some i \<Rightarrow>
          if is_redeemed i
          then save_then io () (st \<lparr> st_invites := upd_first (by_hash h) (set_status Pending) (st_invites st) \<rparr>)
          else (Inr (), st))"

definition revoke :: "bool \<Rightarrow> string \<Rightarrow> invite_store \<Rightarrow> unit store_result" where
  "revoke io i st =
     (case filter (\<lambda>k. prefix i (iv_id (st_invites st ! k))) [0..<length (st_invites st)] of
        [] \<Rightarrow> (Inl NoInvite, st)
      | [k] \<Rightarrow>
          if is_redeemed (st_invites st ! k) then (Inl AlreadyUsed, st)
          else save_then io () (st \<lparr> st_invites := (st_invites st)[k := set_status Revoked (st_invites st ! k)] \<rparr>)
      | _ \<Rightarrow> (Inl AmbiguousInvite, st))"

definition record_shared :: "bool \<Rightarrow> u64 \<Rightarrow> string \<Rightarrow> string \<Rightarrow> u64 \<Rightarrow> invite_store \<Rightarrow> unit store_result" where
  "record_shared io now i h expires st =
     (if list_ex (\<lambda>v. iv_id v = i) (st_invites st) then (Inr (), st)
      else save_then io () (st \<lparr> st_invites := st_invites st @
        [\<lparr> iv_id = i, iv_secret_hash = h, iv_created = now, iv_expires = expires, iv_status = Pending,
           iv_hostname = None, iv_delivery = None \<rparr>] \<rparr>))"

definition burn_by_hash :: "bool \<Rightarrow> u64 \<Rightarrow> string \<Rightarrow> invite_store \<Rightarrow> bool store_result" where
  "burn_by_hash io now h st =
     (case find (by_hash h) (st_invites st) of
        Some i \<Rightarrow>
          if iv_status i = Pending
          then save_then io True (st \<lparr> st_invites := upd_first (by_hash h) (set_status (Redeemed 0 now)) (st_invites st) \<rparr>)
          else (Inr False, st)
      | None \<Rightarrow> (Inr False, st))"

record invite_view =
  vw_id :: string
  vw_status :: string
  vw_created :: u64
  vw_expires :: u64
  vw_redeemer :: "string option"
  vw_hostname :: "string option"

definition view_status :: "(endpoint_id \<Rightarrow> string) \<Rightarrow> u64 \<Rightarrow> invite \<Rightarrow> string \<times> string option" where
  "view_status fmt_short now i =
     (case iv_status i of
        Redeemed who _ \<Rightarrow> (''redeemed'', Some (fmt_short who))
      | Revoked \<Rightarrow> (''revoked'', None)
      | Pending \<Rightarrow>
          if now \<ge> iv_expires i then (''expired'', None)
          else (case Option.bind (iv_delivery i) dv_refusal of
                  Some reason \<Rightarrow> (''refused: '' @ reason, None)
                | None \<Rightarrow> (''pending'', None)))"

definition list_invites :: "(endpoint_id \<Rightarrow> string) \<Rightarrow> u64 \<Rightarrow> invite_store \<Rightarrow> invite_view list" where
  "list_invites fmt_short now st =
     map (\<lambda>i. \<lparr> vw_id = iv_id i, vw_status = fst (view_status fmt_short now i), vw_created = iv_created i,
                vw_expires = iv_expires i, vw_redeemer = snd (view_status fmt_short now i),
                vw_hostname = iv_hostname i \<rparr>) (st_invites st)"

definition is_dead_invite :: "string \<Rightarrow> bool" where
  "is_dead_invite message \<longleftrightarrow>
     list_ex (\<lambda>reason. sublist (''invite rejected: '' @ reason) message)
       [''invite already used'', ''invite revoked'', ''invite expired'']"

subsection \<open>Histories of a ledger\<close>

datatype invite_op =
    OpMint bool u64 bytes u64 "string option"
  | OpDelivery bool u64 bytes endpoint_id endpoint_id endpoint_id
  | OpDelivered bool string
  | OpUnsupported bool string
  | OpRefused bool string string
  | OpRedeem bool u64 bytes endpoint_id
  | OpRestore bool bytes
  | OpRevoke bool string
  | OpShared bool u64 string string u64
  | OpBurn bool u64 string
  | OpReload

fun invite_step :: "(bytes \<Rightarrow> bytes) \<Rightarrow> (bytes \<Rightarrow> string) \<Rightarrow> invite_op \<Rightarrow> invite_store \<Rightarrow> invite_store" where
  "invite_step b3 e58 (OpMint io now secret ttl hostname) st = snd (mint b3 io now secret ttl hostname st)"
| "invite_step b3 e58 (OpDelivery io now secret r n c) st = snd (delivery_for b3 e58 io now secret r n c st)"
| "invite_step b3 e58 (OpDelivered io i) st = snd (mark_delivered io i st)"
| "invite_step b3 e58 (OpUnsupported io i) st = snd (mark_unsupported io i st)"
| "invite_step b3 e58 (OpRefused io i reason) st = snd (mark_refused io i reason st)"
| "invite_step b3 e58 (OpRedeem io now secret who) st = snd (redeem b3 io now secret who st)"
| "invite_step b3 e58 (OpRestore io secret) st = snd (restore b3 io secret st)"
| "invite_step b3 e58 (OpRevoke io i) st = snd (revoke io i st)"
| "invite_step b3 e58 (OpShared io now i h expires) st = snd (record_shared io now i h expires st)"
| "invite_step b3 e58 (OpBurn io now h) st = snd (burn_by_hash io now h st)"
| "invite_step b3 e58 OpReload st = reload st"

definition invite_run :: "(bytes \<Rightarrow> bytes) \<Rightarrow> (bytes \<Rightarrow> string) \<Rightarrow> invite_op list \<Rightarrow> invite_store \<Rightarrow> invite_store" where
  "invite_run b3 e58 ops st = fold (invite_step b3 e58) ops st"

section \<open>Spent invites stay spent\<close>

text \<open>Every operation rewrites the list in memory and then may copy it to disk; what holds of both lists
  and survives the rewriting survives the operation.\<close>

definition both :: "(invite list \<Rightarrow> bool) \<Rightarrow> invite_store \<Rightarrow> bool" where
  "both P st \<longleftrightarrow> P (st_invites st) \<and> P (st_disk st)"

lemma both_save_then: "both P (snd (save_then io x st)) \<longleftrightarrow> P (st_invites st) \<and> (io \<or> P (st_disk st))"
  by (simp add: both_def save_then_def)

text \<open>The life of an invite: the status changes an operation may make. Only an invite whose hash is in
  \<open>H\<close> may be un-burned.\<close>

inductive status_step :: "string set \<Rightarrow> string \<Rightarrow> invite_status \<Rightarrow> invite_status \<Rightarrow> bool" for H h where
  ss_same: "status_step H h s s"
| ss_burn: "status_step H h Pending (Redeemed who now)"
| ss_revoke: "(\<forall>who at. s \<noteq> Redeemed who at) \<Longrightarrow> status_step H h s Revoked"
| ss_restore: "h \<in> H \<Longrightarrow> status_step H h (Redeemed who at) Pending"

inductive_simps status_step_Revoked: "status_step H h Revoked s"
inductive_simps status_step_Pending: "status_step H h s Pending"

text \<open>The ways an operation rewrites the list.\<close>

inductive ledger_change :: "string set \<Rightarrow> invite list \<Rightarrow> invite list \<Rightarrow> bool" for H where
  lc_same: "ledger_change H xs xs"
| lc_append: "ledger_change H xs (xs @ [i])"
| lc_point: "k < length xs \<Longrightarrow> iv_secret_hash i = iv_secret_hash (xs ! k) \<Longrightarrow>
    status_step H (iv_secret_hash i) (iv_status (xs ! k)) (iv_status i) \<Longrightarrow> ledger_change H xs (xs[k := i])"

lemma upd_first_point:
  "find Q xs = Some x \<Longrightarrow> \<exists>k<length xs. xs ! k = x \<and> Q x \<and> upd_first Q f xs = xs[k := f x]"
proof (induction xs)
  case (Cons y ys)
  show ?case
  proof (cases "Q y")
    case True
    with Cons.prems show ?thesis by (intro exI [of _ 0]) simp
  next
    case False
    with Cons obtain k where "k < length ys" "ys ! k = x" "Q x" "upd_first Q f ys = ys[k := f x]" by auto
    with False show ?thesis by (intro exI [of _ "Suc k"]) simp
  qed
qed simp

lemma upd_first_change:
  assumes "find Q xs = Some x" and "iv_secret_hash (f x) = iv_secret_hash x"
    and "status_step H (iv_secret_hash x) (iv_status x) (iv_status (f x))"
  shows "ledger_change H xs (upd_first Q f xs)"
proof -
  obtain k where "k < length xs" "xs ! k = x" "upd_first Q f xs = xs[k := f x]"
    using upd_first_point [OF assms(1)] by blast
  with assms(2,3) show ?thesis by (auto intro: lc_point)
qed

definition restored :: "(bytes \<Rightarrow> bytes) \<Rightarrow> invite_op \<Rightarrow> string set" where
  "restored b3 op = (case op of OpRestore _ secret \<Rightarrow> {hash_secret b3 secret} | _ \<Rightarrow> {})"

text \<open>\<open>changes H st st'\<close>: memory was rewritten once, and the file is as it was or equals memory.\<close>

definition changes :: "string set \<Rightarrow> invite_store \<Rightarrow> invite_store \<Rightarrow> bool" where
  "changes H st st' \<longleftrightarrow>
     ledger_change H (st_invites st) (st_invites st') \<and> (st_disk st' = st_disk st \<or> st_disk st' = st_invites st')"

lemma changes_same [simp]: "changes H st st"
  by (simp add: changes_def lc_same)

lemma changes_save:
  "ledger_change H (st_invites st) xs \<Longrightarrow> changes H st (snd (save_then io x (st \<lparr> st_invites := xs \<rparr>)))"
  by (simp add: changes_def save_then_def)

lemma edit_delivery_changes: "changes H st (snd (edit_delivery io i f st))"
proof (cases "find (\<lambda>v. iv_id v = i) (st_invites st)")
  case (Some v)
  show ?thesis
  proof (cases "iv_delivery v")
    case (Some d)
    have "ledger_change H (st_invites st)
        (upd_first (\<lambda>v. iv_id v = i) (\<lambda>v. v \<lparr> iv_delivery := Some (f d) \<rparr>) (st_invites st))"
      by (rule upd_first_change [OF \<open>find _ _ = Some v\<close>]) (simp_all add: ss_same)
    with Some \<open>find _ _ = Some v\<close> show ?thesis by (simp add: edit_delivery_def changes_save)
  qed (use Some in \<open>simp add: edit_delivery_def\<close>)
qed (simp add: edit_delivery_def)

lemma status_upd_changes:
  assumes "find (by_hash h) (st_invites st) = Some i" and "status_step H h (iv_status i) s"
  shows "changes H st (snd (save_then io x (st \<lparr> st_invites := upd_first (by_hash h) (set_status s) (st_invites st) \<rparr>)))"
proof (rule changes_save, rule upd_first_change [OF assms(1)])
  have "iv_secret_hash i = h" using find_map_filter [OF assms(1)] by (simp add: by_hash_def)
  then show "status_step H (iv_secret_hash i) (iv_status i) (iv_status (set_status s i))"
    using assms(2) by (simp add: set_status_def)
qed (simp add: set_status_def)

lemma redeem_changes: "changes H st (snd (redeem b3 io now secret who st))"
  by (auto simp: redeem_def Let_def split: option.split invite_status.split) (metis ss_burn status_upd_changes)

lemma burn_changes: "changes H st (snd (burn_by_hash io now h st))"
  by (auto simp: burn_by_hash_def split: option.split) (metis ss_burn status_upd_changes)

lemma restore_changes: "hash_secret b3 secret \<in> H \<Longrightarrow> changes H st (snd (restore b3 io secret st))"
  by (auto simp: restore_def Let_def is_redeemed_def split: option.split invite_status.split)
    (metis ss_restore status_upd_changes)

lemma revoke_changes: "changes H st (snd (revoke io i st))"
proof -
  define ks where "ks = filter (\<lambda>k. prefix i (iv_id (st_invites st ! k))) [0..<length (st_invites st)]"
  show ?thesis
  proof (cases "\<exists>k. ks = [k] \<and> \<not> is_redeemed (st_invites st ! k)")
    case True
    then obtain k where k: "ks = [k]" "\<not> is_redeemed (st_invites st ! k)" by blast
    have "k \<in> set ks" using k(1) by simp
    then have "k < length (st_invites st)" unfolding ks_def by simp
    then have "ledger_change H (st_invites st) ((st_invites st)[k := set_status Revoked (st_invites st ! k)])"
      using k(2) by (intro lc_point) (auto simp: set_status_def is_redeemed_def intro!: ss_revoke)
    with k show ?thesis unfolding revoke_def ks_def [symmetric] by (simp add: changes_save)
  next
    case False
    then show ?thesis unfolding revoke_def ks_def [symmetric] by (auto split: list.split)
  qed
qed

lemma invite_step_changes:
  "restored b3 op \<subseteq> H \<Longrightarrow> op \<noteq> OpReload \<Longrightarrow> changes H st (invite_step b3 e58 op st)"
  by (cases op)
    (simp_all add: restored_def mint_def delivery_for_def Let_def changes_save lc_append mark_delivered_def
      mark_unsupported_def mark_refused_def edit_delivery_changes redeem_changes restore_changes revoke_changes
      record_shared_def burn_changes split: option.split)

text \<open>So a property of lists that every rewriting keeps holds of memory and file for good.\<close>

lemma both_run:
  assumes "\<And>xs ys. ledger_change H xs ys \<Longrightarrow> P xs \<Longrightarrow> P ys"
    and "\<forall>op\<in>set ops. restored b3 op \<subseteq> H" and "both P st"
  shows "both P (invite_run b3 e58 ops st)"
  using assms(2,3)
proof (induction ops arbitrary: st)
  case (Cons op ops)
  have "both P (invite_step b3 e58 op st)"
  proof (cases "op = OpReload")
    case True
    with Cons.prems show ?thesis by (simp add: reload_def both_def)
  next
    case False
    with Cons.prems have "changes H st (invite_step b3 e58 op st)" by (simp add: invite_step_changes)
    with Cons.prems assms(1) show ?thesis unfolding changes_def both_def by metis
  qed
  with Cons show ?case by (simp add: invite_run_def)
qed (simp add: invite_run_def)

definition spent :: "string \<Rightarrow> invite list \<Rightarrow> bool" where
  "spent h xs \<longleftrightarrow> (\<exists>i. find (by_hash h) xs = Some i \<and> iv_status i \<noteq> Pending)"

definition revoked_at :: "nat \<Rightarrow> invite list \<Rightarrow> bool" where
  "revoked_at k xs \<longleftrightarrow> k < length xs \<and> iv_status (xs ! k) = Revoked"

lemma find_point:
  assumes "find P xs = Some x" and "k < length xs" and "P y = P (xs ! k)"
  shows "find P (xs[k := y]) = Some x \<or> (xs ! k = x \<and> find P (xs[k := y]) = Some y)"
  using assms
proof (induction xs arbitrary: k)
  case (Cons z zs)
  then show ?case by (cases k) (auto split: if_splits)
qed simp

lemma find_append_Some: "find P xs = Some x \<Longrightarrow> find P (xs @ ys) = Some x"
  by (induction xs) (auto split: if_splits)

lemma find_append_None: "find P xs = None \<Longrightarrow> find P (xs @ ys) = find P ys"
  by (induction xs) (auto split: if_splits)

lemma spent_change: "ledger_change H xs ys \<Longrightarrow> h \<notin> H \<Longrightarrow> spent h xs \<Longrightarrow> spent h ys"
proof (induction rule: ledger_change.induct)
  case (lc_append xs i)
  then show ?case by (auto simp: spent_def intro: find_append_Some)
next
  case (lc_point k xs i)
  then obtain x where x: "find (by_hash h) xs = Some x" "iv_status x \<noteq> Pending" by (auto simp: spent_def)
  have "find (by_hash h) (xs[k := i]) = Some x \<or> (xs ! k = x \<and> find (by_hash h) (xs[k := i]) = Some i)"
    by (rule find_point [OF x(1)]) (use lc_point in \<open>simp_all add: by_hash_def\<close>)
  moreover have "iv_status i \<noteq> Pending" if "xs ! k = x"
  proof
    assume "iv_status i = Pending"
    moreover have "iv_secret_hash i = h" using lc_point(2) that find_map_filter [OF x(1)] by (simp add: by_hash_def)
    ultimately show False using lc_point(3) that x(2) \<open>h \<notin> H\<close> by (auto simp: status_step_Pending)
  qed
  ultimately show ?case using x(2) by (auto simp: spent_def)
qed

lemma revoked_change: "ledger_change H xs ys \<Longrightarrow> revoked_at k xs \<Longrightarrow> revoked_at k ys"
proof (induction rule: ledger_change.induct)
  case (lc_append xs i)
  then show ?case by (simp add: revoked_at_def nth_append)
next
  case (lc_point j xs i)
  then show ?case by (cases "j = k") (auto simp: revoked_at_def status_step_Revoked)
qed

lemma redeem_spent: "spent (hash_secret b3 secret) (st_invites st) \<Longrightarrow> fst (redeem b3 io now secret who st) \<in> {Inl InviteUsed, Inl InviteRevoked}"
  by (auto simp: redeem_def Let_def spent_def split: invite_status.split)

lemma upd_first_find:
  "find P xs = Some x \<Longrightarrow> P (f x) \<Longrightarrow> find P (upd_first P f xs) = Some (f x)"
  by (induction xs) (auto split: if_splits)

lemma redeem_burns:
  assumes "fst (redeem b3 io now secret who st) = Inr hn"
  shows "both (spent (hash_secret b3 secret)) (snd (redeem b3 io now secret who st))"
    and "\<exists>i. find (by_hash (hash_secret b3 secret)) (st_invites st) = Some i \<and> iv_status i = Pending \<and> now < iv_expires i \<and>
      iv_hostname i = hn"
proof -
  define h where "h = hash_secret b3 secret"
  obtain i where i: "find (by_hash h) (st_invites st) = Some i" "iv_status i = Pending" "now < iv_expires i"
    "iv_hostname i = hn" "io"
    using assms by (auto simp: redeem_def Let_def h_def save_then_def not_le split: option.splits invite_status.splits if_splits)
  then show "\<exists>i. find (by_hash (hash_secret b3 secret)) (st_invites st) = Some i \<and> iv_status i = Pending \<and> now < iv_expires i \<and>
      iv_hostname i = hn" by (auto simp: h_def)
  have "by_hash h i" using find_map_filter [OF i(1)] by simp
  then have "find (by_hash h) (upd_first (by_hash h) (set_status (Redeemed who now)) (st_invites st)) =
      Some (set_status (Redeemed who now) i)"
    by (intro upd_first_find [OF i(1)]) (simp add: by_hash_def set_status_def)
  moreover have "snd (redeem b3 io now secret who st) =
      (let xs = upd_first (by_hash h) (set_status (Redeemed who now)) (st_invites st) in st \<lparr> st_invites := xs, st_disk := xs \<rparr>)"
    using i by (simp add: redeem_def Let_def h_def [symmetric] save_then_def)
  ultimately show "both (spent (hash_secret b3 secret)) (snd (redeem b3 io now secret who st))"
    by (simp add: both_def spent_def h_def [symmetric] Let_def set_status_def)
qed

section \<open>Properties\<close>

text \<open>C6. An invite admits one machine: once a secret has been redeemed, no later presentation of a
  secret with its hash is accepted, whatever else happens to the ledger - other invites minted,
  shared, delivered, revoked or burned, writes that fail, restarts that reload the file - unless the
  invite is explicitly un-burned. The redeemed invite was pending and unexpired.\<close>

theorem invite_single_use:
  assumes "fst (redeem b3 io now secret who st) = Inr hn"
    and "\<forall>io s. OpRestore io s \<in> set ops \<longrightarrow> hash_secret b3 s \<noteq> hash_secret b3 secret"
    and "hash_secret b3 secret' = hash_secret b3 secret"
  shows "(\<exists>i. find (by_hash (hash_secret b3 secret)) (st_invites st) = Some i \<and> iv_status i = Pending \<and> now < iv_expires i) \<and>
    fst (redeem b3 io' now' secret' who' (invite_run b3 e58 ops (snd (redeem b3 io now secret who st))))
      \<in> {Inl InviteUsed, Inl InviteRevoked}"
proof -
  define h where "h = hash_secret b3 secret"
  have ops: "\<forall>op\<in>set ops. restored b3 op \<subseteq> - {h}"
  proof
    fix op
    assume "op \<in> set ops"
    with assms(2) show "restored b3 op \<subseteq> - {h}" by (cases op) (auto simp: restored_def h_def dest: sym)
  qed
  have "both (spent h) (invite_run b3 e58 ops (snd (redeem b3 io now secret who st)))"
    using redeem_burns(1) [OF assms(1)] by (intro both_run [OF _ ops]) (auto simp: h_def [symmetric] intro: spent_change)
  then have "spent (hash_secret b3 secret') (st_invites (invite_run b3 e58 ops (snd (redeem b3 io now secret who st))))"
    by (simp add: both_def assms(3) h_def)
  from redeem_spent [OF this] redeem_burns(2) [OF assms(1)] show ?thesis by blast
qed

definition sample_store :: invite_store where
  "sample_store = \<lparr> st_invites = [new_invite (\<lambda>x. x) 0 [1] 100 None None], st_disk = [] \<rparr>"

theorem invite_single_use_witness:
  "fst (redeem (\<lambda>x. x) True 5 [1] 7 sample_store) = Inr None \<and>
   fst (redeem (\<lambda>x. x) True 6 [1] 8 (invite_run (\<lambda>x. x) (\<lambda>_. []) [OpReload] (snd (redeem (\<lambda>x. x) True 5 [1] 7 sample_store))))
     \<in> {Inl InviteUsed, Inl InviteRevoked}"
proof -
  have ok: "fst (redeem (\<lambda>x. x) True 5 [1] 7 sample_store) = Inr None"
    by (simp add: redeem_def sample_store_def new_invite_def Let_def by_hash_def save_then_def saturating_add64_def)
  moreover have "\<forall>io s. OpRestore io s \<in> set [OpReload] \<longrightarrow> hash_secret (\<lambda>x. x) s \<noteq> hash_secret (\<lambda>x. x) [1]" by simp
  ultimately show ?thesis using invite_single_use by blast
qed

text \<open>C24. A revoked invite stays revoked: after a successful revocation the one invite whose id starts
  with the given text is revoked in memory and on disk, and remains so through every later history of
  the ledger, un-burning included.\<close>

theorem revocation_permanent:
  assumes "fst (revoke io i st) = Inr ()"
  shows "\<exists>k<length (st_invites st). prefix i (iv_id (st_invites st ! k)) \<and>
    (\<forall>j<length (st_invites st). prefix i (iv_id (st_invites st ! j)) \<longrightarrow> j = k) \<and>
    both (revoked_at k) (invite_run b3 e58 ops (snd (revoke io i st)))"
proof -
  define ks where "ks = filter (\<lambda>k. prefix i (iv_id (st_invites st ! k))) [0..<length (st_invites st)]"
  obtain k where k: "ks = [k]" and io: io
    and st: "snd (revoke io i st) = (let xs = (st_invites st)[k := set_status Revoked (st_invites st ! k)]
      in st \<lparr> st_invites := xs, st_disk := xs \<rparr>)"
    using assms unfolding revoke_def ks_def [symmetric] by (auto simp: save_then_def Let_def split: list.splits if_splits)
  have mem: "j \<in> set ks \<longleftrightarrow> j < length (st_invites st) \<and> prefix i (iv_id (st_invites st ! j))" for j
    by (auto simp: ks_def)
  have kk: "k < length (st_invites st)" "prefix i (iv_id (st_invites st ! k))" using mem [of k] k by simp_all
  moreover have "both (revoked_at k) (invite_run b3 e58 ops (snd (revoke io i st)))"
  proof (rule both_run [of UNIV])
    show "both (revoked_at k) (snd (revoke io i st))"
      using kk(1) by (simp add: st both_def revoked_at_def Let_def set_status_def)
  qed (auto intro: revoked_change)
  ultimately show ?thesis using mem k by (intro exI [of _ k]) auto
qed

theorem revocation_permanent_witness:
  "\<exists>k. both (revoked_at k) (invite_run (\<lambda>x. x) (\<lambda>_. []) [OpRestore True [1], OpReload] (snd (revoke True [] sample_store)))"
proof -
  have "fst (revoke True [] sample_store) = Inr ()"
    by (simp add: revoke_def sample_store_def new_invite_def Let_def is_redeemed_def save_then_def)
  from revocation_permanent [OF this] show ?thesis by blast
qed

lemma id_payload_slices:
  assumes "length secret = 16"
  shows "length (id_bytes n @ id_bytes c @ secret) = 80"
    "slice (id_bytes n @ id_bytes c @ secret) 0 32 = id_bytes n"
    "slice (id_bytes n @ id_bytes c @ secret) 32 64 = id_bytes c"
    "drop 64 (id_bytes n @ id_bytes c @ secret) = secret"
  using assms by (simp_all add: slice_def idc.length_enc)

lemma payload_split:
  assumes "length p = 80"
  shows "p = slice p 0 32 @ slice p 32 64 @ drop 64 p"
proof -
  have "p = take 32 p @ take 32 (drop 32 p) @ drop 32 (drop 32 p)" by (metis append_take_drop_id)
  then show ?thesis by (simp add: slice_def)
qed

lemma decode_payload_iff:
  assumes "\<forall>x. length (blake3 x) = 32"
  shows "decode_payload blake3 bs = Inr p \<longleftrightarrow>
    length p = 80 \<and> (bs = p \<or> bs = p @ invite_checksum blake3 p)"
proof
  show "decode_payload blake3 bs = Inr p \<Longrightarrow> length p = 80 \<and> (bs = p \<or> bs = p @ invite_checksum blake3 p)"
    by (auto simp: decode_payload_def payload_len_def secret_len_def checksum_len_def split: if_splits)
      (metis append_take_drop_id)
  show "length p = 80 \<and> (bs = p \<or> bs = p @ invite_checksum blake3 p) \<Longrightarrow> decode_payload blake3 bs = Inr p"
    using assms by (auto simp: decode_payload_def payload_len_def secret_len_def checksum_len_def invite_checksum_def)
qed

text \<open>C25. Invite codes: what is accepted is exactly what encodes an invite. A code decodes to an invite if and
  only if, trimmed, it is no longer than 120 characters and stands for the bytes of two valid keys and a
  sixteen-byte secret, followed by their checksum or, as in the codes of older versions, by nothing; the
  invite is the one made of those parts. In particular an encoded invite decodes to itself.\<close>

theorem invite_code_round_trip:
  assumes "\<forall>x. length (blake3 x) = 32" and "\<forall>bs k. key_of bs = Some k \<longrightarrow> id_bytes k = bs"
  shows "(decode_invite_code blake3 dec58 key_of code = Inr d \<longleftrightarrow>
      length (trim code) \<le> 120 \<and> length (di_secret d) = 16 \<and>
      key_of (id_bytes (di_network_key d)) = Some (di_network_key d) \<and>
      key_of (id_bytes (di_coordinator d)) = Some (di_coordinator d) \<and>
      dec58 (trim code) \<in>
        {Some (invite_bytes blake3 (di_network_key d) (di_coordinator d) (di_secret d)),
         Some (id_bytes (di_network_key d) @ id_bytes (di_coordinator d) @ di_secret d)}) \<and>
    (length secret = 16 \<and> key_of (id_bytes n) = Some n \<and> key_of (id_bytes c) = Some c \<and>
     dec58 (enc58 (invite_bytes blake3 n c secret)) = Some (invite_bytes blake3 n c secret) \<and>
     (\<forall>ch\<in>set (enc58 (invite_bytes blake3 n c secret)). \<not> is_space ch) \<and>
     length (enc58 (invite_bytes blake3 n c secret)) \<le> 120 \<longrightarrow>
       decode_invite_code blake3 dec58 key_of (encode_invite_code blake3 enc58 n c secret) =
         Inr \<lparr> di_network_key = n, di_coordinator = c, di_secret = secret \<rparr>)"
proof -
  let ?p = "\<lambda>d. id_bytes (di_network_key d) @ id_bytes (di_coordinator d) @ di_secret d"
  let ?ok = "\<lambda>code d. length (trim code) \<le> 120 \<and> length (di_secret d) = 16 \<and>
      key_of (id_bytes (di_network_key d)) = Some (di_network_key d) \<and>
      key_of (id_bytes (di_coordinator d)) = Some (di_coordinator d) \<and>
      dec58 (trim code) \<in>
        {Some (invite_bytes blake3 (di_network_key d) (di_coordinator d) (di_secret d)), Some (?p d)}"
  have bytes: "invite_bytes blake3 (di_network_key d) (di_coordinator d) (di_secret d) = ?p d @ invite_checksum blake3 (?p d)" for d
    by (simp add: invite_bytes_def Let_def)
  have iff: "decode_invite_code blake3 dec58 key_of code = Inr d \<longleftrightarrow> ?ok code d" for code d
  proof
    assume "decode_invite_code blake3 dec58 key_of code = Inr d"
    then obtain bs p where l: "length (trim code) \<le> 120" and b: "dec58 (trim code) = Some bs" "decode_payload blake3 bs = Inr p"
      and k: "key_of (slice p 0 32) = Some (di_network_key d)" "key_of (slice p 32 64) = Some (di_coordinator d)" "di_secret d = drop 64 p"
      by (auto simp: decode_invite_code_def Let_def max_code_len_def split: if_splits option.splits sum.splits)
    have p: "length p = 80" "bs = p \<or> bs = p @ invite_checksum blake3 p" using decode_payload_iff [OF assms(1)] b(2) by auto
    have i: "id_bytes (di_network_key d) = slice p 0 32" "id_bytes (di_coordinator d) = slice p 32 64" using k assms(2) by blast+
    have "?p d = p" using payload_split [OF p(1)] i k(3) by simp
    then show "?ok code d" using l b(1) p k i unfolding bytes by auto
  next
    assume ok: "?ok code d"
    then have "length (di_secret d) = 16" by blast
    note s = id_payload_slices [OF this, of "di_network_key d" "di_coordinator d"]
    obtain bs where bs: "dec58 (trim code) = Some bs" "bs = ?p d \<or> bs = ?p d @ invite_checksum blake3 (?p d)"
      using ok unfolding bytes by blast
    then have "decode_payload blake3 bs = Inr (?p d)" using decode_payload_iff [OF assms(1)] s(1) by blast
    then show "decode_invite_code blake3 dec58 key_of code = Inr d"
      using ok bs(1) s(2-4) by (simp add: decode_invite_code_def Let_def max_code_len_def)
  qed
  have "?ok (encode_invite_code blake3 enc58 n c secret) \<lparr> di_network_key = n, di_coordinator = c, di_secret = secret \<rparr>"
    if "length secret = 16" "key_of (id_bytes n) = Some n" "key_of (id_bytes c) = Some c"
      "dec58 (enc58 (invite_bytes blake3 n c secret)) = Some (invite_bytes blake3 n c secret)"
      "\<forall>ch\<in>set (enc58 (invite_bytes blake3 n c secret)). \<not> is_space ch"
      "length (enc58 (invite_bytes blake3 n c secret)) \<le> 120"
    using that trim_no_space [OF that(5)] by (simp add: encode_invite_code_def)
  then show ?thesis using iff by blast
qed

definition sample_key_of :: "bytes \<Rightarrow> endpoint_id option" where
  "sample_key_of bs = (if length bs = 32 then Some (word_of_nat (be_nat bs)) else None)"

theorem invite_code_round_trip_witness:
  "decode_invite_code (\<lambda>_. replicate 32 9)
     (\<lambda>s. if s = ''code'' then Some (invite_bytes (\<lambda>_. replicate 32 9) 1 2 (replicate 16 3)) else None) sample_key_of
     (encode_invite_code (\<lambda>_. replicate 32 9) (\<lambda>_. ''code'') 1 2 (replicate 16 3)) =
   Inr \<lparr> di_network_key = 1, di_coordinator = 2, di_secret = replicate 16 3 \<rparr>"
proof -
  have "\<forall>bs k. sample_key_of bs = Some k \<longrightarrow> id_bytes k = bs" by (auto simp: sample_key_of_def idc.enc_dec)
  moreover have "sample_key_of (id_bytes k) = Some k" for k by (simp add: sample_key_of_def idc.length_enc idc.dec_enc)
  ultimately show ?thesis
    by (intro invite_code_round_trip [THEN conjunct2, rule_format]) (simp_all add: is_space_def)
qed

text \<open>Repeated deliveries share one credential: after a successful private delivery, asking again for
  the same recipient before it expires returns the same invite, whatever fresh secret is at hand, and
  leaves the ledger alone.\<close>

theorem delivery_reused:
  assumes "fst (delivery_for b3 e58 io now secret r n c st) = Inr i"
    and "now \<le> now'" and "now' < iv_expires i"
  shows "delivery_for b3 e58 io' now' secret' r n' c' (snd (delivery_for b3 e58 io now secret r n c st)) =
    (Inr i, snd (delivery_for b3 e58 io now secret r n c st))"
proof -
  have live: "is_live now v" if "is_live now' v" for v using that assms(2) by (auto simp: is_live_def)
  define Q where "Q = (\<lambda>t v. is_live t v \<and> (case iv_delivery v of Some d \<Rightarrow> dv_recipient d = r | None \<Rightarrow> False))"
  define st' where "st' = snd (delivery_for b3 e58 io now secret r n c st)"
  have "find (Q now') (st_invites st') = Some i"
  proof (cases "find (Q now) (st_invites st)")
    case (Some j)
    then have ji: "j = i" "st' = st" using assms(1) by (simp_all add: delivery_for_def live_delivery_def Q_def st'_def)
    have "find (Q now') xs = Some j" if "find (Q now) xs = Some j" "set xs \<subseteq> set (st_invites st)" for xs
      using that
    proof (induction xs)
      case (Cons v vs)
      then show ?case using live [of v] assms(3) ji(1) by (auto simp: Q_def is_live_def split: if_splits)
    qed simp
    from this [OF Some] ji show ?thesis by simp
  next
    case None
    have st': "st_invites st' = st_invites st @ [i]" and i: "iv_status i = Pending"
        "\<exists>d. iv_delivery i = Some d \<and> dv_recipient d = r"
      using assms(1) None
      by (auto simp: delivery_for_def live_delivery_def Q_def st'_def Let_def save_then_def new_invite_def split: if_splits)
    have "Q now' i" using i assms(3) by (auto simp: Q_def is_live_def)
    moreover have "find (Q now') (st_invites st) = None"
      using None live by (auto simp: find_None_iff Q_def)
    ultimately show ?thesis by (simp add: st' find_append_None)
  qed
  then show ?thesis unfolding st'_def [symmetric] by (simp add: delivery_for_def live_delivery_def Q_def)
qed

theorem delivery_reused_witness:
  "\<exists>i st'. delivery_for (\<lambda>x. x) (\<lambda>_. []) True 9 [2] 4 6 6 st' = (Inr i, st') \<and> iv_secret_hash i = hash_secret (\<lambda>x. x) [1]"
proof -
  define res where "res = delivery_for (\<lambda>x. x) (\<lambda>_. []) True 5 [1] 4 6 6 sample_store"
  obtain i where i: "fst res = Inr i" "iv_expires i = 5 + 7 * 86400" "iv_secret_hash i = hash_secret (\<lambda>x. x) [1]"
    by (simp add: res_def delivery_for_def live_delivery_def sample_store_def new_invite_def Let_def save_then_def
        saturating_add64_def delivery_ttl_def)
  have "delivery_for (\<lambda>x. x) (\<lambda>_. []) True 9 [2] 4 6 6 (snd res) = (Inr i, snd res)"
    unfolding res_def by (rule delivery_reused) (use i in \<open>simp_all add: res_def\<close>)
  with i(3) show ?thesis by blast
qed

end
