(* ===== verification/Peer_Table.thy ===== *)
theory Peer_Table
  imports Membership
begin

text \<open>
  The routing table of connected peers, \<open>src/src/peers.rs\<close>, with its device map, reachability record
  and roster routes (\<open>src/src/peers/\<close>). A QUIC connection is a handle with its local id, remote identity
  and exported TLS session id; which connections have been closed is part of the state, since every
  clone of a handle sees it. The hash maps are association lists, so that the model can list them; the
  millisecond clock is an argument, and the audit log is the list of its events. The concurrent map's per-entry
  lock makes each operation atomic, which here is one function call; the lock that orders handle
  announcements is not modelled.
\<close>

declare add_2_eq_Suc [simp del] add_2_eq_Suc' [simp del]

section \<open>Definitions\<close>

subsection \<open>Connections and entries\<close>

datatype quic_engine = Standalone | FqCodel

definition min_tun_mtu :: u16 where "min_tun_mtu = 1280"
definition tun_mtu :: u16 where "tun_mtu = 1500"

record conn =
  conn_id :: nat
  conn_remote :: endpoint_id
  conn_session :: "256 word"

record active_connection =
  ac_conn :: conn
  ac_scheduler :: bool
  ac_in_handles :: "(u16 \<times> string) list"
  ac_last_active :: nat
  ac_idle_close :: bool
  ac_receive_mtu :: u16
  ac_exit_ipv4 :: u8

record peer_entry =
  pe_endpoint_id :: endpoint_id
  pe_out_handles :: "(string \<times> u16) list"
  pe_active :: active_connection

definition decode_exit_ipv4 :: "u8 \<Rightarrow> bool option" where
  "decode_exit_ipv4 s = (if s = 1 then Some False else if s = 2 then Some True else None)"

definition new_active :: "quic_engine \<Rightarrow> nat \<Rightarrow> conn \<Rightarrow> active_connection" where
  "new_active engine now c =
     \<lparr> ac_conn = c, ac_scheduler = (engine = FqCodel), ac_in_handles = [], ac_last_active = now, ac_idle_close = False,
       ac_receive_mtu = min_tun_mtu, ac_exit_ipv4 = 0 \<rparr>"

definition active_matches :: "active_connection \<Rightarrow> conn \<Rightarrow> bool" where
  "active_matches a c \<longleftrightarrow> conn_id (ac_conn a) = conn_id c"

definition next_free_handle :: "(string \<times> u16) list \<Rightarrow> u16" where
  "next_free_handle used =
     (case find (\<lambda>h. h \<notin> snd ` set used) (map word_of_nat [1..<65536]) of Some h \<Rightarrow> h | None \<Rightarrow> 65535)"

definition new_entry :: "quic_engine \<Rightarrow> nat \<Rightarrow> endpoint_id \<Rightarrow> conn \<Rightarrow> string \<Rightarrow> peer_entry" where
  "new_entry engine now i c network =
     \<lparr> pe_endpoint_id = i, pe_out_handles = [(network, 1)], pe_active = new_active engine now c \<rparr>"

text \<open>\<open>install_connection\<close> tells whether the connection became the current one, and which connection it
  closed.\<close>

definition install_connection ::
    "quic_engine \<Rightarrow> nat \<Rightarrow> nat set \<Rightarrow> conn \<Rightarrow> peer_entry \<Rightarrow> bool \<times> peer_entry \<times> nat set" where
  "install_connection engine now closed c e =
     (let a = pe_active e in
      if active_matches a c then (False, e \<lparr> pe_active := a \<lparr> ac_last_active := now \<rparr> \<rparr>, closed)
      else if conn_id (ac_conn a) \<notin> closed \<and> conn_session (ac_conn a) \<le> conn_session c
      then (False, e, insert (conn_id c) closed)
      else (True, e \<lparr> pe_active := new_active engine now c \<rparr>, insert (conn_id (ac_conn a)) closed))"

text \<open>A route is what its lookup read: the source shares the mtu, exit and activity cells of the active
  connection with the routes it hands out.\<close>

record peer_route =
  pr_conn :: conn
  pr_scheduler :: bool
  pr_endpoint_id :: endpoint_id
  pr_ipv6 :: ipv6_addr
  pr_network :: string
  pr_handle :: u16
  pr_receive_mtu :: u16
  pr_exit_ipv4 :: u8

definition route_to :: "ipv6_addr \<Rightarrow> string \<Rightarrow> u16 \<Rightarrow> peer_entry \<Rightarrow> peer_route" where
  "route_to ip network h e =
     \<lparr> pr_conn = ac_conn (pe_active e), pr_scheduler = ac_scheduler (pe_active e), pr_endpoint_id = pe_endpoint_id e, pr_ipv6 = ip, pr_network = network, pr_handle = h,
       pr_receive_mtu = ac_receive_mtu (pe_active e), pr_exit_ipv4 = ac_exit_ipv4 (pe_active e) \<rparr>"

definition refuses_exit_ipv4 :: "peer_route \<Rightarrow> bool" where
  "refuses_exit_ipv4 r \<longleftrightarrow> decode_exit_ipv4 (pr_exit_ipv4 r) = Some False"

definition min_name :: "string list \<Rightarrow> string option" where
  "min_name ns = (case ns of [] \<Rightarrow> None | n # rest \<Rightarrow> Some (foldl min n rest))"

definition pick_network :: "peer_entry \<Rightarrow> string option" where
  "pick_network e =
     (let names = map fst (pe_out_handles e) in
      if length names < 2 then (case names of [] \<Rightarrow> None | n # _ \<Rightarrow> Some n)
      else case min_name (filter (\<lambda>n. n \<in> snd ` set (ac_in_handles (pe_active e))) names) of
          Some n \<Rightarrow> Some n
        | None \<Rightarrow> min_name names)"

definition entry_route :: "ipv6_addr \<Rightarrow> peer_entry \<Rightarrow> peer_route option" where
  "entry_route ip e =
     (case pick_network e of
        None \<Rightarrow> None
      | Some n \<Rightarrow> Some (route_to ip n (case map_of (pe_out_handles e) n of Some h \<Rightarrow> h | None \<Rightarrow> 0) e))"

subsection \<open>The table\<close>

datatype audit_event = AuditConnect ipv6_addr endpoint_id | AuditDisconnect ipv6_addr endpoint_id

record peer_table =
  pt_peers :: "(ipv6_addr \<times> peer_entry) list"
  pt_audit :: "audit_event list option"
  pt_incompatible :: "endpoint_id set"
  pt_local_mtu :: u16
  pt_engine :: quic_engine
  pt_closed :: "nat set"

definition new_peer_table :: peer_table where
  "new_peer_table = \<lparr> pt_peers = [], pt_audit = None, pt_incompatible = {}, pt_local_mtu = min_tun_mtu,
     pt_engine = Standalone, pt_closed = {} \<rparr>"

text \<open>The daemon's table starts on a log that it only appends to; the events before it are left out.\<close>

definition with_audit :: peer_table where
  "with_audit = new_peer_table \<lparr> pt_audit := Some [] \<rparr>"

definition with_engine :: "quic_engine \<Rightarrow> peer_table \<Rightarrow> peer_table" where
  "with_engine engine t = t \<lparr> pt_engine := engine \<rparr>"

definition set_local_mtu :: "u16 \<Rightarrow> peer_table \<Rightarrow> peer_table" where
  "set_local_mtu mtu t = t \<lparr> pt_local_mtu := mtu \<rparr>"

definition peer_at :: "peer_table \<Rightarrow> ipv6_addr \<Rightarrow> peer_entry option" where
  "peer_at t ip = map_of (pt_peers t) ip"

definition set_peer :: "ipv6_addr \<Rightarrow> peer_entry \<Rightarrow> peer_table \<Rightarrow> peer_table" where
  "set_peer ip e t = t \<lparr> pt_peers := AList.update ip e (pt_peers t) \<rparr>"

definition drop_peer :: "ipv6_addr \<Rightarrow> peer_table \<Rightarrow> peer_table" where
  "drop_peer ip t = t \<lparr> pt_peers := AList.delete ip (pt_peers t) \<rparr>"

definition audit :: "audit_event \<Rightarrow> peer_table \<Rightarrow> peer_table" where
  "audit ev t = t \<lparr> pt_audit := map_option (\<lambda>l. l @ [ev]) (pt_audit t) \<rparr>"

definition update_current :: "ipv6_addr \<Rightarrow> conn \<Rightarrow> (peer_entry \<Rightarrow> peer_entry) \<Rightarrow> peer_table \<Rightarrow> peer_table" where
  "update_current ip c f t =
     (case peer_at t ip of
        Some e \<Rightarrow> if active_matches (pe_active e) c then set_peer ip (f e) t else t
      | None \<Rightarrow> t)"

definition edit_active :: "(active_connection \<Rightarrow> active_connection) \<Rightarrow> peer_entry \<Rightarrow> peer_entry" where
  "edit_active f e = e \<lparr> pe_active := f (pe_active e) \<rparr>"

definition note_receive_mtu :: "(bytes \<Rightarrow> bytes) \<Rightarrow> endpoint_id \<Rightarrow> conn \<Rightarrow> u16 \<Rightarrow> peer_table \<Rightarrow> peer_table" where
  "note_receive_mtu blake3 i c mtu =
     update_current (derive_ipv6 blake3 i) c (edit_active (\<lambda>a. a \<lparr> ac_receive_mtu := max min_tun_mtu (min tun_mtu mtu) \<rparr>))"

definition mark_incompatible :: "endpoint_id \<Rightarrow> peer_table \<Rightarrow> peer_table" where
  "mark_incompatible i t = t \<lparr> pt_incompatible := insert i (pt_incompatible t) \<rparr>"

definition clear_incompatible :: "endpoint_id \<Rightarrow> peer_table \<Rightarrow> peer_table" where
  "clear_incompatible i t = t \<lparr> pt_incompatible := pt_incompatible t - {i} \<rparr>"

definition is_incompatible :: "endpoint_id \<Rightarrow> peer_table \<Rightarrow> bool" where
  "is_incompatible i t \<longleftrightarrow> i \<in> pt_incompatible t"

definition ensure_handle :: "string \<Rightarrow> peer_entry \<Rightarrow> peer_entry" where
  "ensure_handle network e =
     (if map_of (pe_out_handles e) network = None
      then e \<lparr> pe_out_handles := pe_out_handles e @ [(network, next_free_handle (pe_out_handles e))] \<rparr>
      else e)"

definition pt_add :: "nat \<Rightarrow> ipv6_addr \<Rightarrow> conn \<Rightarrow> endpoint_id \<Rightarrow> string \<Rightarrow> peer_table \<Rightarrow> bool \<times> peer_table" where
  "pt_add now ip c i network t =
     (if conn_id c \<in> pt_closed t then (False, t)
      else case peer_at t ip of
          Some e \<Rightarrow>
            let (changed, e1, closed) = install_connection (pt_engine t) now (pt_closed t) c e;
                e2 = ensure_handle network (e1 \<lparr> pe_endpoint_id := i \<rparr>)
            in (changed, clear_incompatible i ((set_peer ip e2 t) \<lparr> pt_closed := closed \<rparr>))
        | None \<Rightarrow>
            (True, audit (AuditConnect ip i)
              (clear_incompatible i (set_peer ip (new_entry (pt_engine t) now i c network) t))))"

definition ipv6_for_id :: "(bytes \<Rightarrow> bytes) \<Rightarrow> endpoint_id \<Rightarrow> peer_table \<Rightarrow> ipv6_addr option" where
  "ipv6_for_id blake3 i t = (let ip = derive_ipv6 blake3 i in if peer_at t ip \<noteq> None then Some ip else None)"

definition note_exit_ipv4_support :: "(bytes \<Rightarrow> bytes) \<Rightarrow> endpoint_id \<Rightarrow> conn \<Rightarrow> bool \<Rightarrow> peer_table \<Rightarrow> peer_table" where
  "note_exit_ipv4_support blake3 i c supported =
     update_current (derive_ipv6 blake3 i) c (edit_active (\<lambda>a. a \<lparr> ac_exit_ipv4 := (if supported then 2 else 1) \<rparr>))"

definition exit_ipv4_support :: "ipv6_addr \<Rightarrow> peer_table \<Rightarrow> bool option" where
  "exit_ipv4_support ip t = Option.bind (peer_at t ip) (\<lambda>e. decode_exit_ipv4 (ac_exit_ipv4 (pe_active e)))"

definition note_idle_support_by_id :: "(bytes \<Rightarrow> bytes) \<Rightarrow> endpoint_id \<Rightarrow> conn \<Rightarrow> bool \<Rightarrow> peer_table \<Rightarrow> peer_table" where
  "note_idle_support_by_id blake3 i c supported =
     update_current (derive_ipv6 blake3 i) c (edit_active (\<lambda>a. a \<lparr> ac_idle_close := supported \<rparr>))"

definition current_active :: "(bytes \<Rightarrow> bytes) \<Rightarrow> endpoint_id \<Rightarrow> conn \<Rightarrow> peer_table \<Rightarrow> active_connection option" where
  "current_active blake3 i c t =
     (case peer_at t (derive_ipv6 blake3 i) of
        Some e \<Rightarrow> if active_matches (pe_active e) c then Some (pe_active e) else None
      | None \<Rightarrow> None)"

definition supports_idle_close :: "(bytes \<Rightarrow> bytes) \<Rightarrow> endpoint_id \<Rightarrow> conn \<Rightarrow> peer_table \<Rightarrow> bool" where
  "supports_idle_close blake3 i c t = (case current_active blake3 i c t of Some a \<Rightarrow> ac_idle_close a | None \<Rightarrow> False)"

definition last_active_of :: "(bytes \<Rightarrow> bytes) \<Rightarrow> endpoint_id \<Rightarrow> conn \<Rightarrow> peer_table \<Rightarrow> nat option" where
  "last_active_of blake3 i c t = map_option ac_last_active (current_active blake3 i c t)"

text \<open>Milliseconds left until the connection has been idle for \<open>idle\<close>; both differences saturate.\<close>

definition idle_remaining :: "(bytes \<Rightarrow> bytes) \<Rightarrow> nat \<Rightarrow> endpoint_id \<Rightarrow> conn \<Rightarrow> nat \<Rightarrow> peer_table \<Rightarrow> nat option" where
  "idle_remaining blake3 now i c idle t = map_option (\<lambda>last. idle - (now - last)) (last_active_of blake3 i c t)"

definition resolve_inbound :: "nat \<Rightarrow> ipv6_addr \<Rightarrow> conn \<Rightarrow> u16 \<Rightarrow> peer_table \<Rightarrow> string option \<times> peer_table" where
  "resolve_inbound now ip c h t =
     (case peer_at t ip of
        None \<Rightarrow> (None, t)
      | Some e \<Rightarrow>
          if \<not> active_matches (pe_active e) c then (None, t)
          else case map_of (ac_in_handles (pe_active e)) h of
              None \<Rightarrow> (None, t)
            | Some network \<Rightarrow>
                if map_of (pe_out_handles e) network = None then (None, t)
                else (Some network, set_peer ip (edit_active (\<lambda>a. a \<lparr> ac_last_active := now \<rparr>) e) t))"

definition lookup_v6 :: "ipv6_addr \<Rightarrow> peer_table \<Rightarrow> peer_route option" where
  "lookup_v6 ip t = Option.bind (peer_at t ip) (entry_route ip)"

definition route_on_network :: "ipv6_addr \<Rightarrow> string \<Rightarrow> peer_table \<Rightarrow> peer_route option" where
  "route_on_network ip network t =
     Option.bind (peer_at t ip) (\<lambda>e. map_option (\<lambda>h. route_to ip network h e) (map_of (pe_out_handles e) network))"

definition handle_table :: "(u16 \<times> string) list \<Rightarrow> (u16 \<times> string) list" where
  "handle_table entries = fold (\<lambda>(h, n). AList.update h n) entries []"

definition set_inbound_handles :: "ipv6_addr \<Rightarrow> conn \<Rightarrow> (u16 \<times> string) list \<Rightarrow> peer_table \<Rightarrow> peer_table" where
  "set_inbound_handles ip c entries =
     update_current ip c (edit_active (\<lambda>a. a \<lparr> ac_in_handles := handle_table entries \<rparr>))"

definition outbound_handles :: "ipv6_addr \<Rightarrow> peer_table \<Rightarrow> (string \<times> u16) list" where
  "outbound_handles ip t = (case peer_at t ip of Some e \<Rightarrow> pe_out_handles e | None \<Rightarrow> [])"

definition out_handle :: "ipv6_addr \<Rightarrow> string \<Rightarrow> peer_table \<Rightarrow> u16 option" where
  "out_handle ip network t = Option.bind (peer_at t ip) (\<lambda>e. map_of (pe_out_handles e) network)"

definition attach_network :: "ipv6_addr \<Rightarrow> string \<Rightarrow> peer_table \<Rightarrow> u16 option \<times> peer_table" where
  "attach_network ip network t =
     (case peer_at t ip of
        None \<Rightarrow> (None, t)
      | Some e \<Rightarrow>
          if map_of (pe_out_handles e) network \<noteq> None then (None, t)
          else let h = next_free_handle (pe_out_handles e)
               in (Some h, set_peer ip (e \<lparr> pe_out_handles := pe_out_handles e @ [(network, h)] \<rparr>) t))"

definition add_inbound_handle_by_id ::
    "(bytes \<Rightarrow> bytes) \<Rightarrow> endpoint_id \<Rightarrow> conn \<Rightarrow> u16 \<Rightarrow> string \<Rightarrow> peer_table \<Rightarrow> peer_table" where
  "add_inbound_handle_by_id blake3 i c h network =
     update_current (derive_ipv6 blake3 i) c
       (edit_active (\<lambda>a. a \<lparr> ac_in_handles := AList.update h network (ac_in_handles a) \<rparr>))"

definition identity_for_ip :: "ipv6_addr \<Rightarrow> peer_table \<Rightarrow> endpoint_id option" where
  "identity_for_ip ip t = map_option pe_endpoint_id (peer_at t ip)"

definition shares_network_v6 :: "ipv6_addr \<Rightarrow> string \<Rightarrow> peer_table \<Rightarrow> bool" where
  "shares_network_v6 ip network t =
     (case peer_at t ip of Some e \<Rightarrow> map_of (pe_out_handles e) network \<noteq> None | None \<Rightarrow> False)"

definition conn_for_ip :: "ipv6_addr \<Rightarrow> peer_table \<Rightarrow> conn option" where
  "conn_for_ip ip t = map_option (\<lambda>e. ac_conn (pe_active e)) (peer_at t ip)"

definition conn_is_current :: "ipv6_addr \<Rightarrow> nat \<Rightarrow> peer_table \<Rightarrow> bool" where
  "conn_is_current ip sid t =
     (case peer_at t ip of Some e \<Rightarrow> conn_id (ac_conn (pe_active e)) = sid | None \<Rightarrow> False)"

definition drop_audited :: "ipv6_addr \<Rightarrow> peer_entry \<Rightarrow> peer_table \<Rightarrow> peer_table" where
  "drop_audited ip e t = audit (AuditDisconnect ip (pe_endpoint_id e)) (drop_peer ip t)"

definition pt_remove :: "ipv6_addr \<Rightarrow> peer_table \<Rightarrow> peer_table" where
  "pt_remove ip t = (case peer_at t ip of Some e \<Rightarrow> drop_audited ip e t | None \<Rightarrow> t)"

definition remove_connection :: "ipv6_addr \<Rightarrow> nat option \<Rightarrow> peer_table \<Rightarrow> string list option \<times> peer_table" where
  "remove_connection ip sid t =
     (case peer_at t ip of
        None \<Rightarrow> (None, t)
      | Some e \<Rightarrow>
          if (case sid of None \<Rightarrow> True | Some i \<Rightarrow> conn_id (ac_conn (pe_active e)) = i)
          then (Some (map fst (pe_out_handles e)), drop_audited ip e t)
          else (None, t))"

definition drop_handle :: "string \<Rightarrow> peer_entry \<Rightarrow> peer_entry" where
  "drop_handle network e = e \<lparr> pe_out_handles := AList.delete network (pe_out_handles e) \<rparr>"

definition remove_peer_from_network :: "ipv6_addr \<Rightarrow> string \<Rightarrow> peer_table \<Rightarrow> conn option \<times> peer_table" where
  "remove_peer_from_network ip network t =
     (case peer_at t ip of
        None \<Rightarrow> (None, t)
      | Some e \<Rightarrow>
          let e1 = drop_handle network e in
          if pe_out_handles e1 = [] then (Some (ac_conn (pe_active e1)), drop_audited ip e1 t)
          else (None, set_peer ip e1 t))"

definition remove_peer_from_network_by_id :: "(bytes \<Rightarrow> bytes) \<Rightarrow> endpoint_id \<Rightarrow> string \<Rightarrow> peer_table \<Rightarrow> conn option \<times> peer_table" where
  "remove_peer_from_network_by_id blake3 i network = remove_peer_from_network (derive_ipv6 blake3 i) network"

definition remove_by_network :: "string \<Rightarrow> peer_table \<Rightarrow> (ipv6_addr \<times> conn) list \<times> peer_table" where
  "remove_by_network network t =
     (let ps = map (map_prod id (drop_handle network)) (pt_peers t);
          gone = filter (\<lambda>(ip, e). pe_out_handles e = []) ps
      in (map (\<lambda>(ip, e). (ip, ac_conn (pe_active e))) gone,
          t \<lparr> pt_peers := filter (\<lambda>(ip, e). pe_out_handles e \<noteq> []) ps,
              pt_audit := map_option (\<lambda>l. l @ map (\<lambda>(ip, e). AuditDisconnect ip (pe_endpoint_id e)) gone) (pt_audit t) \<rparr>))"

definition all_connections :: "peer_table \<Rightarrow> (ipv6_addr \<times> conn) list" where
  "all_connections t = map (\<lambda>(ip, e). (ip, ac_conn (pe_active e))) (pt_peers t)"

definition peers_for_network :: "string \<Rightarrow> peer_table \<Rightarrow> (endpoint_id \<times> ipv6_addr) list" where
  "peers_for_network network t =
     map (\<lambda>(ip, e). (pe_endpoint_id e, ip)) (filter (\<lambda>(ip, e). map_of (pe_out_handles e) network \<noteq> None) (pt_peers t))"

definition peers_for_network_with_conn :: "string \<Rightarrow> peer_table \<Rightarrow> (endpoint_id \<times> ipv6_addr \<times> conn) list" where
  "peers_for_network_with_conn network t =
     map (\<lambda>(ip, e). (pe_endpoint_id e, ip, ac_conn (pe_active e)))
       (filter (\<lambda>(ip, e). map_of (pe_out_handles e) network \<noteq> None) (pt_peers t))"

subsection \<open>Device map, reachability and roster routes\<close>

type_synonym device_user_map = "(endpoint_id \<times> endpoint_id) list"

definition du_insert :: "endpoint_id \<Rightarrow> endpoint_id \<Rightarrow> device_user_map \<Rightarrow> device_user_map" where
  "du_insert device user m = AList.update device user m"

definition du_resolve :: "device_user_map \<Rightarrow> endpoint_id \<Rightarrow> endpoint_id" where
  "du_resolve m k = (case map_of m k of Some u \<Rightarrow> u | None \<Rightarrow> k)"

definition devices_for :: "endpoint_id \<Rightarrow> device_user_map \<Rightarrow> endpoint_id list" where
  "devices_for user m = map fst (filter (\<lambda>(d, u). u = user) m)"

definition du_remove :: "endpoint_id \<Rightarrow> device_user_map \<Rightarrow> device_user_map" where
  "du_remove device m = AList.delete device m"

definition find_conn :: "(bytes \<Rightarrow> bytes) \<Rightarrow> peer_table \<Rightarrow> endpoint_id \<Rightarrow> (ipv6_addr \<times> conn) option" where
  "find_conn blake3 t i =
     (let ip = derive_ipv6 blake3 i in map_option (\<lambda>e. (ip, ac_conn (pe_active e))) (peer_at t ip))"

fun find_map :: "('a \<Rightarrow> 'b option) \<Rightarrow> 'a list \<Rightarrow> 'b option" where
  "find_map f [] = None"
| "find_map f (x # xs) = (case f x of Some y \<Rightarrow> Some y | None \<Rightarrow> find_map f xs)"

definition connected_device_for ::
    "(bytes \<Rightarrow> bytes) \<Rightarrow> endpoint_id \<Rightarrow> device_user_map \<Rightarrow> peer_table \<Rightarrow> (ipv6_addr \<times> conn) option" where
  "connected_device_for blake3 i m t =
     (case find_conn blake3 t i of Some r \<Rightarrow> Some r | None \<Rightarrow> find_map (find_conn blake3 t) (devices_for i m))"

record reach_state =
  last_ok :: "instant option"
  last_fail :: "instant option"

type_synonym reachability = "endpoint_id \<rightharpoonup> reach_state"

definition failing_within :: "instant \<Rightarrow> duration \<Rightarrow> reach_state \<Rightarrow> bool" where
  "failing_within now window s =
     (case last_fail s of
        Some f \<Rightarrow> now - f < window \<and> (case last_ok s of None \<Rightarrow> True | Some ok \<Rightarrow> ok < f)
      | None \<Rightarrow> False)"

definition reach_of :: "reachability \<Rightarrow> endpoint_id \<Rightarrow> reach_state" where
  "reach_of r i = (case r i of Some s \<Rightarrow> s | None \<Rightarrow> \<lparr> last_ok = None, last_fail = None \<rparr>)"

definition note_ok :: "instant \<Rightarrow> endpoint_id \<Rightarrow> reachability \<Rightarrow> reachability" where
  "note_ok now i r = r(i \<mapsto> (reach_of r i) \<lparr> last_ok := Some now \<rparr>)"

definition note_fail :: "instant \<Rightarrow> endpoint_id \<Rightarrow> reachability \<Rightarrow> reachability" where
  "note_fail now i r = r(i \<mapsto> (reach_of r i) \<lparr> last_fail := Some now \<rparr>)"

definition is_offline :: "instant \<Rightarrow> endpoint_id \<Rightarrow> duration \<Rightarrow> reachability \<Rightarrow> bool" where
  "is_offline now i staleness r = (case r i of Some s \<Rightarrow> failing_within now staleness s | None \<Rightarrow> False)"

record route_entry =
  re_endpoint_id :: endpoint_id
  re_networks :: "string set"

type_synonym roster_route_map = "(ipv6_addr \<times> route_entry) list"

record route_member =
  rm_endpoint_id :: endpoint_id
  rm_ipv6 :: ipv6_addr

definition rr_upsert :: "ipv6_addr \<Rightarrow> endpoint_id \<Rightarrow> string \<Rightarrow> roster_route_map \<Rightarrow> roster_route_map" where
  "rr_upsert ip i network m =
     (let ns = (case map_of m ip of Some e \<Rightarrow> re_networks e | None \<Rightarrow> {})
      in AList.update ip \<lparr> re_endpoint_id = i, re_networks = insert network ns \<rparr> m)"

definition rr_drop_network :: "ipv6_addr \<Rightarrow> string \<Rightarrow> roster_route_map \<Rightarrow> roster_route_map" where
  "rr_drop_network ip network m =
     (case map_of m ip of
        None \<Rightarrow> m
      | Some e \<Rightarrow>
          let ns = re_networks e - {network}
          in if ns = {} then AList.delete ip m else AList.update ip (e \<lparr> re_networks := ns \<rparr>) m)"

definition rr_holders :: "string \<Rightarrow> roster_route_map \<Rightarrow> ipv6_addr list" where
  "rr_holders network m = map fst (filter (\<lambda>(ip, e). network \<in> re_networks e) m)"

definition sync_network :: "string \<Rightarrow> route_member list \<Rightarrow> roster_route_map \<Rightarrow> roster_route_map" where
  "sync_network network members m =
     (let stale = filter (\<lambda>ip. ip \<notin> rm_ipv6 ` set members) (rr_holders network m);
          m1 = fold (\<lambda>ip. rr_drop_network ip network) stale m
      in fold (\<lambda>mem. rr_upsert (rm_ipv6 mem) (rm_endpoint_id mem) network) members m1)"

definition rr_remove_network :: "string \<Rightarrow> roster_route_map \<Rightarrow> roster_route_map" where
  "rr_remove_network network m = fold (\<lambda>ip. rr_drop_network ip network) (rr_holders network m) m"

definition sync_add :: "string \<Rightarrow> ipv6_addr \<Rightarrow> endpoint_id \<Rightarrow> roster_route_map \<Rightarrow> roster_route_map" where
  "sync_add network ip i = rr_upsert ip i network"

definition resolve_v6 :: "ipv6_addr \<Rightarrow> roster_route_map \<Rightarrow> (endpoint_id \<times> ipv6_addr \<times> string set) option" where
  "resolve_v6 ip m = map_option (\<lambda>e. (re_endpoint_id e, ip, re_networks e)) (map_of m ip)"

subsection \<open>Operations as steps\<close>

text \<open>Every operation of the table that writes, with its arguments, and the run of a sequence of them.\<close>

datatype peer_op =
    OpAdd nat ipv6_addr conn endpoint_id string
  | OpReceiveMtu endpoint_id conn u16
  | OpExitSupport endpoint_id conn bool
  | OpIdleSupport endpoint_id conn bool
  | OpMarkIncompatible endpoint_id
  | OpClearIncompatible endpoint_id
  | OpResolve nat ipv6_addr conn u16
  | OpSetHandles ipv6_addr conn "(u16 \<times> string) list"
  | OpAddHandle endpoint_id conn u16 string
  | OpAttach ipv6_addr string
  | OpRemove ipv6_addr
  | OpRemoveConn ipv6_addr "nat option"
  | OpLeave ipv6_addr string
  | OpLeaveId endpoint_id string
  | OpDropNetwork string
  | OpClose nat
  | OpLocalMtu u16

fun peer_step :: "(bytes \<Rightarrow> bytes) \<Rightarrow> peer_op \<Rightarrow> peer_table \<Rightarrow> peer_table" where
  "peer_step b (OpAdd now ip c i n) t = snd (pt_add now ip c i n t)"
| "peer_step b (OpReceiveMtu i c mtu) t = note_receive_mtu b i c mtu t"
| "peer_step b (OpExitSupport i c s) t = note_exit_ipv4_support b i c s t"
| "peer_step b (OpIdleSupport i c s) t = note_idle_support_by_id b i c s t"
| "peer_step b (OpMarkIncompatible i) t = mark_incompatible i t"
| "peer_step b (OpClearIncompatible i) t = clear_incompatible i t"
| "peer_step b (OpResolve now ip c h) t = snd (resolve_inbound now ip c h t)"
| "peer_step b (OpSetHandles ip c hs) t = set_inbound_handles ip c hs t"
| "peer_step b (OpAddHandle i c h n) t = add_inbound_handle_by_id b i c h n t"
| "peer_step b (OpAttach ip n) t = snd (attach_network ip n t)"
| "peer_step b (OpRemove ip) t = pt_remove ip t"
| "peer_step b (OpRemoveConn ip sid) t = snd (remove_connection ip sid t)"
| "peer_step b (OpLeave ip n) t = snd (remove_peer_from_network ip n t)"
| "peer_step b (OpLeaveId i n) t = snd (remove_peer_from_network_by_id b i n t)"
| "peer_step b (OpDropNetwork n) t = snd (remove_by_network n t)"
| "peer_step b (OpClose sid) t = t \<lparr> pt_closed := insert sid (pt_closed t) \<rparr>"
| "peer_step b (OpLocalMtu mtu) t = set_local_mtu mtu t"

definition peer_run :: "(bytes \<Rightarrow> bytes) \<Rightarrow> peer_op list \<Rightarrow> peer_table \<Rightarrow> peer_table" where
  "peer_run b ops t = fold (peer_step b) ops t"

fun op_network :: "peer_op \<Rightarrow> string set" where
  "op_network (OpAdd _ _ _ _ n) = {n}"
| "op_network (OpAttach _ n) = {n}"
| "op_network _ = {}"

section \<open>Invariant\<close>

definition entry_ok :: "string set \<Rightarrow> peer_entry \<Rightarrow> bool" where
  "entry_ok N e \<longleftrightarrow>
     pe_out_handles e \<noteq> [] \<and> distinct (map fst (pe_out_handles e)) \<and> distinct (map snd (pe_out_handles e)) \<and>
     0 \<notin> snd ` set (pe_out_handles e) \<and> fst ` set (pe_out_handles e) \<subseteq> N \<and>
     distinct (map fst (ac_in_handles (pe_active e))) \<and>
     min_tun_mtu \<le> ac_receive_mtu (pe_active e) \<and> ac_receive_mtu (pe_active e) \<le> tun_mtu"

definition connects :: "ipv6_addr \<Rightarrow> audit_event list \<Rightarrow> nat" where
  "connects ip l = length (filter (\<lambda>ev. case ev of AuditConnect a _ \<Rightarrow> a = ip | _ \<Rightarrow> False) l)"

definition disconnects :: "ipv6_addr \<Rightarrow> audit_event list \<Rightarrow> nat" where
  "disconnects ip l = length (filter (\<lambda>ev. case ev of AuditDisconnect a _ \<Rightarrow> a = ip | _ \<Rightarrow> False) l)"

definition audit_ok :: "peer_table \<Rightarrow> bool" where
  "audit_ok t \<longleftrightarrow>
     (\<forall>l ip. pt_audit t = Some l \<longrightarrow> connects ip l = disconnects ip l + (if peer_at t ip = None then 0 else 1))"

definition pt_ok :: "string set \<Rightarrow> peer_table \<Rightarrow> bool" where
  "pt_ok N t \<longleftrightarrow> distinct (map fst (pt_peers t)) \<and> (\<forall>ip e. peer_at t ip = Some e \<longrightarrow> entry_ok N e) \<and> audit_ok t"

subsection \<open>Handles\<close>

lemma handles_range: "set (map word_of_nat [1..<65536]) = (UNIV :: u16 set) - {0}"
proof -
  have "x \<in> word_of_nat ` {1..<65536}" if "x \<noteq> 0" for x :: u16
  proof
    show "x = word_of_nat (unat x)" by simp
    have "0 < unat x" using that by (simp add: unat_gt_0)
    moreover have "unat x < 65536" using unsigned_less [of x, where ?'a = nat] by simp
    ultimately show "unat x \<in> {1..<65536}" by simp
  qed
  moreover have "(word_of_nat n :: u16) \<noteq> 0" if "1 \<le> n" "n < 65536" for n
  proof -
    have "unat (word_of_nat n :: u16) = n" using that by (simp add: unat_of_nat take_bit_nat_eq_self)
    then show ?thesis using that by auto
  qed
  ultimately show ?thesis by (auto simp only: set_map set_upt atLeastLessThan_iff image_iff)
qed

lemma next_free_handle_fresh:
  assumes "length used < 65535"
  shows "next_free_handle used \<notin> snd ` set used" "next_free_handle used \<noteq> 0"
proof -
  have "\<not> (UNIV :: u16 set) - {0} \<subseteq> snd ` set used"
  proof
    assume "(UNIV :: u16 set) - {0} \<subseteq> snd ` set used"
    then have "card ((UNIV :: u16 set) - {0}) \<le> card (snd ` set used)" by (intro card_mono) simp_all
    also have "\<dots> \<le> length used" using card_image_le [of "set used" snd] card_length [of used] by simp
    finally show False using assms by (simp add: card_Diff_singleton card_word)
  qed
  then obtain h where "find (\<lambda>h. h \<notin> snd ` set used) (map word_of_nat [1..<65536]) = Some h"
    using handles_range by (cases "find (\<lambda>h. h \<notin> snd ` set used) (map word_of_nat [1..<65536] :: u16 list)")
      (auto simp only: find_None_iff)
  moreover from this have "h \<in> set (map word_of_nat [1..<65536])" "h \<notin> snd ` set used"
    by (simp_all only: find_Some_iff) (metis nth_mem)+
  ultimately show "next_free_handle used \<notin> snd ` set used" "next_free_handle used \<noteq> 0"
    unfolding next_free_handle_def handles_range by simp_all
qed

subsection \<open>Every operation keeps the invariant\<close>

lemma peer_at_set_peer [simp]: "peer_at (set_peer ip e t) ip' = (if ip' = ip then Some e else peer_at t ip')"
  by (simp add: peer_at_def set_peer_def update_conv')

lemma peer_at_drop_peer [simp]: "peer_at (drop_peer ip t) ip' = (if ip' = ip then None else peer_at t ip')"
  by (simp add: peer_at_def drop_peer_def delete_conv')

lemma peer_at_fields [simp]:
  "peer_at (t \<lparr> pt_closed := x \<rparr>) ip = peer_at t ip" "peer_at (t \<lparr> pt_incompatible := y \<rparr>) ip = peer_at t ip"
  "peer_at (t \<lparr> pt_audit := z \<rparr>) ip = peer_at t ip" "peer_at (audit ev t) ip = peer_at t ip"
  "peer_at (set_local_mtu mtu t) ip = peer_at t ip"
  by (simp_all add: peer_at_def audit_def set_local_mtu_def)

lemma pt_audit_fields [simp]:
  "pt_audit (set_peer ip e t) = pt_audit t" "pt_audit (drop_peer ip t) = pt_audit t"
  "pt_audit (audit ev t) = map_option (\<lambda>l. l @ [ev]) (pt_audit t)"
  "pt_audit (set_local_mtu mtu t) = pt_audit t" "pt_peers (set_local_mtu mtu t) = pt_peers t"
  by (simp_all add: set_peer_def drop_peer_def audit_def set_local_mtu_def)

lemma pt_ok_fields [simp]:
  "pt_ok N (t \<lparr> pt_closed := x \<rparr>) = pt_ok N t" "pt_ok N (t \<lparr> pt_incompatible := y \<rparr>) = pt_ok N t"
  "pt_ok N (set_local_mtu mtu t) = pt_ok N t"
  by (simp_all add: pt_ok_def audit_ok_def)

lemma pt_okD: "pt_ok N t \<Longrightarrow> peer_at t ip = Some e \<Longrightarrow> entry_ok N e"
  by (simp add: pt_ok_def)

lemma pt_ok_set_peer:
  assumes "pt_ok N t" "peer_at t ip = Some e" "entry_ok N e'"
  shows "pt_ok N (set_peer ip e' t)"
proof -
  have "peer_at (set_peer ip e' t) a = None \<longleftrightarrow> peer_at t a = None" for a using assms(2) by simp
  then have "audit_ok (set_peer ip e' t) = audit_ok t" unfolding audit_ok_def pt_audit_fields by presburger
  then show ?thesis
    using assms by (simp add: pt_ok_def) (simp add: set_peer_def distinct_update)
qed

lemma connects_append [simp]:
  "connects ip (l @ m) = connects ip l + connects ip m" "disconnects ip (l @ m) = disconnects ip l + disconnects ip m"
  by (simp_all add: connects_def disconnects_def)

lemma connects_single [simp]:
  "connects ip [AuditConnect a i] = (if a = ip then 1 else 0)" "connects ip [AuditDisconnect a i] = 0"
  "disconnects ip [AuditDisconnect a i] = (if a = ip then 1 else 0)" "disconnects ip [AuditConnect a i] = 0"
  by (simp_all add: connects_def disconnects_def)

lemma pt_ok_drop_audited:
  assumes "pt_ok N t" "peer_at t ip = Some e"
  shows "pt_ok N (drop_audited ip e' t)"
proof -
  have "audit_ok (drop_audited ip e' t)"
    using assms by (auto simp: pt_ok_def audit_ok_def drop_audited_def)
  moreover have "distinct (map fst (pt_peers (drop_audited ip e' t)))"
    using assms(1) by (simp add: pt_ok_def drop_audited_def audit_def drop_peer_def distinct_delete)
  ultimately show ?thesis
    using assms by (simp add: pt_ok_def) (simp add: drop_audited_def)
qed

lemma pt_ok_register:
  assumes "pt_ok N t" "peer_at t ip = None" "entry_ok N e"
  shows "pt_ok N (audit (AuditConnect ip i) (clear_incompatible j (set_peer ip e t)))"
proof -
  let ?t = "audit (AuditConnect ip i) (clear_incompatible j (set_peer ip e t))"
  have "audit_ok ?t"
    using assms by (auto simp: pt_ok_def audit_ok_def clear_incompatible_def)
  moreover have "distinct (map fst (pt_peers ?t))"
    using assms(1) by (simp add: pt_ok_def audit_def set_peer_def clear_incompatible_def distinct_update)
  ultimately show ?thesis
    using assms by (simp add: pt_ok_def clear_incompatible_def)
qed

lemma entry_ok_active:
  assumes "entry_ok N e" "distinct (map fst (ac_in_handles (f (pe_active e))))"
    "min_tun_mtu \<le> ac_receive_mtu (f (pe_active e))" "ac_receive_mtu (f (pe_active e)) \<le> tun_mtu"
  shows "entry_ok N (edit_active f e)"
  using assms by (simp add: entry_ok_def edit_active_def)

lemma pt_ok_update_current:
  assumes "pt_ok N t" "\<And>e. entry_ok N e \<Longrightarrow> entry_ok N (f e)"
  shows "pt_ok N (update_current ip c f t)"
  using assms by (auto simp: update_current_def intro: pt_ok_set_peer pt_okD split: option.splits)

lemma entry_ok_new:
  assumes "n \<in> N"
  shows "entry_ok N (new_entry engine now i c n)"
  using assms by (simp add: entry_ok_def new_entry_def new_active_def min_tun_mtu_def tun_mtu_def)

lemma entry_ok_handle:
  assumes "entry_ok N e" "finite N" "card N \<le> 65535" "n \<in> N" "map_of (pe_out_handles e) n = None"
  shows "entry_ok N (e \<lparr> pe_out_handles := pe_out_handles e @ [(n, next_free_handle (pe_out_handles e))] \<rparr>)"
proof -
  let ?o = "pe_out_handles e"
  have new: "n \<notin> fst ` set ?o" using assms(5) by (simp add: map_of_eq_None_iff)
  have "length ?o = card (fst ` set ?o)"
    using assms(1) distinct_card [of "map fst ?o"] by (simp add: entry_ok_def)
  also have "\<dots> < card N"
    using assms(1,2,4) new by (intro psubset_card_mono) (auto simp: entry_ok_def)
  finally have "length ?o < 65535" using assms(3) by simp
  from next_free_handle_fresh [OF this] show ?thesis
    using assms(1,4) new by (auto simp: entry_ok_def)
qed

lemma entry_ok_ensure:
  assumes "entry_ok N e" "finite N" "card N \<le> 65535" "n \<in> N"
  shows "entry_ok N (ensure_handle n e)"
  using entry_ok_handle [OF assms] assms(1) by (simp add: ensure_handle_def)

lemma entry_ok_install:
  assumes "entry_ok N e" "install_connection engine now closed c e = (b, e', closed')"
  shows "entry_ok N e'" "pe_out_handles e' = pe_out_handles e"
proof -
  have *: "entry_ok N (e \<lparr> pe_active := new_active engine now c \<rparr>)"
    using assms(1) by (simp add: entry_ok_def new_active_def min_tun_mtu_def tun_mtu_def)
  have **: "entry_ok N (e \<lparr> pe_active := (pe_active e) \<lparr> ac_last_active := now \<rparr> \<rparr>)"
    using assms(1) by (simp add: entry_ok_def)
  show "entry_ok N e'" "pe_out_handles e' = pe_out_handles e"
    using assms * ** unfolding install_connection_def Let_def by (auto split: if_splits)
qed

lemma entry_ok_id [simp]: "entry_ok N (e \<lparr> pe_endpoint_id := i \<rparr>) = entry_ok N e"
  by (simp add: entry_ok_def)

lemma pt_ok_add:
  assumes "pt_ok N t" "finite N" "card N \<le> 65535" "n \<in> N"
  shows "pt_ok N (snd (pt_add now ip c i n t))"
proof (cases "peer_at t ip")
  case None
  then show ?thesis using assms by (auto simp: pt_add_def intro: pt_ok_register entry_ok_new)
next
  case (Some e)
  obtain b e1 closed where *: "install_connection (pt_engine t) now (pt_closed t) c e = (b, e1, closed)"
    by (metis prod_cases3)
  have "entry_ok N (ensure_handle n (e1 \<lparr> pe_endpoint_id := i \<rparr>))"
    using entry_ok_install(1) [OF pt_okD [OF assms(1) Some] *] assms by (intro entry_ok_ensure) simp_all
  then show ?thesis
    using assms(1) Some * by (auto simp: pt_add_def clear_incompatible_def Let_def intro: pt_ok_set_peer)
qed

lemma distinct_handle_table: "distinct (map fst (handle_table entries))"
proof -
  have "distinct (map fst acc) \<Longrightarrow> distinct (map fst (fold (\<lambda>(h, n). AList.update h n) entries acc))" for acc
    by (induction entries arbitrary: acc) (auto simp: distinct_update)
  then show ?thesis by (simp add: handle_table_def)
qed

lemma entry_ok_drop:
  assumes "entry_ok N e" "pe_out_handles (drop_handle n e) \<noteq> []"
  shows "entry_ok N (drop_handle n e)"
proof -
  have *: "set (AList.delete n (pe_out_handles e)) \<subseteq> set (pe_out_handles e)" by (auto simp: AList.delete_eq)
  have "distinct (map snd (AList.delete n (pe_out_handles e)))"
    using assms(1) by (simp add: entry_ok_def AList.delete_eq distinct_map_filter)
  moreover have "0 \<notin> snd ` set (AList.delete n (pe_out_handles e))" "fst ` set (AList.delete n (pe_out_handles e)) \<subseteq> N"
    using assms(1) * by (auto simp: entry_ok_def)
  ultimately show ?thesis
    using assms by (simp add: entry_ok_def drop_handle_def distinct_delete)
qed

lemma map_of_map_filter:
  assumes "distinct (map fst xs)"
  shows "map_of (filter (\<lambda>(k, v). P v) (map (map_prod id f) xs)) k =
    (case map_of xs k of None \<Rightarrow> None | Some v \<Rightarrow> if P (f v) then Some (f v) else None)"
  using assms
proof (induction xs)
  case (Cons x xs)
  then have "map_of xs (fst x) = None" by (simp add: map_of_eq_None_iff)
  then show ?case using Cons by (cases x) (auto split: option.splits)
qed simp

lemma peer_at_remove_by_network:
  assumes "distinct (map fst (pt_peers t))"
  shows "peer_at (snd (remove_by_network n t)) ip =
    (case peer_at t ip of None \<Rightarrow> None
     | Some e \<Rightarrow> if pe_out_handles (drop_handle n e) \<noteq> [] then Some (drop_handle n e) else None)"
  using map_of_map_filter [OF assms, of "\<lambda>e. pe_out_handles e \<noteq> []" "drop_handle n" ip]
  by (simp add: peer_at_def remove_by_network_def Let_def)

lemma disconnects_gone:
  assumes "distinct (map fst xs)"
  shows "disconnects ip (map (\<lambda>(ip, e). AuditDisconnect ip (pe_endpoint_id e)) (filter (\<lambda>(k, v). P v) (map (map_prod id f) xs))) =
    (case map_of xs ip of None \<Rightarrow> 0 | Some v \<Rightarrow> if P (f v) then 1 else 0)"
  using assms
proof (induction xs)
  case (Cons x xs)
  then have "map_of xs (fst x) = None" by (simp add: map_of_eq_None_iff)
  then show ?case using Cons by (cases x) (auto simp: disconnects_def split: option.splits)
qed (simp add: disconnects_def)

lemma connects_gone: "connects ip (map (\<lambda>(ip, e). AuditDisconnect ip (f e)) xs) = 0"
  by (auto simp: connects_def filter_empty_conv)

lemma pt_ok_remove_by_network:
  assumes "pt_ok N t"
  shows "pt_ok N (snd (remove_by_network n t))"
proof -
  have d: "distinct (map fst (pt_peers t))" using assms by (simp add: pt_ok_def)
  let ?t = "snd (remove_by_network n t)"
  have "distinct (map fst (pt_peers ?t))"
    using d by (simp add: remove_by_network_def Let_def distinct_map_filter comp_def)
  moreover have "audit_ok ?t"
    unfolding audit_ok_def
  proof (intro allI impI)
    fix l' ip assume l': "pt_audit ?t = Some l'"
    then obtain l where l: "pt_audit t = Some l" by (auto simp: remove_by_network_def Let_def)
    have "connects ip l = disconnects ip l + (if peer_at t ip = None then 0 else 1)"
      using assms l by (simp add: pt_ok_def audit_ok_def)
    moreover have "connects ip l' = connects ip l"
      using l l' by (auto simp: remove_by_network_def Let_def connects_gone)
    moreover have "disconnects ip l' = disconnects ip l +
        (case peer_at t ip of None \<Rightarrow> 0 | Some e \<Rightarrow> if pe_out_handles (drop_handle n e) = [] then 1 else 0)"
      using l l' disconnects_gone [OF d, of ip "\<lambda>e. pe_out_handles e = []" "drop_handle n"]
      by (auto simp: remove_by_network_def Let_def peer_at_def)
    ultimately show "connects ip l' = disconnects ip l' + (if peer_at ?t ip = None then 0 else 1)"
      by (simp add: peer_at_remove_by_network [OF d] split: option.splits)
  qed
  moreover have "entry_ok N e" if "peer_at ?t ip = Some e" for ip e
    using that entry_ok_drop pt_okD [OF assms] by (auto simp: peer_at_remove_by_network [OF d] split: option.splits if_splits)
  ultimately show ?thesis by (simp add: pt_ok_def)
qed

lemma pt_ok_leave: "pt_ok N t \<Longrightarrow> pt_ok N (snd (remove_peer_from_network ip n t))"
  by (auto simp: remove_peer_from_network_def Let_def intro: pt_ok_drop_audited pt_ok_set_peer entry_ok_drop pt_okD split: option.splits)

lemma pt_ok_peer_step:
  assumes "pt_ok N t" "finite N" "card N \<le> 65535" "op_network op \<subseteq> N"
  shows "pt_ok N (peer_step b op t)"
proof (cases op)
  case (OpAdd now ip c i n)
  then show ?thesis using assms pt_ok_add by simp
next
  case (OpReceiveMtu i c mtu)
  have "min_tun_mtu \<le> max min_tun_mtu (min tun_mtu mtu)" "max min_tun_mtu (min tun_mtu mtu) \<le> tun_mtu"
    by (simp_all add: min_tun_mtu_def tun_mtu_def)
  then show ?thesis using OpReceiveMtu assms(1)
    by (auto simp: note_receive_mtu_def entry_ok_def intro!: pt_ok_update_current entry_ok_active)
next
  case (OpAddHandle i c h n)
  then show ?thesis using assms(1)
    by (auto simp: add_inbound_handle_by_id_def entry_ok_def distinct_update intro!: pt_ok_update_current entry_ok_active)
next
  case (OpSetHandles ip c hs)
  then show ?thesis using assms(1)
    by (auto simp: set_inbound_handles_def entry_ok_def distinct_handle_table intro!: pt_ok_update_current entry_ok_active)
next
  case (OpExitSupport i c s)
  then show ?thesis using assms(1)
    by (auto simp: note_exit_ipv4_support_def entry_ok_def intro!: pt_ok_update_current entry_ok_active)
next
  case (OpIdleSupport i c s)
  then show ?thesis using assms(1)
    by (auto simp: note_idle_support_by_id_def entry_ok_def intro!: pt_ok_update_current entry_ok_active)
next
  case (OpResolve now ip c h)
  have "entry_ok N e \<Longrightarrow> entry_ok N (edit_active (\<lambda>a. a \<lparr> ac_last_active := now \<rparr>) e)" for e
    by (rule entry_ok_active) (auto simp: entry_ok_def)
  then show ?thesis using OpResolve assms(1)
    by (auto simp: resolve_inbound_def intro: pt_ok_set_peer pt_okD split: option.splits)
next
  case (OpAttach ip n)
  then show ?thesis using assms
    by (auto simp: attach_network_def Let_def intro!: pt_ok_set_peer entry_ok_handle dest: pt_okD split: option.splits)
next
  case (OpLeave ip n)
  then show ?thesis using assms(1) pt_ok_leave by simp
next
  case (OpLeaveId i n)
  then show ?thesis using assms(1) pt_ok_leave by (simp add: remove_peer_from_network_by_id_def)
next
  case (OpDropNetwork n)
  then show ?thesis using assms(1) pt_ok_remove_by_network by simp
qed (use assms(1) in \<open>auto simp: mark_incompatible_def clear_incompatible_def pt_remove_def remove_connection_def
      intro: pt_ok_drop_audited split: option.splits\<close>)

lemma pt_ok_run:
  assumes "pt_ok N t" "finite N" "card N \<le> 65535" "\<forall>op \<in> set ops. op_network op \<subseteq> N"
  shows "pt_ok N (peer_run b ops t)"
  using assms(1,4) unfolding peer_run_def
  by (induction ops arbitrary: t) (auto simp: pt_ok_peer_step [OF _ assms(2,3)])

section \<open>Selection of one connection\<close>

type_synonym registration = "nat \<times> conn \<times> string"

definition register :: "ipv6_addr \<Rightarrow> endpoint_id \<Rightarrow> registration list \<Rightarrow> peer_table \<Rightarrow> peer_table" where
  "register ip i regs t = fold (\<lambda>(now, c, n) t. snd (pt_add now ip c i n t)) regs t"

definition conns_of :: "registration list \<Rightarrow> conn set" where
  "conns_of regs = (\<lambda>(now, c, n). c) ` set regs"

lemma conns_of_simps [simp]: "conns_of [] = {}" "conns_of ((now, c, n) # regs) = insert c (conns_of regs)"
  by (simp_all add: conns_of_def)

definition selected :: "conn set \<Rightarrow> conn set \<Rightarrow> ipv6_addr \<Rightarrow> peer_table \<Rightarrow> bool" where
  "selected U S ip t \<longleftrightarrow> (\<exists>c \<in> S. conn_for_ip ip t = Some c \<and> conn_id c \<notin> pt_closed t \<and>
     (\<forall>d \<in> S. conn_session c \<le> conn_session d \<and> (d \<noteq> c \<longrightarrow> conn_id d \<in> pt_closed t)) \<and>
     (\<forall>d \<in> U. conn_id d \<in> pt_closed t \<longrightarrow> d \<in> S))"

lemma conn_for_ip_add:
  assumes "peer_at t ip = Some e" "conn_id c \<notin> pt_closed t"
  shows "conn_for_ip ip (snd (pt_add now ip c i n t)) = Some (
      if conn_id (ac_conn (pe_active e)) \<noteq> conn_id c \<and>
         (conn_id (ac_conn (pe_active e)) \<in> pt_closed t \<or> conn_session c < conn_session (ac_conn (pe_active e)))
      then c else ac_conn (pe_active e))"
    and "pt_closed (snd (pt_add now ip c i n t)) = (
      if conn_id (ac_conn (pe_active e)) = conn_id c then pt_closed t
      else if conn_id (ac_conn (pe_active e)) \<in> pt_closed t \<or> conn_session c < conn_session (ac_conn (pe_active e))
      then insert (conn_id (ac_conn (pe_active e))) (pt_closed t) else insert (conn_id c) (pt_closed t))"
  using assms
  by (auto simp: conn_for_ip_def pt_add_def install_connection_def Let_def clear_incompatible_def ensure_handle_def
      active_matches_def new_active_def not_less)

lemma selected_add:
  assumes "selected U S ip t" "inj_on conn_id U" "S \<subseteq> U" "c \<in> U"
  shows "selected U (insert c S) ip (snd (pt_add now ip c i n t))"
proof (cases "conn_id c \<in> pt_closed t")
  case True
  then have "c \<in> S" using assms(1,4) by (auto simp: selected_def)
  then show ?thesis using assms(1) True by (simp add: pt_add_def insert_absorb)
next
  case False
  obtain c0 where c0: "c0 \<in> S" "conn_for_ip ip t = Some c0" "conn_id c0 \<notin> pt_closed t"
      "\<forall>d \<in> S. conn_session c0 \<le> conn_session d \<and> (d \<noteq> c0 \<longrightarrow> conn_id d \<in> pt_closed t)"
      "\<forall>d \<in> U. conn_id d \<in> pt_closed t \<longrightarrow> d \<in> S"
    using assms(1) by (auto simp: selected_def)
  then obtain e where e: "peer_at t ip = Some e" "ac_conn (pe_active e) = c0"
    by (auto simp: conn_for_ip_def)
  have id: "conn_id d = conn_id d' \<longleftrightarrow> d = d'" if "d \<in> U" "d' \<in> U" for d d'
    using assms(2) that by (meson inj_on_def)
  have "c0 \<in> U" using c0(1) assms(3) by blast
  let ?t = "snd (pt_add now ip c i n t)"
  note add = conn_for_ip_add [OF e(1) False, unfolded e(2), of now i n]
  consider "c = c0" | "c \<noteq> c0" "conn_session c < conn_session c0" | "c \<noteq> c0" "\<not> conn_session c < conn_session c0"
    by blast
  then show ?thesis
  proof cases
    case 1
    then have "conn_for_ip ip ?t = Some c0" "pt_closed ?t = pt_closed t" using add by simp_all
    then show ?thesis using 1 c0 by (simp add: selected_def insert_absorb)
  next
    case 2
    then have new: "conn_for_ip ip ?t = Some c" "pt_closed ?t = insert (conn_id c0) (pt_closed t)"
      using add id [OF \<open>c0 \<in> U\<close> assms(4)] by simp_all
    have "conn_session c \<le> conn_session d \<and> (d \<noteq> c \<longrightarrow> conn_id d \<in> pt_closed ?t)" if "d \<in> insert c S" for d
      using that 2(2) c0(4) unfolding new by (metis insert_iff less_imp_le order.trans order.refl)
    moreover have "d \<in> insert c S" if "d \<in> U" "conn_id d \<in> pt_closed ?t" for d
      using that c0(1,5) id [OF that(1) \<open>c0 \<in> U\<close>] unfolding new by blast
    moreover have "conn_id c \<notin> pt_closed ?t" using False 2(1) id [OF assms(4) \<open>c0 \<in> U\<close>] unfolding new by simp
    ultimately show ?thesis unfolding selected_def using new(1) by blast
  next
    case 3
    then have new: "conn_for_ip ip ?t = Some c0" "pt_closed ?t = insert (conn_id c) (pt_closed t)"
      using add id [OF \<open>c0 \<in> U\<close> assms(4)] c0(3) by simp_all
    have "conn_session c0 \<le> conn_session d \<and> (d \<noteq> c0 \<longrightarrow> conn_id d \<in> pt_closed ?t)" if "d \<in> insert c S" for d
      using that 3(2) c0(4) unfolding new by (metis insert_iff not_less)
    moreover have "d \<in> insert c S" if "d \<in> U" "conn_id d \<in> pt_closed ?t" for d
      using that c0(5) id [OF that(1) assms(4)] unfolding new by blast
    moreover have "conn_id c0 \<notin> pt_closed ?t" using c0(3) 3(1) id [OF assms(4) \<open>c0 \<in> U\<close>] unfolding new by simp
    ultimately show ?thesis unfolding selected_def using new(1) c0(1) by blast
  qed
qed

lemma selected_run:
  assumes "selected U S ip t" "inj_on conn_id U" "S \<subseteq> U" "conns_of regs \<subseteq> U"
  shows "selected U (S \<union> conns_of regs) ip (register ip i regs t)"
  using assms(1,3,4)
proof (induction regs arbitrary: S t)
  case Nil
  then show ?case by (simp add: register_def conns_of_def)
next
  case (Cons r regs)
  obtain now c n where r: "r = (now, c, n)" by (metis prod_cases3)
  have "selected U (insert c S \<union> conns_of regs) ip (register ip i regs (snd (pt_add now ip c i n t)))"
    using Cons.prems by (intro Cons.IH selected_add assms(2)) (auto simp: r)
  then show ?case by (simp add: r register_def)
qed

definition fresh_registrations :: "ipv6_addr \<Rightarrow> registration list \<Rightarrow> peer_table \<Rightarrow> bool" where
  "fresh_registrations ip regs t \<longleftrightarrow>
     regs \<noteq> [] \<and> peer_at t ip = None \<and> inj_on conn_id (conns_of regs) \<and> (\<forall>c \<in> conns_of regs. conn_id c \<notin> pt_closed t)"

lemma selected_register:
  assumes "fresh_registrations ip regs t"
  shows "selected (conns_of regs) (conns_of regs) ip (register ip i regs t)"
proof -
  obtain now c n rest where regs: "regs = (now, c, n) # rest"
    using assms by (cases regs) (auto simp: fresh_registrations_def)
  have "selected (conns_of regs) {c} ip (snd (pt_add now ip c i n t))"
    using assms by (auto simp: selected_def fresh_registrations_def regs pt_add_def conn_for_ip_def
        new_entry_def new_active_def audit_def clear_incompatible_def set_peer_def peer_at_def update_conv')
  then have "selected (conns_of regs) ({c} \<union> conns_of rest) ip (register ip i rest (snd (pt_add now ip c i n t)))"
    using assms by (intro selected_run) (auto simp: fresh_registrations_def regs)
  then show ?thesis by (simp add: regs register_def)
qed

text \<open>C7. Both ends keep the same connection: when two machines open several connections to each other at
  once, and each end registers all of them, in any order and any number of times, both end up with the
  one that has the lowest session id, still open, and have closed every other.\<close>

theorem both_ends_keep_one_connection:
  assumes "fresh_registrations ip regs t" "fresh_registrations ip' regs' t'"
    and "conn_session ` conns_of regs = conn_session ` conns_of regs'"
  shows "\<exists>c c'. conn_for_ip ip (register ip i regs t) = Some c \<and> conn_for_ip ip' (register ip' i' regs' t') = Some c' \<and>
    conn_session c = conn_session c' \<and> (\<forall>d \<in> conns_of regs. conn_session c \<le> conn_session d) \<and>
    (\<forall>d \<in> conns_of regs. conn_id d \<in> pt_closed (register ip i regs t) \<longleftrightarrow> d \<noteq> c) \<and>
    (\<forall>d \<in> conns_of regs'. conn_id d \<in> pt_closed (register ip' i' regs' t') \<longleftrightarrow> d \<noteq> c')"
proof -
  obtain c where c: "c \<in> conns_of regs" "conn_for_ip ip (register ip i regs t) = Some c"
      "\<forall>d \<in> conns_of regs. conn_session c \<le> conn_session d"
      "\<forall>d \<in> conns_of regs. conn_id d \<in> pt_closed (register ip i regs t) \<longleftrightarrow> d \<noteq> c"
    using selected_register [OF assms(1), of i] by (auto simp: selected_def)
  obtain c' where c': "c' \<in> conns_of regs'" "conn_for_ip ip' (register ip' i' regs' t') = Some c'"
      "\<forall>d \<in> conns_of regs'. conn_session c' \<le> conn_session d"
      "\<forall>d \<in> conns_of regs'. conn_id d \<in> pt_closed (register ip' i' regs' t') \<longleftrightarrow> d \<noteq> c'"
    using selected_register [OF assms(2), of i'] by (auto simp: selected_def)
  have "conn_session c' \<in> conn_session ` conns_of regs" "conn_session c \<in> conn_session ` conns_of regs'"
    using c(1) c'(1) assms(3) by auto
  then have "conn_session c = conn_session c'" using c(3) c'(3) by (auto intro: antisym)
  then show ?thesis using c c' by blast
qed

definition sample_conn :: "nat \<Rightarrow> 256 word \<Rightarrow> conn" where
  "sample_conn k s = \<lparr> conn_id = k, conn_remote = 7, conn_session = s \<rparr>"

definition sample_regs :: "registration list" where
  "sample_regs = [(0, sample_conn 1 9, ''dev''), (1, sample_conn 2 4, ''db''), (2, sample_conn 1 9, ''db'')]"

definition sample_regs' :: "registration list" where
  "sample_regs' = [(0, sample_conn 6 4, ''dev''), (3, sample_conn 5 9, ''dev'')]"

theorem both_ends_keep_one_connection_witness:
  "\<exists>c c'. conn_for_ip 1 (register 1 7 sample_regs new_peer_table) = Some c \<and>
     conn_for_ip 2 (register 2 8 sample_regs' new_peer_table) = Some c' \<and> conn_session c = conn_session c' \<and>
     conn_session c \<le> 4 \<and> (sample_conn 1 9 \<noteq> c \<longrightarrow> 1 \<in> pt_closed (register 1 7 sample_regs new_peer_table))"
proof -
  have "fresh_registrations 1 sample_regs new_peer_table" "fresh_registrations 2 sample_regs' new_peer_table"
    by (auto simp: fresh_registrations_def new_peer_table_def peer_at_def sample_conn_def sample_regs_def sample_regs'_def)
  moreover have "conn_session ` conns_of sample_regs = conn_session ` conns_of sample_regs'"
    by (auto simp: sample_conn_def sample_regs_def sample_regs'_def)
  ultimately obtain c c' where c: "conn_for_ip 1 (register 1 7 sample_regs new_peer_table) = Some c"
      "conn_for_ip 2 (register 2 8 sample_regs' new_peer_table) = Some c'" "conn_session c = conn_session c'"
      "\<forall>d \<in> conns_of sample_regs. conn_session c \<le> conn_session d"
      "\<forall>d \<in> conns_of sample_regs. conn_id d \<in> pt_closed (register 1 7 sample_regs new_peer_table) \<longleftrightarrow> d \<noteq> c"
    using both_ends_keep_one_connection [of 1 sample_regs new_peer_table 2 sample_regs' new_peer_table 7 8] by blast
  have "conn_session c \<le> conn_session (sample_conn 2 4)" "sample_conn 1 9 \<noteq> c \<Longrightarrow> conn_id (sample_conn 1 9) \<in> pt_closed (register 1 7 sample_regs new_peer_table)"
    using c(4,5) by (simp_all add: sample_regs_def)
  then show ?thesis using c(1,2,3) by (simp add: sample_conn_def)
qed

section \<open>Handles and routes\<close>

text \<open>C14. The table stays well formed: whatever operations run, with at most 65535 networks, each peer has at
  least one shared network, its handles are nonzero and pairwise different, its advertised packet size
  is within 1280 and 1500, and the audit log has one disconnect for every connect of a peer that is gone
  and one connect more than disconnects for every peer that is present.\<close>

theorem peer_table_invariant:
  assumes "finite N" "card N \<le> 65535" "\<forall>op \<in> set ops. op_network op \<subseteq> N"
  shows "pt_ok N (peer_run b ops (with_engine engine with_audit))"
proof -
  have "pt_ok N (with_engine engine with_audit)"
    by (simp add: pt_ok_def audit_ok_def with_engine_def with_audit_def new_peer_table_def peer_at_def connects_def
        disconnects_def)
  then show ?thesis using pt_ok_run assms by blast
qed

lemma min_name_in: "ns \<noteq> [] \<Longrightarrow> \<exists>m. min_name ns = Some m \<and> m \<in> set ns"
proof (cases ns)
  case (Cons n rest)
  have "foldl min n rest \<in> set (n # rest)" for n
    by (induction rest arbitrary: n) (auto simp: min_def)
  then show ?thesis using Cons by (auto simp: min_name_def)
qed simp

lemma pick_network_common:
  assumes "n \<in> fst ` set (pe_out_handles e)" "n \<in> snd ` set (ac_in_handles (pe_active e))"
  shows "\<exists>m. pick_network e = Some m \<and> m \<in> fst ` set (pe_out_handles e) \<and> m \<in> snd ` set (ac_in_handles (pe_active e))"
proof (cases "length (map fst (pe_out_handles e)) < 2")
  case True
  then have "map fst (pe_out_handles e) = [n]"
    using assms(1) by (cases "pe_out_handles e" rule: list.exhaust) (auto simp: length_Suc_conv less_Suc_eq)
  then show ?thesis using assms by (auto simp: pick_network_def)
next
  case False
  let ?ns = "filter (\<lambda>n. n \<in> snd ` set (ac_in_handles (pe_active e))) (map fst (pe_out_handles e))"
  have "?ns \<noteq> []" using assms by (auto simp: filter_empty_conv)
  from min_name_in [OF this] obtain m where "min_name ?ns = Some m" "m \<in> set ?ns" by blast
  then show ?thesis using False by (simp add: pick_network_def)
qed

lemma map_of_handle_table:
  assumes "distinct (map fst xs)"
  shows "map_of (handle_table xs) = map_of xs"
proof -
  have "map_of (fold (\<lambda>(h, n). AList.update h n) xs acc) = map_of acc ++ map_of xs" if "distinct (map fst xs)" for acc
    using that
  proof (induction xs arbitrary: acc)
    case (Cons x xs)
    then have "map_of xs (fst x) = None" by (simp add: map_of_eq_None_iff)
    then show ?case using Cons by (cases x) (auto simp: update_conv' map_add_def fun_eq_iff split: option.splits)
  qed simp
  then show ?thesis using assms by (simp add: handle_table_def)
qed

lemma handle_table_values:
  assumes "distinct (map fst xs)"
  shows "snd ` set (handle_table xs) = snd ` set xs"
  using map_of_handle_table [OF assms] by (metis assms distinct_handle_table ran_distinct)

abbreviation announcement :: "ipv6_addr \<Rightarrow> peer_table \<Rightarrow> (u16 \<times> string) list" where
  "announcement ip t \<equiv> map prod.swap (outbound_handles ip t)"

lemma announced_tag_resolves:
  assumes "pt_ok N a" "pt_ok M b" "conn_is_current ip_b (conn_id ca) a" "conn_is_current ip_a (conn_id cb) b"
    and "shares_network_v6 ip_b n a" "shares_network_v6 ip_a n b"
  shows "\<exists>r. lookup_v6 ip_b (set_inbound_handles ip_b ca (announcement ip_a b) a) = Some r \<and> pr_handle r \<noteq> 0 \<and>
    fst (resolve_inbound now ip_a cb (pr_handle r) (set_inbound_handles ip_a cb (announcement ip_b a) b)) = Some (pr_network r)"
proof -
  obtain e f where e: "peer_at a ip_b = Some e" "active_matches (pe_active e) ca"
      and f: "peer_at b ip_a = Some f" "active_matches (pe_active f) cb"
    using assms(3,4) by (auto simp: conn_is_current_def active_matches_def split: option.splits)
  let ?oe = "pe_out_handles e" and ?of = "pe_out_handles f"
  have ok: "distinct (map fst (map prod.swap ?oe))" "distinct (map fst (map prod.swap ?of))" "distinct (map fst ?oe)"
      "0 \<notin> snd ` set ?oe"
    using pt_okD [OF assms(1) e(1)] pt_okD [OF assms(2) f(1)] by (simp_all add: entry_ok_def comp_def)
  let ?e = "edit_active (\<lambda>x. x \<lparr> ac_in_handles := handle_table (map prod.swap ?of) \<rparr>) e"
  have announced: "snd ` set (ac_in_handles (pe_active ?e)) = fst ` set ?of"
    by (simp add: edit_active_def handle_table_values [OF ok(2)] image_image)
  have "n \<in> fst ` set ?oe" "n \<in> fst ` set ?of"
    using assms(5,6) e f by (auto simp: shares_network_v6_def) (force dest: map_of_SomeD)+
  then obtain m where m: "pick_network ?e = Some m" "m \<in> fst ` set ?oe" "m \<in> fst ` set ?of"
    using pick_network_common [of n ?e] announced by (auto simp: edit_active_def)
  then obtain h where h: "map_of ?oe m = Some h" by (metis domIff dom_map_of_conv_image_fst option.exhaust)
  have "map_of (handle_table (map prod.swap ?oe)) h = Some m"
    using h ok(1) by (subst map_of_handle_table [OF ok(1)]) (force dest: map_of_SomeD intro: map_of_is_SomeI)
  moreover have "map_of ?of m \<noteq> None" using m(3) by (auto simp: map_of_eq_None_iff)
  moreover have "lookup_v6 ip_b (set_inbound_handles ip_b ca (announcement ip_a b) a) = Some (route_to ip_b m h ?e)"
    using e f m(1) h
    by (simp add: lookup_v6_def set_inbound_handles_def update_current_def outbound_handles_def entry_route_def)
       (simp add: edit_active_def)
  moreover have "h \<noteq> 0" using h ok(4) by (force dest: map_of_SomeD)
  ultimately show ?thesis
    using e f
    by (auto simp: route_to_def resolve_inbound_def set_inbound_handles_def update_current_def outbound_handles_def
        edit_active_def active_matches_def)
qed

text \<open>C13. Packets are not black-holed: once two machines have announced their handles to each other and
  still share some network, the network and handle that one picks for a packet is one that the other
  resolves back to that network.\<close>

theorem tagged_packet_resolves:
  assumes "pt_ok N a" "pt_ok M b" "conn_is_current ip_b (conn_id ca) a" "conn_is_current ip_a (conn_id cb) b"
    and "shares_network_v6 ip_b n a" "shares_network_v6 ip_a n b"
  shows "\<exists>r. lookup_v6 ip_b (set_inbound_handles ip_b ca (announcement ip_a b) a) = Some r \<and>
    fst (resolve_inbound now ip_a cb (pr_handle r) (set_inbound_handles ip_a cb (announcement ip_b a) b)) = Some (pr_network r)"
  using announced_tag_resolves [OF assms] by blast

definition sample_ops :: "nat \<Rightarrow> ipv6_addr \<Rightarrow> string \<Rightarrow> string \<Rightarrow> peer_op list" where
  "sample_ops k ip n m = [OpAdd 0 ip (sample_conn k 9) 7 n, OpAttach ip m, OpResolve 5 ip (sample_conn k 9) 1]"

lemma sample_ops_ok: "pt_ok {n, m} (peer_run b (sample_ops k ip n m) (with_engine engine with_audit))"
proof (rule pt_ok_run)
  show "pt_ok {n, m} (with_engine engine with_audit)"
    by (simp add: pt_ok_def audit_ok_def with_engine_def with_audit_def new_peer_table_def peer_at_def connects_def
        disconnects_def)
  show "card {n, m} \<le> 65535" by (cases "n = m") simp_all
qed (auto simp: sample_ops_def)

theorem peer_table_invariant_witness:
  "pt_ok {''dev'', ''db''} (peer_run (\<lambda>x. x) (sample_ops 1 5 ''dev'' ''db'') (with_engine FqCodel with_audit))"
  by (rule peer_table_invariant) (auto simp: sample_ops_def)

theorem tagged_packet_resolves_witness:
  "let a = peer_run (\<lambda>x. x) (sample_ops 1 2 ''aa'' ''dev'') (with_engine FqCodel with_audit);
       b = peer_run (\<lambda>x. x) (sample_ops 5 3 ''dev'' ''zz'') (with_engine Standalone with_audit)
   in \<exists>r. lookup_v6 2 (set_inbound_handles 2 (sample_conn 1 9) (announcement 3 b) a) = Some r \<and>
     fst (resolve_inbound 9 3 (sample_conn 5 9) (pr_handle r) (set_inbound_handles 3 (sample_conn 5 9) (announcement 2 a) b)) =
       Some (pr_network r)"
  unfolding Let_def
proof (rule tagged_packet_resolves [where n = "''dev''"])
  let ?a = "peer_run (\<lambda>x. x) (sample_ops 1 2 ''aa'' ''dev'') (with_engine FqCodel with_audit)"
  let ?b = "peer_run (\<lambda>x. x) (sample_ops 5 3 ''dev'' ''zz'') (with_engine Standalone with_audit)"
  note defs = peer_run_def sample_ops_def with_engine_def with_audit_def new_peer_table_def pt_add_def resolve_inbound_def
    attach_network_def peer_at_def new_entry_def new_active_def set_peer_def audit_def clear_incompatible_def active_matches_def
    conn_is_current_def shares_network_v6_def sample_conn_def Let_def
  show "conn_is_current 2 (conn_id (sample_conn 1 9)) ?a" "conn_is_current 3 (conn_id (sample_conn 5 9)) ?b"
    "shares_network_v6 2 ''dev'' ?a" "shares_network_v6 3 ''dev'' ?b"
    by (simp_all add: defs)
qed (rule sample_ops_ok)+

text \<open>C27. A connection that is not the current one can do nothing: its late announcements, its datagrams and
  the report of its end leave the table as it is.\<close>

theorem stale_connection_inert:
  assumes "\<not> conn_is_current ip (conn_id c) t" "ip = derive_ipv6 blake3 i"
  shows "note_receive_mtu blake3 i c mtu t = t \<and> note_exit_ipv4_support blake3 i c s t = t \<and>
    note_idle_support_by_id blake3 i c s t = t \<and> add_inbound_handle_by_id blake3 i c h n t = t \<and>
    set_inbound_handles ip c hs t = t \<and> resolve_inbound now ip c h t = (None, t) \<and>
    remove_connection ip (Some (conn_id c)) t = (None, t) \<and> idle_remaining blake3 now i c d t = None"
  using assms
  by (auto simp: note_receive_mtu_def note_exit_ipv4_support_def note_idle_support_by_id_def add_inbound_handle_by_id_def
      set_inbound_handles_def update_current_def conn_is_current_def active_matches_def resolve_inbound_def
      remove_connection_def idle_remaining_def last_active_of_def current_active_def split: option.splits)

theorem stale_connection_inert_witness:
  "let b = (\<lambda>x. replicate 32 0); t = snd (pt_add 0 (derive_ipv6 b 7) (sample_conn 2 4) 7 ''dev'' new_peer_table) in
     note_receive_mtu b 7 (sample_conn 1 9) 1400 t = t \<and>
     remove_connection (derive_ipv6 b 7) (Some (conn_id (sample_conn 1 9))) t = (None, t)"
proof -
  let ?b = "\<lambda>x :: bytes. replicate 32 0 :: bytes"
  let ?t = "snd (pt_add 0 (derive_ipv6 ?b 7) (sample_conn 2 4) 7 ''dev'' new_peer_table)"
  have "\<not> conn_is_current (derive_ipv6 ?b 7) (conn_id (sample_conn 1 9)) ?t"
    by (simp add: conn_is_current_def pt_add_def new_peer_table_def peer_at_def set_peer_def audit_def clear_incompatible_def
        new_entry_def new_active_def sample_conn_def)
  from stale_connection_inert [OF this refl] show ?thesis by (simp add: Let_def)
qed

section \<open>Roster routes\<close>

definition rr_nets :: "roster_route_map \<Rightarrow> ipv6_addr \<Rightarrow> string set" where
  "rr_nets m ip = (case map_of m ip of Some e \<Rightarrow> re_networks e | None \<Rightarrow> {})"

definition rr_ok :: "roster_route_map \<Rightarrow> bool" where
  "rr_ok m \<longleftrightarrow> distinct (map fst m) \<and> (\<forall>ip e. map_of m ip = Some e \<longrightarrow> re_networks e \<noteq> {})"

lemma rr_upsert:
  "rr_nets (rr_upsert ip i n m) = (rr_nets m)(ip := insert n (rr_nets m ip))"
  "rr_ok m \<Longrightarrow> rr_ok (rr_upsert ip i n m)"
  by (auto simp: rr_nets_def rr_upsert_def rr_ok_def Let_def update_conv' distinct_update fun_eq_iff)

lemma rr_drop_network:
  "rr_nets (rr_drop_network ip n m) = (rr_nets m)(ip := rr_nets m ip - {n})"
  "rr_ok m \<Longrightarrow> rr_ok (rr_drop_network ip n m)"
  by (auto simp: rr_nets_def rr_drop_network_def rr_ok_def Let_def update_conv' delete_conv' distinct_update distinct_delete
      fun_eq_iff simp del: map_of_eq_Some_iff split: option.splits)

lemma rr_drop_all:
  "rr_nets (fold (\<lambda>ip. rr_drop_network ip n) ips m) ip = (if ip \<in> set ips then rr_nets m ip - {n} else rr_nets m ip)"
  "rr_ok m \<Longrightarrow> rr_ok (fold (\<lambda>ip. rr_drop_network ip n) ips m)"
  by (induction ips arbitrary: m) (auto simp: rr_drop_network)

lemma rr_upsert_all:
  "rr_nets (fold (\<lambda>mem. rr_upsert (rm_ipv6 mem) (rm_endpoint_id mem) n) mems m) ip =
    (if ip \<in> rm_ipv6 ` set mems then insert n (rr_nets m ip) else rr_nets m ip)"
  "rr_ok m \<Longrightarrow> rr_ok (fold (\<lambda>mem. rr_upsert (rm_ipv6 mem) (rm_endpoint_id mem) n) mems m)"
  by (induction mems arbitrary: m) (auto simp: rr_upsert)

lemma rr_holders_iff:
  assumes "rr_ok m"
  shows "ip \<in> set (rr_holders n m) \<longleftrightarrow> n \<in> rr_nets m ip"
proof -
  have "ip \<in> set (rr_holders n m) \<longleftrightarrow> (\<exists>e. (ip, e) \<in> set m \<and> n \<in> re_networks e)"
    by (force simp: rr_holders_def)
  also have "\<dots> \<longleftrightarrow> (\<exists>e. map_of m ip = Some e \<and> n \<in> re_networks e)"
    using assms by (simp add: rr_ok_def)
  also have "\<dots> \<longleftrightarrow> n \<in> rr_nets m ip"
    by (auto simp: rr_nets_def simp del: map_of_eq_Some_iff split: option.splits)
  finally show ?thesis .
qed

definition rr_endpoint :: "roster_route_map \<Rightarrow> ipv6_addr \<Rightarrow> endpoint_id option" where
  "rr_endpoint m ip = map_option re_endpoint_id (map_of m ip)"

lemma rr_endpoint_upsert: "rr_endpoint (rr_upsert ip i n m) = (rr_endpoint m)(ip \<mapsto> i)"
  by (auto simp: rr_endpoint_def rr_upsert_def Let_def update_conv' fun_eq_iff)

lemma rr_endpoint_upsert_all:
  "rr_endpoint (fold (\<lambda>mem. rr_upsert (rm_ipv6 mem) (rm_endpoint_id mem) n) mems m) ip =
    (case find (\<lambda>mem. rm_ipv6 mem = ip) (rev mems) of
       Some mem \<Rightarrow> Some (rm_endpoint_id mem) | None \<Rightarrow> rr_endpoint m ip)"
  by (induction mems rule: rev_induct) (auto simp: rr_endpoint_upsert)

lemma rr_endpoint_drop:
  "rr_endpoint (rr_drop_network ip n m) k = rr_endpoint m k \<or>
   k = ip \<and> rr_endpoint (rr_drop_network ip n m) k = None"
  by (auto simp: rr_endpoint_def rr_drop_network_def Let_def update_conv' delete_conv' split: option.splits)

lemma rr_endpoint_drop_all:
  "rr_endpoint (fold (\<lambda>ip. rr_drop_network ip n) ips m) k = rr_endpoint m k \<or>
   rr_endpoint (fold (\<lambda>ip. rr_drop_network ip n) ips m) k = None"
proof (induction ips arbitrary: m)
  case (Cons ip ips)
  from Cons [of "rr_drop_network ip n m"] rr_endpoint_drop [of ip n m k] show ?case by auto
qed simp

lemma resolve_v6_parts:
  assumes "rr_ok m"
  shows "resolve_v6 ip m = (if rr_nets m ip = {} then None else map_option (\<lambda>i. (i, ip, rr_nets m ip)) (rr_endpoint m ip))"
  using assms by (auto simp: resolve_v6_def rr_nets_def rr_endpoint_def rr_ok_def split: option.splits)

lemma rr_endpoint_some: "rr_ok m \<Longrightarrow> rr_nets m ip \<noteq> {} \<longleftrightarrow> rr_endpoint m ip \<noteq> None"
  by (auto simp: rr_nets_def rr_endpoint_def rr_ok_def split: option.splits)



end
