(* ===== verification/Ipv4_Rewrite.thy ===== *)
theory Ipv4_Rewrite
  imports Checksum
begin

text \<open>
  Address translation of IPv4 exit packets, the second half of \<open>src/src/exit_node/ipv4.rs\<close>: a client's
  packet goes on the mesh with the wire address and leaves the gateway with a leased one, and its
  answers come back the same way. The checksums are updated incrementally, those of an original packet
  that an ICMP error quotes included. The theorem is that a rewritten packet is as valid as the one
  that came in.
\<close>

section \<open>Definitions\<close>

definition wire_client_addr :: ipv4_addr where "wire_client_addr = v4_of_octets [192, 0, 0, 2]"
definition local_client_addr :: ipv4_addr where "local_client_addr = v4_of_octets [10, 64, 0, 2]"

definition replace_checksum :: "bytes \<Rightarrow> nat \<Rightarrow> u16 \<Rightarrow> u16 \<Rightarrow> bool \<Rightarrow> bytes" where
  "replace_checksum p off old new udp =
     (let check = from_be16 (slice p off (off + 2)) in
      if udp \<and> check = 0 then p
      else let updated = csum_replace2 check old new;
               updated = (if udp \<and> updated = 0 then - 1 else updated)
           in put p off (to_be16 updated))"

definition rewrite_word :: "bytes \<Rightarrow> bytes \<Rightarrow> nat option \<Rightarrow> bytes \<Rightarrow> nat \<Rightarrow> bytes" where
  "rewrite_word old new csum_off p w =
     (let before = from_be16 (slice old w (w + 2));
          after = from_be16 (slice new w (w + 2));
          p = replace_checksum p 10 before after False
      in case csum_off of
           Some off \<Rightarrow> if off + 2 \<le> length p then replace_checksum p off before after (p ! 9 = 17) else p
         | None \<Rightarrow> p)"

definition rewrite_at :: "bytes \<Rightarrow> bytes \<Rightarrow> nat option \<Rightarrow> bytes \<Rightarrow> nat \<Rightarrow> bytes" where
  "rewrite_at old new csum_off p off =
     (if slice p off (off + 4) \<noteq> old then p
      else put (foldl (rewrite_word old new csum_off) p [0, 2]) off new)"

text \<open>The checks and the two addresses of \<open>rewrite_inner\<close>; \<open>None\<close> is \<open>Error::Packet\<close>.\<close>

definition checksum_offset :: "u8 \<Rightarrow> nat option" where
  "checksum_offset proto = (if proto = 6 then Some (20 + 16) else if proto = 17 then Some (20 + 6) else None)"

definition rewrite_header :: "bool \<Rightarrow> bytes \<Rightarrow> bytes \<Rightarrow> bytes \<Rightarrow> bytes option" where
  "rewrite_header quoted old new p =
     (if length p < 20 \<or> drop_bit 4 (p ! 0) \<noteq> 4 then None
      else let header = unat (p ! 0 AND 15) * 4;
               total_len = unat (from_be16 (slice p 2 4))
      in if header \<noteq> 20 \<or> header > length p \<or> total_len < header \<or> (\<not> quoted \<and> total_len \<noteq> length p) \<or>
            from_be16 (slice p 6 8) AND 0x3fff \<noteq> 0 then None
      else if \<not> quoted \<and> ((p ! 9 = 6 \<and> length p < header + 20) \<or> (p ! 9 = 17 \<and> length p < header + 8)) then None
      else Some (foldl (rewrite_at old new (checksum_offset (p ! 9))) p [12, 16]))"

text \<open>A quoted packet is never searched for a further quote, so the recursion of the source is one deep.\<close>

definition rewrite_inner :: "bytes \<Rightarrow> bytes \<Rightarrow> bytes \<Rightarrow> bytes option" where
  "rewrite_inner old new p =
     (case rewrite_header False old new p of
        None \<Rightarrow> None
      | Some p \<Rightarrow>
          if p ! 9 \<noteq> 1 then Some p
          else if length p < 20 + 8 then None
          else if p ! 20 \<notin> {3, 11, 12} then Some p
          else case rewrite_header True old new (drop (20 + 8) p) of
              None \<Rightarrow> None
            | Some q \<Rightarrow>
                let p = put (take (20 + 8) p @ q) (20 + 2) [0, 0]
                in Some (put p (20 + 2) (to_be16 (icmpv4_checksum (drop 20 p)))))"

definition rewrite_v4 :: "bytes \<Rightarrow> ipv4_addr \<Rightarrow> ipv4_addr \<Rightarrow> bytes option" where
  "rewrite_v4 p old new = rewrite_inner (v4_octets old) (v4_octets new) p"

definition client_to_wire :: "bytes \<Rightarrow> bytes option" where
  "client_to_wire p = rewrite_v4 p local_client_addr wire_client_addr"

definition client_from_wire :: "bytes \<Rightarrow> bytes option" where
  "client_from_wire p = rewrite_v4 p wire_client_addr local_client_addr"

section \<open>Lemmas\<close>

subsection \<open>Buffers in two parts\<close>

lemma put_append_left: "off + length bs \<le> length a \<Longrightarrow> put (a @ b) off bs = put a off bs @ b"
  by (simp add: put_def)

lemma put_append_right: "length a \<le> off \<Longrightarrow> put (a @ b) off bs = a @ put b (off - length a) bs"
  by (simp add: put_def)

lemma put_put_same: "length bs = length cs \<Longrightarrow> off + length cs \<le> length p \<Longrightarrow> put (put p off bs) off cs = put p off cs"
  by (simp add: put_def)

lemma words_sum_put4:
  assumes "even off" "off + 4 \<le> length p" "length bs = 4"
  shows "words_sum (put p off bs) + words_sum (slice p off (off + 4)) = words_sum p + words_sum bs"
proof -
  let ?a = "take off p" and ?m = "slice p off (off + 4)" and ?z = "drop (off + 4) p"
  have p: "p = ?a @ ?m @ ?z" by (simp add: slice_def) (metis append_take_drop_id drop_drop add.commute)
  have l: "length ?m = 4" "even (length ?a)" using assms by (simp_all add: wire_simps min_def)
  have "words_sum (?a @ ?m @ ?z) = words_sum ?a + words_sum ?m + words_sum ?z"
    using l by (simp add: words_sum_append del: length_take)
  then have "words_sum p = words_sum ?a + words_sum ?m + words_sum ?z" using p by simp
  moreover have "words_sum (put p off bs) = words_sum ?a + words_sum bs + words_sum ?z"
    using l by (simp add: put_def words_sum_append assms(3) del: length_take)
  ultimately show ?thesis by simp
qed

lemma words_sum_pos:
  assumes "p ! 0 \<noteq> 0" "2 \<le> length p"
  shows "0 < words_sum p"
  using assms by (cases p rule: words_sum.cases) (auto simp: be_nat_two unat_gt_0)

lemma words_sum_four:
  assumes "length bs = 4"
  shows "words_sum bs = unat (from_be16 (slice bs 0 2)) + unat (from_be16 (slice bs 2 4))"
proof -
  obtain a b c d where "bs = [a, b, c, d]" using length4_cases [OF assms] by blast
  then show ?thesis by (simp add: slice_def unat_from_be16)
qed

subsection \<open>Checksum updates\<close>

definition upd_csum :: "bool \<Rightarrow> u16 \<Rightarrow> u16 \<Rightarrow> u16 \<Rightarrow> u16" where
  "upd_csum udp check old new =
     (if udp \<and> check = 0 then 0
      else let u = csum_replace2 check old new in if udp \<and> u = 0 then - 1 else u)"

lemma replace_checksum_upd:
  assumes "off + 2 \<le> length p"
  shows "replace_checksum p off old new udp =
    put p off (to_be16 (upd_csum udp (from_be16 (slice p off (off + 2))) old new))"
proof (cases "udp \<and> from_be16 (slice p off (off + 2)) = 0")
  case True
  let ?m = "slice p off (off + 2)"
  have l: "length ?m = 2" using assms by (simp add: wire_simps)
  then have "be_nat ?m = 0" using True unat_from_be16 [of ?m] by simp
  then have "to_be16 0 = ?m" using be_bytes_be_nat [OF l] by (simp add: to_be16_def)
  then have "put p off (to_be16 0) = p"
    using assms by (simp add: put_def slice_def) (metis append_take_drop_id drop_drop add.commute)
  then show ?thesis using True by (simp add: replace_checksum_def upd_csum_def)
qed (auto simp: replace_checksum_def upd_csum_def Let_def)

lemma upd_csum_ok:
  assumes "csum_ok (A + unat old + unat c)" "0 < A" "udp \<Longrightarrow> c \<noteq> 0"
  shows "csum_ok (A + unat new + unat (upd_csum udp c old new)) \<and> (udp \<longrightarrow> upd_csum udp c old new \<noteq> 0)"
proof -
  let ?u = "csum_replace2 c old new"
  have ok: "csum_ok (A + unat new + unat ?u)" by (rule csum_replace2_ok [OF assms(1,2)])
  have "csum_ok (A + unat new + 65535)" if "?u = 0" using ok that by (simp add: csum_ok_def)
  moreover have "unat (- 1 :: u16) = 65535" by (simp add: unsigned_minus_1_eq_mask mask_eq_exp_minus_1)
  ultimately show ?thesis using ok assms(3) by (auto simp: upd_csum_def Let_def)
qed

definition upd_addr :: "bool \<Rightarrow> bytes \<Rightarrow> bytes \<Rightarrow> u16 \<Rightarrow> u16" where
  "upd_addr udp old new c =
     upd_csum udp (upd_csum udp c (from_be16 (slice old 0 2)) (from_be16 (slice new 0 2)))
       (from_be16 (slice old 2 4)) (from_be16 (slice new 2 4))"

lemma upd_addr_ok:
  assumes "csum_ok (A + words_sum old + unat c)" "0 < A" "udp \<Longrightarrow> c \<noteq> 0" "length old = 4" "length new = 4"
  shows "csum_ok (A + words_sum new + unat (upd_addr udp old new c)) \<and> (udp \<longrightarrow> upd_addr udp old new c \<noteq> 0)"
proof -
  let ?o1 = "from_be16 (slice old 0 2)" and ?o2 = "from_be16 (slice old 2 4)"
  let ?n1 = "from_be16 (slice new 0 2)" and ?n2 = "from_be16 (slice new 2 4)"
  let ?c1 = "upd_csum udp c ?o1 ?n1"
  have "csum_ok ((A + unat ?o2) + unat ?o1 + unat c)"
    using assms(1) by (simp add: words_sum_four [OF assms(4)] ac_simps)
  from upd_csum_ok [OF this, of udp ?n1] assms(2,3)
  have 1: "csum_ok ((A + unat ?n1) + unat ?o2 + unat ?c1)" "udp \<Longrightarrow> ?c1 \<noteq> 0"
    by (simp_all add: ac_simps)
  show ?thesis
    using upd_csum_ok [OF 1(1), of udp ?n2] 1(2) assms(2)
    by (simp add: words_sum_four [OF assms(5)] upd_addr_def ac_simps)
qed

lemma upd_addr_zero: "upd_addr True old new 0 = 0"
  by (simp add: upd_addr_def upd_csum_def)

subsection \<open>One address\<close>

lemma rewrite_words_split:
  assumes "length h0 = 20" "length old = 4" "length new = 4"
    and "csum_off = map_option ((+) 20) k" "\<And>i. k = Some i \<Longrightarrow> i + 2 \<le> length t0"
  shows "foldl (rewrite_word old new csum_off) (h0 @ t0) [0, 2] =
    put h0 10 (to_be16 (upd_addr False old new (from_be16 (slice h0 10 12)))) @
      (case k of None \<Rightarrow> t0
       | Some i \<Rightarrow> put t0 i (to_be16 (upd_addr (h0 ! 9 = 17) old new (from_be16 (slice t0 i (i + 2))))))"
proof -
  define step where "step udp w c = upd_csum udp c (from_be16 (slice old w (w + 2))) (from_be16 (slice new w (w + 2)))" for udp w c
  have one: "rewrite_word old new csum_off (h @ t) w =
      put h 10 (to_be16 (step False w (from_be16 (slice h 10 12)))) @
      (case k of None \<Rightarrow> t | Some i \<Rightarrow> put t i (to_be16 (step (h ! 9 = 17) w (from_be16 (slice t i (i + 2))))))"
    if "length h = 20" "length t = length t0" for h t w
  proof -
    have 1: "replace_checksum (h @ t) 10 (from_be16 (slice old w (w + 2))) (from_be16 (slice new w (w + 2))) False =
        put h 10 (to_be16 (step False w (from_be16 (slice h 10 12)))) @ t"
      using that by (simp add: replace_checksum_upd put_append_left slice_append_left step_def)
    have h: "length (put h 10 (to_be16 x)) = 20" "put h 10 (to_be16 x) ! 9 = h ! 9" for x
      using that by (simp_all add: wire_simps nth_put)
    show ?thesis
    proof (cases k)
      case None
      then show ?thesis by (simp add: rewrite_word_def 1 assms(4))
    next
      case (Some i)
      then have "i + 2 \<le> length t" using assms(5) that by simp
      moreover have "(put h 10 (to_be16 x) @ t) ! 9 = h ! 9" for x using h by (simp add: nth_append)
      ultimately show ?thesis
        using Some h by (simp add: rewrite_word_def 1 assms(4) Let_def replace_checksum_upd put_append_right slice_append_right step_def add.commute [of 2 i])
    qed
  qed
  let ?h = "put h0 10 (to_be16 (step False 0 (from_be16 (slice h0 10 12))))"
  let ?t = "case k of None \<Rightarrow> t0 | Some i \<Rightarrow> put t0 i (to_be16 (step (h0 ! 9 = 17) 0 (from_be16 (slice t0 i (i + 2)))))"
  have h: "length ?h = 20" "?h ! 9 = h0 ! 9" "from_be16 (slice ?h 10 12) = step False 0 (from_be16 (slice h0 10 12))"
    using assms(1) be16.read_written [of 10 h0] by (simp_all add: wire_simps nth_put)
  have t: "length ?t = length t0" using assms(5) by (cases k) (simp_all add: wire_simps)
  have "foldl (rewrite_word old new csum_off) (h0 @ t0) [0, 2] = rewrite_word old new csum_off (?h @ ?t) 2"
    using one [OF assms(1) refl, of 0] by simp
  also have "\<dots> = put ?h 10 (to_be16 (step False 2 (step False 0 (from_be16 (slice h0 10 12))))) @
      (case k of None \<Rightarrow> ?t | Some i \<Rightarrow> put ?t i (to_be16 (step (h0 ! 9 = 17) 2 (from_be16 (slice ?t i (i + 2))))))"
    unfolding one [OF h(1) t, of 2] h ..
  also have "\<dots> = put h0 10 (to_be16 (upd_addr False old new (from_be16 (slice h0 10 12)))) @
      (case k of None \<Rightarrow> t0
       | Some i \<Rightarrow> put t0 i (to_be16 (upd_addr (h0 ! 9 = 17) old new (from_be16 (slice t0 i (i + 2))))))"
  proof (cases k)
    case None
    then show ?thesis using assms(1) by (simp add: put_put_same step_def upd_addr_def)
  next
    case (Some i)
    have "from_be16 (slice (put t0 i (to_be16 c)) i (i + 2)) = c" for c
      using be16.read_written [of i t0 c] assms(5) [OF Some] by simp
    then show ?thesis using Some assms(1) assms(5) [OF Some] by (simp add: put_put_same step_def upd_addr_def)
  qed
  finally show ?thesis .
qed

text \<open>What a receiver checks of a packet with a twenty-byte header \<open>h\<close> and payload \<open>t\<close>: the header
  checksum, and the transport checksum over the pseudo-header, where UDP may do without.\<close>

definition v4_pseudo :: "bytes \<Rightarrow> nat \<Rightarrow> nat" where
  "v4_pseudo h len = words_sum (slice h 12 16) + words_sum (slice h 16 20) + unat (h ! 9) + len"

definition v4_transport_ok :: "bytes \<Rightarrow> bytes \<Rightarrow> bool" where
  "v4_transport_ok h t \<longleftrightarrow>
     (h ! 9 = 6 \<longrightarrow> csum_ok (v4_pseudo h (length t) + words_sum t)) \<and>
     (h ! 9 = 17 \<longrightarrow> slice t 6 8 = [0, 0] \<or>
        slice t 6 8 \<noteq> [0, 0] \<and> csum_ok (v4_pseudo h (length t) + words_sum t))"

definition swap_addr :: "bytes \<Rightarrow> bytes \<Rightarrow> bytes \<Rightarrow> bytes" where
  "swap_addr old new a = (if a = old then new else a)"

lemma rewrite_at_header:
  assumes "length h = 20" "length old = 4" "length new = 4" "off = 12 \<or> off = 16" "slice h off (off + 4) = old"
    and h': "h' = put (put h 10 (to_be16 (upd_addr False old new (from_be16 (slice h 10 12))))) off new"
  shows "length h' = 20" "slice h' off (off + 4) = new"
    and "at + 4 \<le> off \<or> off + 4 \<le> at \<Longrightarrow> at = 12 \<or> at = 16 \<Longrightarrow> slice h' at (at + 4) = slice h at (at + 4)"
    and "i < 10 \<Longrightarrow> h' ! i = h ! i"
    and "csum_ok (words_sum h) \<Longrightarrow> h ! 0 \<noteq> 0 \<Longrightarrow> csum_ok (words_sum h')"
proof -
  let ?c = "from_be16 (slice h 10 12)" and ?u = "upd_addr False old new (from_be16 (slice h 10 12))"
  let ?g = "put h 10 (to_be16 ?u)"
  have g: "length ?g = 20" using assms(1) by (simp add: wire_simps)
  show "length h' = 20" using g assms by (auto simp: h' wire_simps)
  show "slice h' off (off + 4) = new"
    using slice_put_same [of off new ?g] g assms(3,4) by (auto simp: h')
  show "slice h' at (at + 4) = slice h at (at + 4)" if "at + 4 \<le> off \<or> off + 4 \<le> at" "at = 12 \<or> at = 16"
    using that assms g by (auto simp: h' slice_put_disjoint)
  show "h' ! i = h ! i" if "i < 10" using that assms g by (auto simp: h' nth_put)
  assume ok: "csum_ok (words_sum h)" and nz: "h ! 0 \<noteq> 0"
  have w1: "words_sum ?g + unat ?c = words_sum h + unat ?u"
    using words_sum_put [of 10 h ?u] assms(1) by simp
  have w2: "words_sum h' + words_sum old = words_sum ?g + words_sum new"
    using words_sum_put4 [of off ?g new] g assms by (auto simp: h' slice_put_disjoint)
  let ?z = "put h off [0, 0, 0, 0]" and ?y = "put (put h off [0, 0, 0, 0]) 10 (to_be16 0)"
  have z: "length ?z = 20" "slice ?z 10 12 = slice h 10 12" "?y ! 0 = h ! 0"
    using assms(1,4) by (auto simp: wire_simps nth_put)
  have w3: "words_sum ?z + words_sum old = words_sum h"
    using words_sum_put4 [of off h "[0, 0, 0, 0]"] assms by (auto simp: be_nat_two)
  have w4: "words_sum ?y + unat ?c = words_sum ?z"
    using words_sum_put [of 10 ?z 0] z by simp
  have pos: "0 < words_sum ?y" using z(1,3) nz by (intro words_sum_pos) (simp_all add: wire_simps)
  have "csum_ok (words_sum ?y + words_sum old + unat ?c)" using ok w3 w4 by (simp add: ac_simps)
  from upd_addr_ok [OF this pos, of False new] assms(2,3) have "csum_ok (words_sum ?y + words_sum new + unat ?u)" by simp
  moreover have "words_sum ?y + words_sum new + unat ?u = words_sum h'" using w1 w2 w3 w4 by simp
  ultimately show "csum_ok (words_sum h')" by simp
qed

lemma transport_update:
  assumes "i + 2 \<le> length t" "even i" "length old = 4" "length new = 4" "0 < A"
    and "csum_ok (A + words_sum old + words_sum t)" "udp \<Longrightarrow> from_be16 (slice t i (i + 2)) \<noteq> 0"
    and t': "t' = put t i (to_be16 (upd_addr udp old new (from_be16 (slice t i (i + 2)))))"
  shows "csum_ok (A + words_sum new + words_sum t') \<and> (udp \<longrightarrow> from_be16 (slice t' i (i + 2)) \<noteq> 0)"
proof -
  let ?c = "from_be16 (slice t i (i + 2))" and ?z = "put t i (to_be16 0)"
  let ?u = "upd_addr udp old new ?c"
  have z: "words_sum ?z + unat ?c = words_sum t" using words_sum_put [of i t 0] assms(1,2) by simp
  have w: "words_sum t' + unat ?c = words_sum t + unat ?u" using words_sum_put [of i t ?u] assms(1,2) by (simp add: t')
  have "csum_ok ((A + words_sum ?z) + words_sum old + unat ?c)" using assms(6) z by (simp add: ac_simps)
  from upd_addr_ok [OF this, of udp new] assms(3-5,7)
  have "csum_ok (A + words_sum ?z + words_sum new + unat ?u)" "udp \<longrightarrow> ?u \<noteq> 0" by simp_all
  moreover have "A + words_sum ?z + words_sum new + unat ?u = A + words_sum new + words_sum t'" using z w by simp
  moreover have "from_be16 (slice t' i (i + 2)) = ?u" using be16.read_written [of i t ?u] assms(1) by (simp add: t')
  ultimately show ?thesis by simp
qed

lemma be16_zero:
  assumes "length bs = 2"
  shows "from_be16 bs = 0 \<longleftrightarrow> bs = [0, 0]"
proof -
  obtain a b where bs: "bs = [a, b]" using assms by (auto simp: length_Suc_conv numeral_2_eq_2)
  have "from_be16 bs = 0 \<longleftrightarrow> unat (from_be16 bs) = 0" by (simp only: unat_eq_zero)
  also have "\<dots> \<longleftrightarrow> unat a = 0 \<and> unat b = 0" unfolding unat_from_be16 [OF assms] by (simp add: bs be_nat_two)
  finally show ?thesis by (simp add: bs unat_eq_zero)
qed

definition csum_index :: "u8 \<Rightarrow> bytes \<Rightarrow> nat option" where
  "csum_index proto t =
     (if proto = 6 \<and> 18 \<le> length t then Some 16 else if proto = 17 \<and> 8 \<le> length t then Some 6 else None)"

lemma transport_ok_step:
  assumes "length h = 20" "length h' = 20" "length old = 4" "length new = 4" "off = 12 \<or> off = 16" "slice h off (off + 4) = old"
    and "slice h' off (off + 4) = new" "\<And>at. at + 4 \<le> off \<or> off + 4 \<le> at \<Longrightarrow> at = 12 \<or> at = 16 \<Longrightarrow> slice h' at (at + 4) = slice h at (at + 4)"
    and "h' ! 9 = h ! 9" "v4_transport_ok h t" "h ! 9 = 6 \<Longrightarrow> 18 \<le> length t" "h ! 9 = 17 \<Longrightarrow> 8 \<le> length t"
    and t': "t' = (case csum_index (h ! 9) t of None \<Rightarrow> t
       | Some i \<Rightarrow> put t i (to_be16 (upd_addr (h ! 9 = 17) old new (from_be16 (slice t i (i + 2))))))"
  shows "v4_transport_ok h' t'"
proof -
  define A where "A = (if off = 12 then words_sum (slice h 16 20) else words_sum (slice h 12 16)) + unat (h ! 9) + length t"
  have ps: "v4_pseudo h (length t) = A + words_sum old" "v4_pseudo h' (length t) = A + words_sum new"
    using assms(5-7,9) assms(8) [of 12] assms(8) [of 16] by (auto simp: v4_pseudo_def A_def)
  consider "h ! 9 = 6" | "h ! 9 = 17" "slice t 6 8 = [0, 0]" | "h ! 9 = 17" "slice t 6 8 \<noteq> [0, 0]" | "h ! 9 \<noteq> 6" "h ! 9 \<noteq> 17"
    by blast
  then show ?thesis
  proof cases
    case 1
    then have l: "18 \<le> length t" and ok: "csum_ok (A + words_sum old + words_sum t)"
      using assms(10,11) ps(1) by (simp_all add: v4_transport_ok_def)
    have t1: "t' = put t 16 (to_be16 (upd_addr False old new (from_be16 (slice t 16 (16 + 2)))))"
      using 1 l by (simp add: t' csum_index_def)
    have "0 < A" using 1 by (simp add: A_def)
    from transport_update [OF _ _ assms(3,4) this ok _ t1] l have "csum_ok (A + words_sum new + words_sum t')" by simp
    moreover have "length t' = length t" using l by (simp add: t1 wire_simps)
    ultimately show ?thesis using 1 assms(9) ps(2) by (simp add: v4_transport_ok_def)
  next
    case 2
    then have "from_be16 (slice t 6 (6 + 2)) = 0" by (simp add: from_be16_def be_nat_two)
    then have t1: "t' = put t 6 (to_be16 0)" using 2 assms(12) by (simp add: t' csum_index_def upd_addr_zero)
    have "slice t' 6 (6 + length (to_be16 0)) = to_be16 0"
      unfolding t1 using assms(12) [OF 2(1)] by (intro slice_put_same) simp
    then have "slice t' 6 8 = [0, 0]" by (simp add: to_be16_def be_bytes_two)
    then show ?thesis using 2(1) assms(9) by (simp add: v4_transport_ok_def)
  next
    case 3
    then have l: "8 \<le> length t" and ok: "csum_ok (A + words_sum old + words_sum t)"
      using assms(10,12) ps(1) by (simp_all add: v4_transport_ok_def)
    have nz: "from_be16 (slice t 6 (6 + 2)) \<noteq> 0" using 3(2) l by (simp add: be16_zero wire_simps)
    have t1: "t' = put t 6 (to_be16 (upd_addr True old new (from_be16 (slice t 6 (6 + 2)))))"
      using 3 l by (simp add: t' csum_index_def)
    have "0 < A" using 3 by (simp add: A_def)
    from transport_update [OF _ _ assms(3,4) this ok nz t1] l
    have "csum_ok (A + words_sum new + words_sum t')" "from_be16 (slice t' 6 8) \<noteq> 0" by simp_all
    moreover have len: "length t' = length t" using l by (simp add: t1 wire_simps)
    ultimately show ?thesis using 3 assms(9) ps(2) l by (simp add: v4_transport_ok_def be16_zero wire_simps)
  next
    case 4
    then show ?thesis using assms(9) by (simp add: v4_transport_ok_def)
  qed
qed

lemma rewrite_words_short:
  assumes "length p < off + 2" "12 \<le> length p"
  shows "foldl (rewrite_word old new (Some off)) p [0, 2] = foldl (rewrite_word old new None) p [0, 2]"
proof -
  have one: "rewrite_word old new (Some off) q w = rewrite_word old new None q w"
    "length (rewrite_word old new None q w) = length q" if "length q = length p" for q w
    using that assms by (simp_all add: rewrite_word_def Let_def replace_checksum_upd wire_simps)
  show ?thesis by (simp add: one)
qed

lemma rewrite_words_index:
  assumes "length h = 20" "length old = 4" "length new = 4"
  shows "foldl (rewrite_word old new (checksum_offset (h ! 9))) (h @ t) [0, 2] =
    put h 10 (to_be16 (upd_addr False old new (from_be16 (slice h 10 12)))) @
      (case csum_index (h ! 9) t of None \<Rightarrow> t
       | Some i \<Rightarrow> put t i (to_be16 (upd_addr (h ! 9 = 17) old new (from_be16 (slice t i (i + 2))))))"
proof (cases "checksum_offset (h ! 9) = map_option ((+) 20) (csum_index (h ! 9) t)")
  case True
  then show ?thesis
    by (rule rewrite_words_split [OF assms]) (auto simp: csum_index_def split: if_splits)
next
  case False
  then obtain off where off: "checksum_offset (h ! 9) = Some off" "csum_index (h ! 9) t = None" "length (h @ t) < off + 2"
    using assms(1) by (auto simp: checksum_offset_def csum_index_def split: if_splits)
  have "12 \<le> length (h @ t)" using assms(1) by simp
  from rewrite_words_short [OF off(3) this] show ?thesis
    using rewrite_words_split [OF assms, of None None t] by (simp add: off)
qed

lemma rewrite_at_ok:
  assumes "length h = 20" "length old = 4" "length new = 4" "off = 12 \<or> off = 16"
  obtains h' t' where "rewrite_at old new (checksum_offset (h ! 9)) (h @ t) off = h' @ t'"
    "length h' = 20" "length t' = length t"
    "slice h' off (off + 4) = swap_addr old new (slice h off (off + 4))"
    "off = 12 \<Longrightarrow> slice h' 16 20 = slice h 16 20" "off = 16 \<Longrightarrow> slice h' 12 16 = slice h 12 16"
    "\<And>i. i < 10 \<Longrightarrow> h' ! i = h ! i"
    "csum_ok (words_sum h) \<Longrightarrow> h ! 0 \<noteq> 0 \<Longrightarrow> csum_ok (words_sum h')"
    "v4_transport_ok h t \<Longrightarrow> (h ! 9 = 6 \<longrightarrow> 18 \<le> length t) \<Longrightarrow> (h ! 9 = 17 \<longrightarrow> 8 \<le> length t) \<Longrightarrow> v4_transport_ok h' t'"
    "csum_index (h ! 9) t = None \<Longrightarrow> t' = t"
    "\<And>i j. csum_index (h ! 9) t = Some i \<Longrightarrow> j < i \<or> i + 2 \<le> j \<Longrightarrow> j < length t \<Longrightarrow> t' ! j = t ! j"
proof (cases "slice h off (off + 4) = old")
  case False
  have "rewrite_at old new (checksum_offset (h ! 9)) (h @ t) off = h @ t"
    using False assms(1,4) by (auto simp: rewrite_at_def slice_append_left)
  then show ?thesis by (rule that) (use False assms(1) in \<open>simp_all add: swap_addr_def\<close>)
next
  case True
  define h' where "h' = put (put h 10 (to_be16 (upd_addr False old new (from_be16 (slice h 10 12))))) off new"
  define t' where "t' = (case csum_index (h ! 9) t of None \<Rightarrow> t
       | Some i \<Rightarrow> put t i (to_be16 (upd_addr (h ! 9 = 17) old new (from_be16 (slice t i (i + 2))))))"
  note hd = rewrite_at_header [OF assms True h'_def]
  have i: "i + 2 \<le> length t" if "csum_index (h ! 9) t = Some i" for i
    using that by (auto simp: csum_index_def split: if_splits)
  have "rewrite_at old new (checksum_offset (h ! 9)) (h @ t) off = h' @ t'"
    using True assms rewrite_words_index [OF assms(1-3), of t]
    by (auto simp: rewrite_at_def slice_append_left h'_def t'_def put_append_left wire_simps)
  then show ?thesis
  proof (rule that)
    show "length t' = length t" using i by (auto simp: t'_def wire_simps split: option.splits)
    show "slice h' off (off + 4) = swap_addr old new (slice h off (off + 4))" using hd(2) True by (simp add: swap_addr_def)
    show "slice h' 16 20 = slice h 16 20" if "off = 12" using hd(3) [of 16] that by simp
    show "slice h' 12 16 = slice h 12 16" if "off = 16" using hd(3) [of 12] that by simp
    show "v4_transport_ok h' t'"
      if "v4_transport_ok h t" "h ! 9 = 6 \<longrightarrow> 18 \<le> length t" "h ! 9 = 17 \<longrightarrow> 8 \<le> length t"
      using that hd(4) [of 9]
      by (intro transport_ok_step [OF assms(1) hd(1) assms(2-4) True hd(2) hd(3) _ _ _ _ t'_def]) auto
    show "t' ! j = t ! j" if "csum_index (h ! 9) t = Some i" "j < i \<or> i + 2 \<le> j" "j < length t" for i j
      using that i by (auto simp: t'_def nth_put)
  qed (use hd in \<open>simp_all add: t'_def\<close>)
qed

lemma rewrite_header_ok:
  assumes "rewrite_header quoted old new p = Some p'" "length old = 4" "length new = 4"
  shows "20 \<le> length p" "length p' = length p" "p ! 0 \<noteq> 0" "length p < 65536 \<or> quoted"
    and "\<And>i. i < 10 \<Longrightarrow> p' ! i = p ! i"
    and "slice p' 12 16 = swap_addr old new (slice p 12 16)" "slice p' 16 20 = swap_addr old new (slice p 16 20)"
    and "csum_ok (words_sum (take 20 p)) \<Longrightarrow> csum_ok (words_sum (take 20 p'))"
    and "\<not> quoted \<Longrightarrow> v4_transport_ok (take 20 p) (drop 20 p) \<Longrightarrow> v4_transport_ok (take 20 p') (drop 20 p')"
    and "p ! 9 \<noteq> 6 \<Longrightarrow> p ! 9 \<noteq> 17 \<Longrightarrow> drop 20 p' = drop 20 p"
proof -
  have len: "20 \<le> length p" and nz: "drop_bit 4 (p ! 0) = 4"
    and tot: "quoted \<or> unat (from_be16 (slice p 2 4)) = length p"
    and short: "quoted \<or> (p ! 9 = 6 \<longrightarrow> 40 \<le> length p) \<and> (p ! 9 = 17 \<longrightarrow> 28 \<le> length p)"
    and p': "p' = rewrite_at old new (checksum_offset (p ! 9)) (rewrite_at old new (checksum_offset (p ! 9)) p 12) 16"
    using assms(1) by (auto simp: rewrite_header_def Let_def split: if_splits)
  show "20 \<le> length p" by (rule len)
  show "p ! 0 \<noteq> 0" using nz by auto
  show "length p < 65536 \<or> quoted" using tot unat_word_bound [of "from_be16 (slice p 2 4)"] by auto
  define h t where "h = take 20 p" and "t = drop 20 p"
  have p: "p = h @ t" "length h = 20" "h ! 9 = p ! 9" "h ! 0 = p ! 0" using len by (simp_all add: h_def t_def)
  obtain h1 t1 where 1: "rewrite_at old new (checksum_offset (h ! 9)) (h @ t) 12 = h1 @ t1" "length h1 = 20" "length t1 = length t"
    "slice h1 12 (12 + 4) = swap_addr old new (slice h 12 (12 + 4))" "slice h1 16 20 = slice h 16 20"
    "\<And>i. i < 10 \<Longrightarrow> h1 ! i = h ! i" "csum_ok (words_sum h) \<Longrightarrow> h ! 0 \<noteq> 0 \<Longrightarrow> csum_ok (words_sum h1)"
    "v4_transport_ok h t \<Longrightarrow> (h ! 9 = 6 \<longrightarrow> 18 \<le> length t) \<Longrightarrow> (h ! 9 = 17 \<longrightarrow> 8 \<le> length t) \<Longrightarrow> v4_transport_ok h1 t1"
    "csum_index (h ! 9) t = None \<Longrightarrow> t1 = t"
    by (rule rewrite_at_ok [OF p(2) assms(2,3), of 12 t]) auto
  obtain h2 t2 where 2: "rewrite_at old new (checksum_offset (h1 ! 9)) (h1 @ t1) 16 = h2 @ t2" "length h2 = 20" "length t2 = length t1"
    "slice h2 16 (16 + 4) = swap_addr old new (slice h1 16 (16 + 4))" "slice h2 12 16 = slice h1 12 16"
    "\<And>i. i < 10 \<Longrightarrow> h2 ! i = h1 ! i" "csum_ok (words_sum h1) \<Longrightarrow> h1 ! 0 \<noteq> 0 \<Longrightarrow> csum_ok (words_sum h2)"
    "v4_transport_ok h1 t1 \<Longrightarrow> (h1 ! 9 = 6 \<longrightarrow> 18 \<le> length t1) \<Longrightarrow> (h1 ! 9 = 17 \<longrightarrow> 8 \<le> length t1) \<Longrightarrow> v4_transport_ok h2 t2"
    "csum_index (h1 ! 9) t1 = None \<Longrightarrow> t2 = t1"
    by (rule rewrite_at_ok [OF 1(2) assms(2,3), of 16 t1]) auto
  have "h1 ! 9 = h ! 9" using 1(6) by simp
  then have p2: "p' = h2 @ t2"
    using 1(1) 2(1) unfolding p' p(3) [symmetric] p(1) [symmetric] by simp
  have t: "take 20 p = h" "drop 20 p = t" "take 20 p' = h2" "drop 20 p' = t2" "length t = length p - 20"
    using 2(2) by (simp_all add: h_def t_def p2)
  have nine: "h1 ! 9 = p ! 9" "h1 ! 0 = p ! 0" using 1(6) [of 9] 1(6) [of 0] p(3,4) by simp_all
  show "length p' = length p" using p2 2(2,3) 1(3) t(5) len by simp
  show "p' ! i = p ! i" if "i < 10" for i
  proof -
    have "p' ! i = h ! i" using that 1(6) 2(2,6) by (simp add: p2 nth_append)
    then show ?thesis using that by (simp add: h_def)
  qed
  have sl: "slice p 12 16 = slice h 12 16" "slice p 16 20 = slice h 16 20"
    unfolding p(1) by (simp_all add: slice_append_left p(2))
  show "slice p' 12 16 = swap_addr old new (slice p 12 16)" "slice p' 16 20 = swap_addr old new (slice p 16 20)"
    unfolding sl using 1(4,5) 2(2,4,5) by (simp_all add: slice_append_left p2)
  show "csum_ok (words_sum (take 20 p'))" if "csum_ok (words_sum (take 20 p))"
    using that \<open>p ! 0 \<noteq> 0\<close> p(4) nine(2) 1(7) 2(7) unfolding t by simp
  show "v4_transport_ok (take 20 p') (drop 20 p')" if "\<not> quoted" "v4_transport_ok (take 20 p) (drop 20 p)"
  proof -
    have "h ! 9 = 6 \<longrightarrow> 18 \<le> length t" "h ! 9 = 17 \<longrightarrow> 8 \<le> length t" using short that(1) t(5) p(3) by auto
    then show ?thesis using that(2) p(3) nine(1) 1(3,8) 2(8) unfolding t by simp
  qed
  show "drop 20 p' = drop 20 p" if "p ! 9 \<noteq> 6" "p ! 9 \<noteq> 17"
    using that p(3) nine(1) 1(9) 2(9) unfolding t by (simp add: csum_index_def)
qed

text \<open>What \<open>rewrite\<close> returns: the rewritten header on its own, or with the quote of an ICMP error rewritten as
  well and the ICMP checksum recomputed.\<close>

lemma rewrite_v4_cases:
  assumes "rewrite_v4 p old new = Some p'"
  obtains (plain) "rewrite_header False (v4_octets old) (v4_octets new) p = Some p'" "\<not> (p ! 9 = 1 \<and> p ! 20 \<in> {3, 11, 12})"
  | (quote) r q s where "rewrite_header False (v4_octets old) (v4_octets new) p = Some r" "p ! 9 = 1" "p ! 20 \<in> {3, 11, 12}"
      "rewrite_header True (v4_octets old) (v4_octets new) (drop 28 p) = Some q" "28 \<le> length p"
      "s = put (take 8 (drop 20 r) @ q) 2 [0, 0]" "p' = take 20 r @ put s 2 (to_be16 (icmpv4_checksum s))"
proof -
  let ?o = "v4_octets old" and ?n = "v4_octets new"
  obtain r where r: "rewrite_header False ?o ?n p = Some r"
    using assms by (auto simp: rewrite_v4_def rewrite_inner_def split: option.splits)
  note h = rewrite_header_ok [OF r, simplified]
  have r9: "r ! 9 = p ! 9" using h(5) by simp
  have same: "drop 20 r = drop 20 p" if "p ! 9 = 1" using h(10) that by simp
  have r20: "r ! 20 = p ! 20" if "p ! 9 = 1" "28 \<le> length p"
    using arg_cong [OF same [OF that(1)], of "\<lambda>xs. xs ! 0"] that h(2) by simp
  show thesis
  proof (cases "p ! 9 = 1 \<and> p ! 20 \<in> {3, 11, 12}")
    case False
    then have "p' = r" using assms r r9 r20 h(2) by (auto simp: rewrite_v4_def rewrite_inner_def split: if_splits)
    then show thesis using plain r False by simp
  next
    case True
    have l: "28 \<le> length p" using assms True r r9 h(2) by (auto simp: rewrite_v4_def rewrite_inner_def split: if_splits)
    have "r ! 9 = 1" "\<not> length r < 28" "(r ! 20 \<notin> {3, 11, 12}) = False" using True r9 r20 [OF _ l] h(2) l by auto
    then have inner: "rewrite_inner ?o ?n p = (case rewrite_header True ?o ?n (drop 28 r) of None \<Rightarrow> None
        | Some q \<Rightarrow> let m = put (take 28 r @ q) 22 [0, 0] in Some (put m 22 (to_be16 (icmpv4_checksum (drop 20 m)))))"
      unfolding rewrite_inner_def r option.case by (simp split: option.split)
    have d: "drop 28 r = drop 28 p" using arg_cong [OF same, of "drop 8"] True by simp
    obtain q where q: "rewrite_header True ?o ?n (drop 28 p) = Some q"
      and p': "p' = put (put (take 28 r @ q) 22 [0, 0]) 22 (to_be16 (icmpv4_checksum (drop 20 (put (take 28 r @ q) 22 [0, 0]))))"
      using inner assms unfolding d by (cases "rewrite_header True ?o ?n (drop 28 p)") (simp_all add: rewrite_v4_def Let_def)
    have t28: "take 28 r = take 20 r @ take 8 (drop 20 r)" using take_add [of 20 8 r] by simp
    have "put (take 28 r @ q) 22 [0, 0] = take 20 r @ put (take 8 (drop 20 r) @ q) 2 [0, 0]"
      unfolding t28 using l h(2) by (simp add: put_append_right)
    then have "p' = take 20 r @ put (put (take 8 (drop 20 r) @ q) 2 [0, 0]) 2 (to_be16 (icmpv4_checksum (put (take 8 (drop 20 r) @ q) 2 [0, 0])))"
      using l h(2) by (simp add: p' put_append_right)
    then show thesis using quote [OF r _ _ q l refl] True by blast
  qed
qed

text \<open>The headers of the result, in both cases.\<close>

lemma rewrite_v4_header:
  assumes "rewrite_v4 p old new = Some p'"
  shows "20 \<le> length p" "length p' = length p" "\<And>i. i < 10 \<Longrightarrow> p' ! i = p ! i"
    and "slice p' 12 16 = swap_addr (v4_octets old) (v4_octets new) (slice p 12 16)"
    and "slice p' 16 20 = swap_addr (v4_octets old) (v4_octets new) (slice p 16 20)"
    and "csum_ok (words_sum (take 20 p)) \<Longrightarrow> csum_ok (words_sum (take 20 p'))"
proof -
  have "20 \<le> length p \<and> length p' = length p \<and> (\<forall>i < 10. p' ! i = p ! i) \<and>
      slice p' 12 16 = swap_addr (v4_octets old) (v4_octets new) (slice p 12 16) \<and>
      slice p' 16 20 = swap_addr (v4_octets old) (v4_octets new) (slice p 16 20) \<and>
      (csum_ok (words_sum (take 20 p)) \<longrightarrow> csum_ok (words_sum (take 20 p')))"
    using assms
  proof (cases rule: rewrite_v4_cases)
    case plain
    then show ?thesis using rewrite_header_ok [OF plain(1), simplified] by auto
  next
    case (quote r q s)
    note h = rewrite_header_ok [OF quote(1), simplified] and k = rewrite_header_ok [OF quote(4), simplified]
    have sl: "length s = length p - 20" using h(2) k(2) quote(5) by (simp add: quote(6) wire_simps)
    then have len: "length p' = length p" using quote(5) h(2) by (simp add: quote(7) wire_simps)
    have "p' ! i = p ! i" if "i < 10" for i using that h(1,2,5) by (simp add: quote(7) nth_append)
    moreover have "slice p' 12 16 = slice r 12 16" "slice p' 16 20 = slice r 16 20"
      using h(1,2) by (simp_all add: quote(7) slice_append_left) (simp_all add: slice_def take_drop)
    moreover have "take 20 p' = take 20 r" using h(1,2) by (simp add: quote(7))
    ultimately show ?thesis using h len by simp
  qed
  then show "20 \<le> length p" "length p' = length p" "\<And>i. i < 10 \<Longrightarrow> p' ! i = p ! i"
    "slice p' 12 16 = swap_addr (v4_octets old) (v4_octets new) (slice p 12 16)"
    "slice p' 16 20 = swap_addr (v4_octets old) (v4_octets new) (slice p 16 20)"
    "csum_ok (words_sum (take 20 p)) \<Longrightarrow> csum_ok (words_sum (take 20 p'))" by blast+
qed

text \<open>The message of a rewritten ICMP error: its checksum and the addresses it quotes.\<close>

lemma rewrite_v4_quote:
  assumes "rewrite_v4 p old new = Some p'" "p ! 9 = 1" "p ! 20 \<in> {3, 11, 12}"
  shows "csum_ok (words_sum (drop 20 p'))"
    and "slice p' 40 44 = swap_addr (v4_octets old) (v4_octets new) (slice p 40 44)"
    and "slice p' 44 48 = swap_addr (v4_octets old) (v4_octets new) (slice p 44 48)"
proof -
  from assms obtain r q s where r: "rewrite_header False (v4_octets old) (v4_octets new) p = Some r"
    and q: "rewrite_header True (v4_octets old) (v4_octets new) (drop 28 p) = Some q" and l: "28 \<le> length p"
    and s: "s = put (take 8 (drop 20 r) @ q) 2 [0, 0]" and p': "p' = take 20 r @ put s 2 (to_be16 (icmpv4_checksum s))"
    by (cases rule: rewrite_v4_cases) auto
  note h = rewrite_header_ok [OF r, simplified] and k = rewrite_header_ok [OF q, simplified]
  have dl: "length (take 8 (drop 20 r)) = 8" "length (take 20 r) = 20" using l h(2) by simp_all
  have sl: "length s = length p - 20" using dl k(2) l by (simp add: s wire_simps)
  have "slice s 2 (2 + length [0, 0 :: u8]) = [0, 0]" unfolding s by (rule slice_put_same) (use dl in simp)
  then have "from_be16 (slice s 2 (2 + 2)) = 0" by (simp add: from_be16_def be_nat_two)
  then have "csum_ok (words_sum (put s 2 (to_be16 (icmpv4_checksum s))))"
    using plain_csum.fill_valid [of s 2] sl h(4) l by simp
  then show "csum_ok (words_sum (drop 20 p'))" using dl by (simp add: p')
  have at: "slice p' (at + 28) (at + 32) = slice q at (at + 4)" if "at + 4 \<le> length q" for at
    using that dl sl k(2)
    by (simp add: p' slice_append_right) (simp add: s slice_put_disjoint wire_simps add.commute [of 4])
  have at': "slice p (at + 28) (at + 32) = slice (drop 28 p) at (at + 4)" for at by (simp add: slice_def)
  show "slice p' 40 44 = swap_addr (v4_octets old) (v4_octets new) (slice p 40 44)"
    "slice p' 44 48 = swap_addr (v4_octets old) (v4_octets new) (slice p 44 48)"
    using at [of 12] at [of 16] at' [of 12] at' [of 16] k(1,2,6,7) by simp_all
qed

text \<open>Which bytes a rewrite may change: the header checksum and the addresses, the transport checksum, and for an
  ICMP error its checksum and the same bytes of the packet it quotes.\<close>

definition header_fields :: "bytes \<Rightarrow> nat set" where
  "header_fields p = {10..<20} \<union> (if p ! 9 = 6 then {36, 37} else if p ! 9 = 17 then {26, 27} else {})"

definition rewritten_fields :: "bytes \<Rightarrow> nat set" where
  "rewritten_fields p =
     (if p ! 9 = 1 \<and> p ! 20 \<in> {3, 11, 12} then header_fields p \<union> {22, 23} \<union> (\<lambda>i. i + 28) ` header_fields (drop 28 p)
      else header_fields p)"

lemma replace_checksum_other:
  assumes "off + 2 \<le> length p"
  shows "length (replace_checksum p off a b u) = length p"
    "i < length p \<Longrightarrow> i < off \<or> off + 2 \<le> i \<Longrightarrow> replace_checksum p off a b u ! i = p ! i"
  using assms by (auto simp: replace_checksum_def Let_def wire_simps nth_put)

lemma rewrite_word_other:
  assumes "20 \<le> length p"
  shows "length (rewrite_word old new c p w) = length p"
    "i < length p \<Longrightarrow> i \<notin> {10..<20} \<Longrightarrow> (\<forall>k. c = Some k \<longrightarrow> i < k \<or> k + 2 \<le> i) \<Longrightarrow> rewrite_word old new c p w ! i = p ! i"
  using assms by (auto simp: rewrite_word_def Let_def replace_checksum_other split: option.splits)

lemma rewrite_at_other:
  assumes "20 \<le> length p" "off = 12 \<or> off = 16" "length new = 4"
  shows "length (rewrite_at old new c p off) = length p"
    "i < length p \<Longrightarrow> i \<notin> {10..<20} \<Longrightarrow> (\<forall>k. c = Some k \<longrightarrow> i < k \<or> k + 2 \<le> i) \<Longrightarrow> rewrite_at old new c p off ! i = p ! i"
  using assms by (auto simp: rewrite_at_def rewrite_word_other wire_simps nth_put)

lemma rewrite_header_other:
  assumes "rewrite_header quoted old new p = Some p'" "length new = 4" "i < length p" "i \<notin> header_fields p"
  shows "p' ! i = p ! i"
proof -
  have len: "20 \<le> length p"
    and p': "p' = rewrite_at old new (checksum_offset (p ! 9)) (rewrite_at old new (checksum_offset (p ! 9)) p 12) 16"
    using assms(1) by (auto simp: rewrite_header_def Let_def split: if_splits)
  have i: "i \<notin> {10..<20}" "\<forall>k. checksum_offset (p ! 9) = Some k \<longrightarrow> i < k \<or> k + 2 \<le> i"
    using assms(4) by (auto simp: header_fields_def checksum_offset_def split: if_splits)
  note one = rewrite_at_other [where off = 12, OF len _ assms(2), simplified]
  show ?thesis
    unfolding p' using rewrite_at_other(2) [where off = 16, OF _ _ assms(2) _ i] one(1) one(2) [OF assms(3) _ i(2)] i(1) len assms(3)
    by simp
qed

lemma rewrite_v4_other:
  assumes "rewrite_v4 p old new = Some p'" "i < length p" "i \<notin> rewritten_fields p"
  shows "p' ! i = p ! i"
  using assms(1)
proof (cases rule: rewrite_v4_cases)
  case plain
  then show ?thesis using rewrite_header_other [OF plain(1) _ assms(2)] assms(3) by (auto simp: rewritten_fields_def)
next
  case (quote r q s)
  note h = rewrite_header_ok [OF quote(1), simplified] and k = rewrite_header_ok [OF quote(4), simplified]
  have f: "i \<notin> header_fields p" "i \<noteq> 22" "i \<noteq> 23" "28 \<le> i \<Longrightarrow> i - 28 \<notin> header_fields (drop 28 p)"
    using assms(3) quote(2,3) by (auto simp: rewritten_fields_def image_iff)
  have same: "r ! i = p ! i" using rewrite_header_other [OF quote(1) _ assms(2) f(1)] by simp
  have dl: "length (take 8 (drop 20 r)) = 8" "length (take 20 r) = 20" using quote(5) h(2) by simp_all
  have sl: "length s = length p - 20" using dl k(2) quote(5) by (simp add: quote(6) wire_simps)
  have tail: "put s 2 (to_be16 x) ! j = (take 8 (drop 20 r) @ q) ! j" if "j < length s" "j \<noteq> 2" "j \<noteq> 3" for j x
    using that sl dl k(2) quote(5) by (auto simp: quote(6) nth_put wire_simps)
  show ?thesis
  proof (cases "i < 20")
    case True
    then show ?thesis using same dl by (simp add: quote(7) nth_append)
  next
    case False
    then have p': "p' ! i = (take 8 (drop 20 r) @ q) ! (i - 20)"
      using tail [of "i - 20"] f(2,3) assms(2) sl dl by (auto simp: quote(7) nth_append)
    show ?thesis
    proof (cases "i < 28")
      case True
      then have "i - 20 < 8" using False by simp
      then show ?thesis using p' False same quote(5) h(2) by (simp add: nth_append)
    next
      case at: False
      then have "q ! (i - 28) = drop 28 p ! (i - 28)" using rewrite_header_other [OF quote(4), of "i - 28"] f(4) assms(2) by simp
      moreover have "\<not> i - 20 < 8" "i - 20 - 8 = i - 28" using at by simp_all
      ultimately show ?thesis using p' at dl assms(2) quote(5) by (simp add: nth_append)
    qed
  qed
qed


definition sample_query :: bytes where
  "sample_query = [69, 0, 0, 28, 0, 0, 0, 0, 64, 17, 96, 128, 10, 64, 0, 2, 8, 8, 8, 8, 0, 53, 0, 53, 0, 8, 229, 34]"


end
