(* ===== verification/Exit_Node.thy ===== *)
theory Exit_Node
  imports Ipv4_Rewrite Membership
begin

text \<open>
  Exit nodes as the data path sees them: where a gateway may forward (\<open>src/src/exit_node/policy.rs\<close>), whom
  it forwards for and what it refuses (\<open>ExitServer\<close> of \<open>src/src/exit_node.rs\<close>), the client's selection
  (\<open>ExitClient\<close>), the upstream resolvers under a tunnel (\<open>src/src/exit_node/dns.rs\<close>) and the leases of
  gateway addresses (\<open>Nat\<close> of \<open>src/src/exit_node/ipv4.rs\<close>). The kernel commands behind \<open>apply_os\<close> are
  arguments: what the probes found and whether enabling succeeded.
\<close>

unbundle bit_operations_syntax

section \<open>Definitions\<close>

subsection \<open>Transit policy\<close>

definition v4_is_private :: "ipv4_addr \<Rightarrow> bool" where
  "v4_is_private ip \<longleftrightarrow> (let o4 = v4_octets ip in
     o4 ! 0 = 10 \<or> (o4 ! 0 = 172 \<and> 16 \<le> o4 ! 1 \<and> o4 ! 1 \<le> 31) \<or> (o4 ! 0 = 192 \<and> o4 ! 1 = 168))"

definition v4_is_documentation :: "ipv4_addr \<Rightarrow> bool" where
  "v4_is_documentation ip \<longleftrightarrow> take 3 (v4_octets ip) \<in> {[192, 0, 2], [198, 51, 100], [203, 0, 113]}"

definition is_transitable_v4 :: "ipv4_addr \<Rightarrow> bool" where
  "is_transitable_v4 ip \<longleftrightarrow> (let o4 = v4_octets ip in
     \<not> (v4_is_private ip \<or> o4 ! 0 = 127 \<or> (o4 ! 0 = 169 \<and> o4 ! 1 = 254) \<or> (224 \<le> o4 ! 0 \<and> o4 ! 0 \<le> 239) \<or>
        o4 = [255, 255, 255, 255] \<or> ip = 0 \<or> v4_is_documentation ip \<or> take 3 o4 = [192, 0, 0] \<or>
        (o4 ! 0 = 198 \<and> o4 ! 1 AND 0xfe = 18) \<or> o4 ! 0 = 0 \<or> 240 \<le> o4 ! 0))"

definition is_transitable_v6 :: "ipv6_addr \<Rightarrow> bool" where
  "is_transitable_v6 ip \<longleftrightarrow>
     \<not> (ip = 1 \<or> drop_bit 120 ip = 0xff \<or> ip = 0 \<or> drop_bit 112 ip AND 0xffc0 = 0xfe80 \<or> drop_bit 112 ip AND 0xfe00 = 0xfc00)"

definition is_transitable :: "ip_addr \<Rightarrow> bool" where
  "is_transitable dst =
     (if is_overlay_ip dst \<or> (case dst of V4 ip \<Rightarrow> is_cgnat_range ip | V6 _ \<Rightarrow> False) then False
      else case dst of V4 ip \<Rightarrow> is_transitable_v4 ip | V6 ip \<Rightarrow> is_transitable_v6 ip)"

subsection \<open>Leases\<close>

definition server_net :: u32 where "server_net = from_be32 [10, 65, 0, 0]"
definition server_mask :: u32 where "server_mask = push_bit 16 (- 1)"
definition max_leases :: nat where "max_leases = 65534"

text \<open>Both in seconds, as the stamps are.\<close>

definition lease_idle_expiry :: nat where "lease_idle_expiry = 30 * 24 * 60 * 60"
definition restart_grace :: nat where "restart_grace = 7 * 24 * 60 * 60"

definition is_server_addr :: "ipv4_addr \<Rightarrow> bool" where
  "is_server_addr ip \<longleftrightarrow> ip AND server_mask = server_net"

record lease =
  l_peer :: ipv6_addr
  l_network :: string

record slot =
  s_lease :: lease
  s_last_used :: nat

record leased =
  d_addr :: ipv4_addr
  d_last_used :: nat

datatype nat_error = Uninitialized | Exhausted | InvalidLeases | LeaseIo | LeaseSave | BadPacket

record nat_state =
  n_ready :: bool
  n_slots :: "slot list"
  n_outbound :: "lease \<rightharpoonup> leased"
  n_inbound :: "ipv4_addr \<rightharpoonup> lease"

definition empty_nat :: nat_state where
  "empty_nat = \<lparr> n_ready = False, n_slots = [], n_outbound = Map.empty, n_inbound = Map.empty \<rparr>"

definition lease_address :: "nat \<Rightarrow> ipv4_addr" where
  "lease_address i = server_net + 1 + word_of_nat i"

text \<open>The lease file: absent, unreadable or not JSON, or its slots.\<close>

datatype lease_file = NoFile | BadFile | Slots "slot list"

fun load_slots :: "nat \<Rightarrow> nat \<Rightarrow> slot list \<Rightarrow> nat_state \<Rightarrow> nat_state option" where
  "load_slots floor i [] n = Some n"
| "load_slots floor i (s # ss) n =
     (if n_outbound n (s_lease s) \<noteq> None then None
      else load_slots floor (Suc i) ss
        (n \<lparr> n_outbound := (n_outbound n)(s_lease s \<mapsto> \<lparr> d_addr = lease_address i, d_last_used = max (s_last_used s) floor \<rparr>),
             n_inbound := (n_inbound n)(lease_address i \<mapsto> s_lease s) \<rparr>))"

definition initialize :: "nat \<Rightarrow> lease_file \<Rightarrow> nat_state \<Rightarrow> (nat_error + unit) \<times> nat_state" where
  "initialize now file n =
     (if n_ready n then (Inr (), n)
      else case file of
          BadFile \<Rightarrow> (Inl LeaseIo, n)
        | _ \<Rightarrow>
            let slots = (case file of Slots ss \<Rightarrow> ss | _ \<Rightarrow> []) in
            if length slots > max_leases then (Inl InvalidLeases, n)
            else case load_slots (now - (lease_idle_expiry - restart_grace)) 0 slots n of
                None \<Rightarrow> (Inl InvalidLeases, n \<lparr> n_outbound := Map.empty, n_inbound := Map.empty \<rparr>)
              | Some n1 \<Rightarrow> (Inr (), n1 \<lparr> n_slots := slots, n_ready := True \<rparr>))"

definition refresh_slot :: "(lease \<rightharpoonup> leased) \<Rightarrow> slot \<Rightarrow> slot" where
  "refresh_slot out s = (case out (s_lease s) of Some d \<Rightarrow> s \<lparr> s_last_used := d_last_used d \<rparr> | None \<Rightarrow> s)"

text \<open>The index of the first least recently used slot among those idle for long enough.\<close>

fun expired_slot :: "nat \<Rightarrow> nat \<Rightarrow> slot list \<Rightarrow> (nat \<times> nat) option" where
  "expired_slot now i [] = None"
| "expired_slot now i (s # ss) =
     (let later = expired_slot now (Suc i) ss in
      if now - s_last_used s \<ge> lease_idle_expiry
      then (case later of Some (j, u) \<Rightarrow> if u < s_last_used s then later else Some (i, s_last_used s)
            | None \<Rightarrow> Some (i, s_last_used s))
      else later)"

definition allocate :: "nat \<Rightarrow> bool \<Rightarrow> lease \<Rightarrow> nat_state \<Rightarrow> (nat_error + ipv4_addr) \<times> nat_state" where
  "allocate now saved l n =
     (case n_outbound n l of
        Some d \<Rightarrow> (Inr (d_addr d), n)
      | None \<Rightarrow>
          if \<not> n_ready n then (Inl Uninitialized, n)
          else let slots = map (refresh_slot (n_outbound n)) (n_slots n);
                   n = n \<lparr> n_slots := slots \<rparr>;
                   fresh = \<lparr> s_lease = l, s_last_used = now \<rparr>
          in case (case expired_slot now 0 slots of Some (i, _) \<Rightarrow> Some i
                   | None \<Rightarrow> if length slots < max_leases then Some (length slots) else None) of
               None \<Rightarrow> (Inl Exhausted, n)
             | Some i \<Rightarrow>
                 if \<not> saved then (Inl LeaseSave, n)
                 else let out = (if i < length slots then (n_outbound n)(s_lease (slots ! i) := None) else n_outbound n);
                          a = lease_address i
                      in (Inr a, n \<lparr> n_slots := (if i < length slots then slots[i := fresh] else slots @ [fresh]),
                                     n_inbound := (n_inbound n)(a \<mapsto> l),
                                     n_outbound := out(l \<mapsto> \<lparr> d_addr = a, d_last_used = now \<rparr>) \<rparr>))"

definition return_lease :: "ipv4_addr \<Rightarrow> nat_state \<Rightarrow> lease option" where
  "return_lease a n = n_inbound n a"

definition nat_outbound ::
    "nat \<Rightarrow> bool \<Rightarrow> bytes \<Rightarrow> ipv6_addr \<Rightarrow> string \<Rightarrow> nat_state \<Rightarrow> (nat_error + bytes) \<times> nat_state" where
  "nat_outbound now saved packet peer network n =
     (let l = \<lparr> l_peer = peer, l_network = network \<rparr>;
          (r, n) = (case n_outbound n l of
                      Some d \<Rightarrow> (Inr (d_addr d), n \<lparr> n_outbound := (n_outbound n)(l \<mapsto> d \<lparr> d_last_used := now \<rparr>) \<rparr>)
                    | None \<Rightarrow> allocate now saved l n)
      in case r of
           Inl e \<Rightarrow> (Inl e, n)
         | Inr a \<Rightarrow> (case rewrite_v4 packet wire_client_addr a of Some p \<Rightarrow> (Inr p, n) | None \<Rightarrow> (Inl BadPacket, n)))"

subsection \<open>The gateway\<close>

record v4_prefix =
  p4_addr :: ipv4_addr
  p4_len :: nat

definition v4_prefix_contains :: "v4_prefix \<Rightarrow> ipv4_addr \<Rightarrow> bool" where
  "v4_prefix_contains p ip \<longleftrightarrow> (let m = push_bit (32 - p4_len p) (- 1) in ip AND m = p4_addr p AND m)"

record v6_prefix =
  p6_addr :: ipv6_addr
  p6_len :: u8

definition v6_prefix_contains :: "v6_prefix \<Rightarrow> ipv6_addr \<Rightarrow> bool" where
  "v6_prefix_contains p ip =
     (if p6_len p = 0 \<or> p6_len p > 128 then False
      else let shift = 128 - unat (p6_len p) in drop_bit shift (p6_addr p) = drop_bit shift ip)"

record exit_allow =
  ea_any :: bool
  ea_users :: "endpoint_id set"

record exit_server =
  es_ipv4 :: nat_state
  es_v4_uplink :: bool
  es_v4_pool :: bool
  es_nets :: "string \<rightharpoonup> exit_allow"
  es_self_addrs :: "ip_addr set"
  es_v6_uplink :: bool
  es_on_link :: "v6_prefix list"
  es_on_link_v4 :: "v4_prefix list"

definition new_exit_server :: exit_server where
  "new_exit_server = \<lparr> es_ipv4 = empty_nat, es_v4_uplink = False, es_v4_pool = False, es_nets = Map.empty, es_self_addrs = {},
     es_v6_uplink = False, es_on_link = [], es_on_link_v4 = [] \<rparr>"

definition es_allows :: "string \<Rightarrow> endpoint_id \<Rightarrow> exit_server \<Rightarrow> bool" where
  "es_allows network user s = (case es_nets s network of Some a \<Rightarrow> ea_any a \<or> user \<in> ea_users a | None \<Rightarrow> False)"

definition is_self_addr :: "ip_addr \<Rightarrow> exit_server \<Rightarrow> bool" where
  "is_self_addr dst s \<longleftrightarrow> dst \<in> es_self_addrs s"

definition is_on_link :: "ip_addr \<Rightarrow> exit_server \<Rightarrow> bool" where
  "is_on_link dst s =
     (case dst of V4 ip \<Rightarrow> list_ex (\<lambda>p. v4_prefix_contains p ip) (es_on_link_v4 s)
      | V6 ip \<Rightarrow> list_ex (\<lambda>p. v6_prefix_contains p ip) (es_on_link s))"

definition es_is_active :: "exit_server \<Rightarrow> bool" where
  "es_is_active s \<longleftrightarrow> es_nets s \<noteq> Map.empty"

definition is_offering :: "string \<Rightarrow> exit_server \<Rightarrow> bool" where
  "is_offering network s \<longleftrightarrow> es_nets s network \<noteq> None"

definition offers_v4 :: "exit_server \<Rightarrow> bool" where
  "offers_v4 s \<longleftrightarrow> es_v4_uplink s \<and> es_v4_pool s"

definition offers_v6 :: "exit_server \<Rightarrow> bool" where
  "offers_v6 s \<longleftrightarrow> es_v6_uplink s"

definition refresh_uplinks :: "bool \<Rightarrow> bool \<Rightarrow> exit_server \<Rightarrow> exit_server" where
  "refresh_uplinks has_v6 has_v4 s =
     (if es_is_active s then s \<lparr> es_v6_uplink := has_v6, es_v4_uplink := has_v4 \<rparr> else s)"

definition allow_entry :: "(string \<Rightarrow> endpoint_id option) \<Rightarrow> exit_allow \<Rightarrow> string \<Rightarrow> exit_allow" where
  "allow_entry parse_id a e =
     (if e = ''*'' then a \<lparr> ea_any := True \<rparr>
      else case parse_id e of Some i \<Rightarrow> a \<lparr> ea_users := insert i (ea_users a) \<rparr> | None \<Rightarrow> a)"

definition reload_nets :: "(string \<Rightarrow> endpoint_id option) \<Rightarrow> (string \<times> string list) list \<Rightarrow> (string \<rightharpoonup> exit_allow)" where
  "reload_nets parse_id entries =
     foldl (\<lambda>nets (name, l). if l = [] then nets
              else nets(name \<mapsto> foldl (allow_entry parse_id) \<lparr> ea_any = False, ea_users = {} \<rparr> l)) Map.empty entries"

definition es_reload :: "(string \<Rightarrow> endpoint_id option) \<Rightarrow> (string \<times> string list) list \<Rightarrow> exit_server \<Rightarrow> exit_server" where
  "es_reload parse_id entries s = s \<lparr> es_nets := reload_nets parse_id entries \<rparr>"

definition es_rename_network :: "string \<Rightarrow> string \<Rightarrow> exit_server \<Rightarrow> exit_server" where
  "es_rename_network from to s =
     (case es_nets s from of
        Some a \<Rightarrow> s \<lparr> es_nets := ((es_nets s)(from := None))(to \<mapsto> a) \<rparr>
      | None \<Rightarrow> s)"

definition es_clear :: "exit_server \<Rightarrow> exit_server" where
  "es_clear s = s \<lparr> es_nets := Map.empty \<rparr>"

record host_interfaces =
  hi_addrs :: "ip_addr set"
  hi_on_link :: "v6_prefix list"
  hi_on_link_v4 :: "v4_prefix list"

definition refresh_host_interfaces :: "host_interfaces \<Rightarrow> exit_server \<Rightarrow> exit_server" where
  "refresh_host_interfaces h s =
     s \<lparr> es_self_addrs := hi_addrs h, es_on_link := hi_on_link h, es_on_link_v4 := hi_on_link_v4 h \<rparr>"

text \<open>What the host answers while \<open>apply_os\<close> runs: the configuration directory may be missing, and \<open>enable\<close>
  fails or reports whether the kernel took the lease pool.\<close>

record os_probe =
  os_now :: nat
  os_host :: host_interfaces
  os_v6 :: bool
  os_v4 :: bool
  os_dir :: bool
  os_leases :: lease_file
  os_enable :: "bool \<Rightarrow> bool option"

text \<open>The result tells whether enabling failed.\<close>

definition apply_os :: "os_probe \<Rightarrow> exit_server \<Rightarrow> bool \<times> exit_server" where
  "apply_os os s =
     (if es_is_active s then
        let s = (refresh_host_interfaces (os_host os) s) \<lparr> es_v6_uplink := os_v6 os, es_v4_uplink := os_v4 os \<rparr>;
            (r, n) = (if os_dir os then initialize (os_now os) (os_leases os) (es_ipv4 s) else (Inr (), es_ipv4 s));
            s = s \<lparr> es_ipv4 := n \<rparr>
        in case (if os_dir os then os_enable os (\<not> isl r \<and> es_v4_uplink s) else None) of
             Some pool \<Rightarrow> (False, s \<lparr> es_v4_pool := pool \<rparr>)
           | None \<Rightarrow> (True, (es_clear s) \<lparr> es_v4_pool := False \<rparr>)
      else (False, s \<lparr> es_v6_uplink := False, es_v4_uplink := False, es_v4_pool := False \<rparr>))"

subsection \<open>The client\<close>

record exit_selection =
  x_peer_user :: endpoint_id
  x_ipv6 :: ipv6_addr
  x_network :: string
  x_carries :: exit_families

type_synonym exit_client = "exit_selection option"

definition is_return_from :: "endpoint_id \<Rightarrow> ipv6_addr \<Rightarrow> exit_client \<Rightarrow> bool" where
  "is_return_from user ip c = (case c of Some s \<Rightarrow> x_peer_user s = user \<or> x_ipv6 s = ip | None \<Rightarrow> False)"

definition ec_rename_network :: "string \<Rightarrow> string \<Rightarrow> exit_client \<Rightarrow> exit_client" where
  "ec_rename_network from to c = map_option (\<lambda>s. if x_network s = from then s \<lparr> x_network := to \<rparr> else s) c"

record exit_context =
  xc_server :: exit_server
  xc_client :: exit_client
  xc_my_v6 :: ipv6_addr

subsection \<open>Resolvers under a tunnel\<close>

definition magic_dns_v4 :: ipv4_addr where "magic_dns_v4 = v4_of_octets [100, 100, 100, 53]"
definition magic_dns_v6 :: ipv6_addr where "magic_dns_v6 = v6_of_octets [2, 0, 0, 0, 0, 0, 0, 0, 0, 0, 0, 0, 0, 0, 0, 0x53]"

definition is_own_resolver :: "ip_addr \<Rightarrow> bool" where
  "is_own_resolver ip \<longleftrightarrow> ip = V6 magic_dns_v6 \<or> ip = V4 magic_dns_v4"

definition cloudflare_v6 :: ipv6_addr where
  "cloudflare_v6 = v6_of_octets [0x26, 0x06, 0x47, 0, 0x47, 0, 0, 0, 0, 0, 0, 0, 0, 0, 0x11, 0x11]"
definition google_v6 :: ipv6_addr where
  "google_v6 = v6_of_octets [0x20, 0x01, 0x48, 0x60, 0x48, 0x60, 0, 0, 0, 0, 0, 0, 0, 0, 0x88, 0x88]"

definition public_fallback_dns :: "ip_addr list" where
  "public_fallback_dns = [V4 (v4_of_octets [1, 1, 1, 1]), V6 cloudflare_v6, V4 (v4_of_octets [8, 8, 8, 8]), V6 google_v6]"

definition public_fallback_dns_v6 :: "ipv6_addr list" where
  "public_fallback_dns_v6 = [cloudflare_v6, google_v6]"

record server_override =
  so_servers :: "string list"
  so_replace :: bool

definition tunnel_upstreams :: "(string \<Rightarrow> ip_addr option) \<Rightarrow> exit_families \<Rightarrow> server_override \<Rightarrow> ip_addr list" where
  "tunnel_upstreams parse_ip fams conf =
     (let configured = filter (\<lambda>ip. \<not> is_own_resolver ip) (List.map_filter parse_ip (so_servers conf));
          servers = filter (carries fams) (filter (\<lambda>ip. is_overlay_ip ip \<or> is_transitable ip) configured)
      in if so_replace conf \<and> configured \<noteq> [] then (if servers = [] then configured else servers)
         else if carries_v4 fams then servers @ filter (\<lambda>ip. case ip of V4 _ \<Rightarrow> True | V6 _ \<Rightarrow> False) public_fallback_dns
         else servers @ map V6 public_fallback_dns_v6)"

section \<open>Leases belong to one owner\<close>

text \<open>The three views of the pool agree: slot \<open>i\<close> is the address \<open>lease_address i\<close>, its owner is found from
  the address and finds the address, and nobody else has one.\<close>

definition leases :: "nat_state \<Rightarrow> lease list" where
  "leases n = map s_lease (n_slots n)"

definition nat_ok :: "nat_state \<Rightarrow> bool" where
  "nat_ok n \<longleftrightarrow>
     length (leases n) \<le> max_leases \<and> distinct (leases n) \<and> dom (n_outbound n) = set (leases n) \<and>
     (\<forall>i < length (leases n). \<exists>d. n_outbound n (leases n ! i) = Some d \<and> d_addr d = lease_address i) \<and>
     (\<forall>a l. n_inbound n a = Some l \<longleftrightarrow> (\<exists>i < length (leases n). a = lease_address i \<and> l = leases n ! i))"

lemma lease_address_inj:
  assumes "i < 65536" "j < 65536" "lease_address i = lease_address j"
  shows "i = j"
proof -
  have "(word_of_nat i :: u32) = word_of_nat j" using assms(3) by (simp add: lease_address_def)
  then have "unat (word_of_nat i :: u32) = unat (word_of_nat j :: u32)" by simp
  then show ?thesis using assms(1,2) by (simp add: unat_of_nat_small)
qed

lemma high_half: "(w :: u32) AND push_bit 16 (- 1) = push_bit 16 (drop_bit 16 w)"
  by (rule bit_word_eqI) (auto simp: bit_simps)

lemma lease_address_server:
  assumes "i < max_leases"
  shows "is_server_addr (lease_address i)"
proof -
  have i: "i < 65534" using assms by (simp add: max_leases_def)
  have net: "server_net = 0x0A410000" by (simp add: server_net_def from_be32_def be_nat_four)
  have "unat (lease_address i) = 0x0A410000 + Suc i"
    using i by (simp add: lease_address_def net unat_word_ariths unat_of_nat_small)
  then have "unat (drop_bit 16 (lease_address i)) = 0x0A41" unfolding unat_drop_bit_eq using i by (simp add: drop_bit_eq_div)
  then have "drop_bit 16 (lease_address i) = 0x0A41" by (simp add: word_unat_eq_iff)
  then show ?thesis unfolding is_server_addr_def server_mask_def high_half net by simp
qed

lemma refresh_lease [simp]: "s_lease (refresh_slot out s) = s_lease s"
  by (simp add: refresh_slot_def split: option.split)

lemma leases_refresh [simp]: "leases (n \<lparr> n_slots := map (refresh_slot out) ss \<rparr>) = map s_lease ss"
  by (simp add: leases_def comp_def)

lemma nat_ok_refresh: "nat_ok n \<Longrightarrow> nat_ok (n \<lparr> n_slots := map (refresh_slot out) (n_slots n) \<rparr>)"
  by (simp add: nat_ok_def) (simp add: leases_def)

lemma expired_slot_spec:
  "expired_slot now k ss = Some (i, u) \<Longrightarrow>
     k \<le> i \<and> i < k + length ss \<and> u = s_last_used (ss ! (i - k)) \<and> lease_idle_expiry \<le> now - u"
proof (induction ss arbitrary: k)
  case (Cons s ss)
  have "expired_slot now (Suc k) ss = Some (i, u) \<or> i = k \<and> u = s_last_used s \<and> lease_idle_expiry \<le> now - u"
    using Cons.prems by (auto simp: Let_def split: if_splits option.splits)
  then show ?case
  proof
    assume "expired_slot now (Suc k) ss = Some (i, u)"
    from Cons.IH [OF this] have "Suc k \<le> i" "i < Suc k + length ss" "u = s_last_used (ss ! (i - Suc k))"
      "lease_idle_expiry \<le> now - u" by blast+
    moreover from this(1) have "(s # ss) ! (i - k) = ss ! (i - Suc k)" by (simp add: nth_Cons')
    ultimately show ?case by simp
  qed auto
qed simp

lemma expired_slot_None: "expired_slot now k ss = None \<longleftrightarrow> (\<forall>s \<in> set ss. now - s_last_used s < lease_idle_expiry)"
  by (induction ss arbitrary: k) (auto simp: Let_def not_le split: if_splits option.splits)

lemma nat_ok_touch:
  assumes "nat_ok n" "n_outbound n l = Some d"
  shows "nat_ok (n \<lparr> n_outbound := (n_outbound n)(l \<mapsto> d \<lparr> d_last_used := now \<rparr>) \<rparr>)"
  using assms by (auto simp: nat_ok_def leases_def dom_def)

text \<open>What \<open>allocate\<close> does, as one of five cases.\<close>

lemma allocate_cases:
  obtains (held) d where "n_outbound n l = Some d" "allocate now saved l n = (Inr (d_addr d), n)"
  | (unready) "n_outbound n l = None" "\<not> n_ready n" "allocate now saved l n = (Inl Uninitialized, n)"
  | (failed) e where "n_outbound n l = None" "n_ready n"
      "allocate now saved l n = (Inl e, n \<lparr> n_slots := map (refresh_slot (n_outbound n)) (n_slots n) \<rparr>)"
      "e = LeaseSave \<and> \<not> saved \<or> e = Exhausted \<and> max_leases \<le> length (n_slots n) \<and>
         (\<forall>s \<in> set (n_slots n). now - s_last_used (refresh_slot (n_outbound n) s) < lease_idle_expiry)"
  | (moved) i where "n_outbound n l = None" "i < length (n_slots n)"
      "lease_idle_expiry \<le> now - s_last_used (refresh_slot (n_outbound n) (n_slots n ! i))"
      "allocate now saved l n = (Inr (lease_address i),
        n \<lparr> n_slots := (map (refresh_slot (n_outbound n)) (n_slots n))[i := \<lparr> s_lease = l, s_last_used = now \<rparr>],
            n_inbound := (n_inbound n)(lease_address i \<mapsto> l),
            n_outbound := ((n_outbound n)(leases n ! i := None))(l \<mapsto> \<lparr> d_addr = lease_address i, d_last_used = now \<rparr>) \<rparr>)"
  | (fresh) i where "n_outbound n l = None" "i = length (n_slots n)" "i < max_leases"
      "allocate now saved l n = (Inr (lease_address i),
        n \<lparr> n_slots := map (refresh_slot (n_outbound n)) (n_slots n) @ [\<lparr> s_lease = l, s_last_used = now \<rparr>],
            n_inbound := (n_inbound n)(lease_address i \<mapsto> l),
            n_outbound := (n_outbound n)(l \<mapsto> \<lparr> d_addr = lease_address i, d_last_used = now \<rparr>) \<rparr>)"
proof (cases "n_outbound n l")
  case (Some d)
  then show ?thesis by (intro held [of d]) (simp_all add: allocate_def)
next
  case None
  let ?ss = "map (refresh_slot (n_outbound n)) (n_slots n)"
  show ?thesis
  proof (cases "n_ready n")
    case False
    then show ?thesis using None by (intro unready) (simp_all add: allocate_def)
  next
    case True
    show ?thesis
    proof (cases "expired_slot now 0 ?ss")
      case None': None
      show ?thesis
      proof (cases "length (n_slots n) < max_leases \<and> saved")
        case T: True
        then show ?thesis using None True None' by (intro fresh [of "length (n_slots n)"]) (simp_all add: allocate_def Let_def)
      next
        case F: False
        then show ?thesis
          using None True None' expired_slot_None [of now 0 ?ss]
          by (intro failed [of "if length (n_slots n) < max_leases then LeaseSave else Exhausted"])
            (auto simp: allocate_def Let_def)
      qed
    next
      case (Some iu)
      obtain i u where iu: "iu = (i, u)" by (cases iu)
      from expired_slot_spec [OF Some [unfolded iu]]
      have e: "i < length (n_slots n)" "lease_idle_expiry \<le> now - s_last_used (refresh_slot (n_outbound n) (n_slots n ! i))"
        by auto
      show ?thesis
      proof (cases saved)
        case False
        then show ?thesis using None True Some iu by (intro failed [of LeaseSave]) (simp_all add: allocate_def Let_def)
      next
        case T: True
        then show ?thesis
          using None True Some iu e by (intro moved [of i]) (simp_all add: allocate_def Let_def leases_def)
      qed
    qed
  qed
qed

lemma nat_okD:
  assumes "nat_ok n"
  shows "length (leases n) \<le> max_leases" "distinct (leases n)" "dom (n_outbound n) = set (leases n)"
    "\<And>i. i < length (leases n) \<Longrightarrow> \<exists>d. n_outbound n (leases n ! i) = Some d \<and> d_addr d = lease_address i"
    "\<And>a l. n_inbound n a = Some l \<longleftrightarrow> (\<exists>i < length (leases n). a = lease_address i \<and> l = leases n ! i)"
  using assms unfolding nat_ok_def by blast+

lemma lease_address_eq:
  assumes "nat_ok n" "i \<le> length (leases n)" "j \<le> length (leases n)"
  shows "lease_address i = lease_address j \<longleftrightarrow> i = j"
  using lease_address_inj [of i j] nat_okD(1) [OF assms(1)] assms(2,3) by (auto simp: max_leases_def)

lemma nat_ok_moved:
  assumes ok: "nat_ok n" and new: "n_outbound n l = None" and i: "i < length (leases n)"
    and m: "leases m = (leases n)[i := l]" "n_inbound m = (n_inbound n)(lease_address i \<mapsto> l)"
      "n_outbound m = ((n_outbound n)(leases n ! i := None))(l \<mapsto> \<lparr> d_addr = lease_address i, d_last_used = now \<rparr>)"
  shows "nat_ok m"
  unfolding nat_ok_def m
proof (intro conjI allI impI)
  note eq = lease_address_eq [OF ok] and ok = nat_okD [OF ok]
  have l: "l \<notin> set (leases n)" using new ok(3) by (metis domIff)
  have ne: "leases n ! j \<noteq> leases n ! i" "leases n ! j \<noteq> l" if "j < length (leases n)" "j \<noteq> i" for j
    using that i l ok(2) by (auto simp: nth_eq_iff_index_eq)
  show "length ((leases n)[i := l]) \<le> max_leases" "distinct ((leases n)[i := l])"
    using ok(1,2) l by (simp_all add: distinct_list_update)
  show "dom (((n_outbound n)(leases n ! i := None))(l \<mapsto> \<lparr> d_addr = lease_address i, d_last_used = now \<rparr>)) = set ((leases n)[i := l])"
    using ok(2,3) i by (simp add: set_update_distinct)
  show "\<exists>d. (((n_outbound n)(leases n ! i := None))(l \<mapsto> \<lparr> d_addr = lease_address i, d_last_used = now \<rparr>)) ((leases n)[i := l] ! j) =
      Some d \<and> d_addr d = lease_address j" if "j < length ((leases n)[i := l])" for j
    using that ok(4) [of j] ne [of j] by (cases "j = i") auto
  show "((n_inbound n)(lease_address i \<mapsto> l)) a = Some k \<longleftrightarrow>
      (\<exists>j < length ((leases n)[i := l]). a = lease_address j \<and> k = (leases n)[i := l] ! j)" for a k
  proof (cases "a = lease_address i")
    case True
    then show ?thesis using i eq by (auto intro: exI [of _ i])
  next
    case False
    then show ?thesis using ok(5) [of a k] i by (auto simp: nth_list_update)
  qed
qed

lemma nat_ok_fresh:
  assumes ok: "nat_ok n" and new: "n_outbound n l = None" and i: "i = length (leases n)" "i < max_leases"
    and m: "leases m = leases n @ [l]" "n_inbound m = (n_inbound n)(lease_address i \<mapsto> l)"
      "n_outbound m = (n_outbound n)(l \<mapsto> \<lparr> d_addr = lease_address i, d_last_used = now \<rparr>)"
  shows "nat_ok m"
  unfolding nat_ok_def m
proof (intro conjI allI impI)
  note eq = lease_address_eq [OF ok] and ok = nat_okD [OF ok]
  have l: "l \<notin> set (leases n)" using new ok(3) by (metis domIff)
  show "length (leases n @ [l]) \<le> max_leases" "distinct (leases n @ [l])" using i ok(2) l by simp_all
  show "dom ((n_outbound n)(l \<mapsto> \<lparr> d_addr = lease_address i, d_last_used = now \<rparr>)) = set (leases n @ [l])" using ok(3) by auto
  show "\<exists>d. ((n_outbound n)(l \<mapsto> \<lparr> d_addr = lease_address i, d_last_used = now \<rparr>)) ((leases n @ [l]) ! j) = Some d \<and>
      d_addr d = lease_address j" if "j < length (leases n @ [l])" for j
    using that ok(4) [of j] l i(1) by (auto simp: nth_append less_Suc_eq)
  show "((n_inbound n)(lease_address i \<mapsto> l)) a = Some k \<longleftrightarrow>
      (\<exists>j < length (leases n @ [l]). a = lease_address j \<and> k = (leases n @ [l]) ! j)" for a k
  proof (cases "a = lease_address i")
    case True
    then show ?thesis using i(1) eq by (auto simp: nth_append less_Suc_eq)
  next
    case False
    then show ?thesis using ok(5) [of a k] i(1) by (auto simp: nth_append less_Suc_eq)
  qed
qed

lemma nat_ok_allocate:
  assumes "nat_ok n"
  shows "nat_ok (snd (allocate now saved l n))"
proof (cases rule: allocate_cases [of n l now saved])
  case (failed e)
  then show ?thesis using assms by (simp add: nat_ok_refresh)
next
  case (moved i)
  then show ?thesis using assms by (auto intro!: nat_ok_moved [OF assms, of l i] simp: leases_def map_update comp_def)
next
  case (fresh i)
  then show ?thesis using assms by (auto intro!: nat_ok_fresh [OF assms, of l i] simp: leases_def comp_def)
qed (use assms in simp_all)

lemma nat_ok_outbound:
  assumes "nat_ok n"
  shows "nat_ok (snd (nat_outbound now saved packet peer network n))"
  using nat_ok_allocate [OF assms] nat_ok_touch [OF assms]
  by (auto simp: nat_outbound_def Let_def split: prod.splits option.splits sum.splits) (metis snd_conv)+

lemma load_slots_ok:
  assumes "load_slots floor (length pre) ss n = Some m" "nat_ok (n \<lparr> n_slots := pre \<rparr>)" "length pre + length ss \<le> max_leases"
  shows "nat_ok (m \<lparr> n_slots := pre @ ss \<rparr>)"
  using assms
proof (induction ss arbitrary: pre n)
  case (Cons s ss)
  let ?n = "n \<lparr> n_outbound := (n_outbound n)(s_lease s \<mapsto> \<lparr> d_addr = lease_address (length pre), d_last_used = max (s_last_used s) floor \<rparr>),
             n_inbound := (n_inbound n)(lease_address (length pre) \<mapsto> s_lease s) \<rparr>"
  have new: "n_outbound n (s_lease s) = None" and rest: "load_slots floor (length (pre @ [s])) ss ?n = Some m"
    using Cons.prems(1) by (auto split: if_splits)
  have "nat_ok (?n \<lparr> n_slots := pre @ [s] \<rparr>)"
    using new Cons.prems(3)
    by (intro nat_ok_fresh [OF Cons.prems(2), of "s_lease s" "length pre"]) (simp_all add: leases_def)
  from Cons.IH [OF rest this] show ?case using Cons.prems(3) by simp
qed simp

lemma nat_ok_empty: "nat_ok empty_nat"
  by (simp add: nat_ok_def leases_def empty_nat_def)

lemma initialize_ok: "nat_ok (snd (initialize now lf empty_nat))"
proof -
  have "nat_ok (m \<lparr> n_slots := ss, n_ready := True \<rparr>)"
    if "load_slots floor 0 ss empty_nat = Some m" "length ss \<le> max_leases" for floor ss m
    using load_slots_ok [of floor "[]" ss empty_nat m] that nat_ok_empty
    by (simp add: nat_ok_def leases_def empty_nat_def)
  then show ?thesis
    using nat_ok_empty
    by (cases lf) (auto simp: initialize_def Let_def not_less nat_ok_def leases_def empty_nat_def split: option.splits)
qed

type_synonym nat_send = "nat \<times> bool \<times> bytes \<times> ipv6_addr \<times> string"

definition nat_run :: "nat_send list \<Rightarrow> nat_state \<Rightarrow> nat_state" where
  "nat_run sends n = fold (\<lambda>(now, saved, p, peer, network) n. snd (nat_outbound now saved p peer network n)) sends n"

lemma nat_ok_run: "nat_ok n \<Longrightarrow> nat_ok (nat_run sends n)"
  unfolding nat_run_def by (induction sends arbitrary: n) (auto simp: nat_ok_outbound)

definition holds_since :: "nat \<Rightarrow> lease \<Rightarrow> ipv4_addr \<Rightarrow> nat_state \<Rightarrow> bool" where
  "holds_since t l a n \<longleftrightarrow> (\<exists>d. n_outbound n l = Some d \<and> d_addr d = a \<and> t \<le> d_last_used d)"

lemma holds_allocate:
  assumes "nat_ok n" "holds_since t l a n" "t \<le> now" "now < t + lease_idle_expiry"
  shows "holds_since t l a (snd (allocate now saved k n))"
proof (cases rule: allocate_cases [of n k now saved])
  case (moved i)
  obtain d where d: "n_outbound n l = Some d" "d_addr d = a" "t \<le> d_last_used d" using assms(2) by (auto simp: holds_since_def)
  have "leases n ! i \<noteq> l"
  proof
    assume "leases n ! i = l"
    then have "s_last_used (refresh_slot (n_outbound n) (n_slots n ! i)) = d_last_used d"
      using moved(2) d(1) by (simp add: refresh_slot_def leases_def)
    then show False using moved(3) d(3) assms(3,4) by simp
  qed
  then show ?thesis using moved(1,4) d by (auto simp: holds_since_def)
qed (use assms(2) in \<open>auto simp: holds_since_def\<close>)

lemma holds_outbound:
  assumes "nat_ok n" "holds_since t l a n" "t \<le> now" "now < t + lease_idle_expiry"
  shows "holds_since t l a (snd (nat_outbound now saved p peer network n))"
proof -
  have "holds_since t l a (n \<lparr> n_outbound := (n_outbound n)(k \<mapsto> d \<lparr> d_last_used := now \<rparr>) \<rparr>)" if "n_outbound n k = Some d" for k d
    using assms(2,3) that by (auto simp: holds_since_def)
  moreover note holds_allocate [OF assms]
  ultimately show ?thesis
    by (auto simp: nat_outbound_def Let_def split: prod.splits option.splits sum.splits) (metis snd_conv)+
qed

lemma holds_run:
  assumes "nat_ok n" "holds_since t l a n" "\<forall>(now, _) \<in> set sends. t \<le> now \<and> now < t + lease_idle_expiry"
  shows "holds_since t l a (nat_run sends n)"
  using assms unfolding nat_run_def
  by (induction sends arbitrary: n) (auto intro!: holds_outbound nat_ok_outbound)

lemma outbound_holds:
  assumes "nat_ok n" "nat_outbound t saved p peer network n = (Inr p', n')"
  obtains a where "rewrite_v4 p wire_client_addr a = Some p'" "holds_since t \<lparr> l_peer = peer, l_network = network \<rparr> a n'"
proof -
  let ?l = "\<lparr> l_peer = peer, l_network = network \<rparr>"
  show ?thesis
  proof (cases "n_outbound n ?l")
    case (Some d)
    then show ?thesis
      using assms(2) by (intro that [of "d_addr d"]) (auto simp: nat_outbound_def Let_def holds_since_def split: option.splits)
  next
    case None
    obtain r m where rm: "allocate t saved ?l n = (r, m)" by (cases "allocate t saved ?l n")
    then obtain a where r: "r = Inr a" "rewrite_v4 p wire_client_addr a = Some p'" "n' = m"
      using assms(2) None by (auto simp: nat_outbound_def Let_def split: option.splits sum.splits)
    have "holds_since t ?l a m"
      by (rule allocate_cases [of n ?l t saved]) (use rm r None in \<open>auto simp: holds_since_def\<close>)
    then show ?thesis using r by (intro that) simp_all
  qed
qed

lemma holds_inverse:
  assumes "nat_ok n" "holds_since t l a n"
  shows "is_server_addr a" "n_inbound n a' = Some l \<longleftrightarrow> a' = a"
proof -
  note ok = nat_okD [OF assms(1)]
  obtain d where d: "n_outbound n l = Some d" "d_addr d = a" using assms(2) by (auto simp: holds_since_def)
  then have "l \<in> set (leases n)" using ok(3) by blast
  then obtain i where i: "i < length (leases n)" "l = leases n ! i" by (auto simp: in_set_conv_nth)
  then have a: "a = lease_address i" using ok(4) [OF i(1)] d by auto
  show "is_server_addr a" using i ok(1) by (simp add: a lease_address_server)
  have "j = i" if "j < length (leases n)" "leases n ! j = l" for j
    using that i ok(2) by (simp add: nth_eq_iff_index_eq)
  then show "n_inbound n a' = Some l \<longleftrightarrow> a' = a" using i a ok(5) by metis
qed

text \<open>C9. A leased address keeps its owner: however the gateway was started and whatever it has forwarded,
  once it has translated a packet of a client, then for thirty days, whoever else sends, answers to the
  address that the packet left with are routed to that client and network, on no other address, and the
  address is one of the gateway's pool.\<close>

theorem lease_keeps_its_owner:
  assumes "n = nat_run earlier (snd (initialize boot file empty_nat))"
    and "nat_outbound t saved p peer network n = (Inr p', n')"
    and "\<forall>(now, _) \<in> set later. t \<le> now \<and> now < t + lease_idle_expiry"
  shows "\<exists>a. rewrite_v4 p wire_client_addr a = Some p' \<and> is_server_addr a \<and>
    (\<forall>a'. return_lease a' (nat_run later n') = Some \<lparr> l_peer = peer, l_network = network \<rparr> \<longleftrightarrow> a' = a)"
proof -
  have ok: "nat_ok n" using assms(1) initialize_ok nat_ok_run by simp
  from ok assms(2) obtain a where a: "rewrite_v4 p wire_client_addr a = Some p'"
    "holds_since t \<lparr> l_peer = peer, l_network = network \<rparr> a n'" by (rule outbound_holds)
  have "nat_ok n'" using nat_ok_outbound [OF ok] assms(2) by (metis snd_conv)
  then have "nat_ok (nat_run later n')" "holds_since t \<lparr> l_peer = peer, l_network = network \<rparr> a (nat_run later n')"
    using a(2) assms(3) by (auto intro: nat_ok_run holds_run)
  from holds_inverse [OF this] a(1) show ?thesis by (auto simp: return_lease_def)
qed

definition sample_transit :: bytes where
  "sample_transit = [69, 0, 0, 28, 0, 0, 0, 0, 64, 17, 0, 0, 192, 0, 0, 2, 8, 8, 8, 8, 0, 53, 0, 53, 0, 8, 0, 0]"

lemma sample_transit_rewrites: "\<exists>p'. rewrite_v4 sample_transit old new = Some p'"
proof -
  have "\<exists>r. rewrite_header False (v4_octets old) (v4_octets new) sample_transit = Some r"
    by (simp add: rewrite_header_def sample_transit_def slice_def from_be16_def be_nat_two)
  then obtain r where r: "rewrite_header False (v4_octets old) (v4_octets new) sample_transit = Some r" ..
  have "r ! 9 = sample_transit ! 9" using rewrite_header_ok(5) [OF r] by simp
  then have "r ! 9 = 17" by (simp add: sample_transit_def)
  then show ?thesis by (simp add: rewrite_v4_def rewrite_inner_def r)
qed

theorem lease_keeps_its_owner_witness:
  "let n = snd (initialize 0 NoFile empty_nat); n' = snd (nat_outbound 100 True sample_transit 5 ''dev'' n) in
     \<exists>a. is_server_addr a \<and> return_lease a (nat_run [(200, True, sample_transit, 6, ''dev'')] n') = Some \<lparr> l_peer = 5, l_network = ''dev'' \<rparr>"
proof -
  define n where "n = snd (initialize 0 NoFile empty_nat)"
  obtain p' where p': "rewrite_v4 sample_transit wire_client_addr (lease_address 0) = Some p'"
    using sample_transit_rewrites by blast
  have "\<exists>n'. nat_outbound 100 True sample_transit 5 ''dev'' n = (Inr p', n')"
    by (simp add: n_def initialize_def empty_nat_def nat_outbound_def allocate_def Let_def max_leases_def p')
  then obtain n' where n': "nat_outbound 100 True sample_transit 5 ''dev'' n = (Inr p', n')" ..
  have "n = nat_run [] (snd (initialize 0 NoFile empty_nat))" by (simp add: n_def nat_run_def)
  from lease_keeps_its_owner [OF this n', of "[(200, True, sample_transit, 6, ''dev'')]"] n' show ?thesis
    unfolding Let_def n_def [symmetric] by (auto simp: lease_idle_expiry_def)
qed

section \<open>Offers and resolvers\<close>

text \<open>A gateway that cannot enable forwarding offers nothing: afterwards nobody is allowed to route out through
  it on any network, and it carries no IPv4.\<close>

lemma apply_os_failure:
  assumes "apply_os os s = (True, s')"
  shows "\<not> es_allows network user s'" "\<not> is_offering network s'" "\<not> offers_v4 s'"
  using assms
  by (auto simp: apply_os_def es_clear_def es_allows_def is_offering_def offers_v4_def Let_def
      split: if_splits prod.splits option.splits)

lemma allow_entries:
  "ea_any (foldl (allow_entry parse_id) a l) \<longleftrightarrow> ea_any a \<or> ''*'' \<in> set l"
  "u \<in> ea_users (foldl (allow_entry parse_id) a l) \<longleftrightarrow> u \<in> ea_users a \<or> (\<exists>e \<in> set l. e \<noteq> ''*'' \<and> parse_id e = Some u)"
  by (induction l arbitrary: a) (auto simp: allow_entry_def split: option.splits)

lemma reload_nets_snoc:
  "reload_nets parse_id (entries @ [(name, l)]) =
     (if l = [] then reload_nets parse_id entries
      else (reload_nets parse_id entries)(name \<mapsto> foldl (allow_entry parse_id) \<lparr> ea_any = False, ea_users = {} \<rparr> l))"
  by (simp add: reload_nets_def)

lemma reload_nets_get:
  assumes "distinct (map fst entries)"
  shows "reload_nets parse_id entries name = (case map_of entries name of
      None \<Rightarrow> None | Some l \<Rightarrow> if l = [] then None else Some (foldl (allow_entry parse_id) \<lparr> ea_any = False, ea_users = {} \<rparr> l))"
  using assms
proof (induction entries rule: rev_induct)
  case (snoc e entries)
  obtain k l where e: "e = (k, l)" by (cases e)
  have "map_of entries k = None" using snoc.prems by (simp add: e map_of_eq_None_iff)
  then show ?case using snoc by (auto simp: e reload_nets_snoc map_add_def split: option.splits)
qed (simp add: reload_nets_def)

text \<open>C20. A gateway forwards for exactly the users on its allow-lists: after a reload a user may route out
  on a network exactly when the network's list names everyone or that user. Renaming a network to a name
  not on the lists moves its permissions: the new name has those of the old one, the old name none, and
  every other network is as before. Once enabling has failed, nobody may.\<close>

theorem exit_allow_exact:
  assumes "distinct (map fst entries)" "to \<notin> fst ` set entries \<or> to = from"
  shows "(es_allows network user (es_reload parse_id entries s) \<longleftrightarrow>
      (\<exists>l. (network, l) \<in> set entries \<and> (''*'' \<in> set l \<or> (\<exists>e \<in> set l. e \<noteq> ''*'' \<and> parse_id e = Some user)))) \<and>
    (es_allows network user (es_rename_network from to (es_reload parse_id entries s)) \<longleftrightarrow>
      (if network = to then es_allows from user (es_reload parse_id entries s)
       else network \<noteq> from \<and> es_allows network user (es_reload parse_id entries s))) \<and>
    (apply_os os s = (True, s') \<longrightarrow> \<not> es_allows network user s')"
proof (intro conjI impI)
  have "es_allows network user (es_reload parse_id entries s) \<longleftrightarrow>
      (\<exists>l. map_of entries network = Some l \<and> (''*'' \<in> set l \<or> (\<exists>e \<in> set l. e \<noteq> ''*'' \<and> parse_id e = Some user)))"
    using allow_entries(1) [of parse_id "\<lparr> ea_any = False, ea_users = {} \<rparr>"] allow_entries(2) [of user parse_id "\<lparr> ea_any = False, ea_users = {} \<rparr>"]
    by (auto simp: es_allows_def es_reload_def reload_nets_get [OF assms(1)] simp del: map_of_eq_Some_iff split: option.splits if_splits)
  then show "es_allows network user (es_reload parse_id entries s) \<longleftrightarrow>
      (\<exists>l. (network, l) \<in> set entries \<and> (''*'' \<in> set l \<or> (\<exists>e \<in> set l. e \<noteq> ''*'' \<and> parse_id e = Some user)))"
    using assms(1) by simp
  have "map_of entries to = None" if "to \<noteq> from" using assms(2) that by (auto simp: map_of_eq_None_iff)
  then have "reload_nets parse_id entries to = None" if "to \<noteq> from" using that by (simp add: reload_nets_get [OF assms(1)])
  then show "es_allows network user (es_rename_network from to (es_reload parse_id entries s)) \<longleftrightarrow>
      (if network = to then es_allows from user (es_reload parse_id entries s)
       else network \<noteq> from \<and> es_allows network user (es_reload parse_id entries s))"
    by (cases "to = from") (auto simp: es_allows_def es_rename_network_def es_reload_def split: option.splits)
  show "\<not> es_allows network user s'" if "apply_os os s = (True, s')" using apply_os_failure(1) [OF that] .
qed

theorem exit_allow_exact_witness:
  "let parse = (\<lambda>e. if e = ''u'' then Some 7 else None); s = es_reload parse [(''dev'', [''u'']), (''lab'', [''*''])] new_exit_server in
     es_allows ''dev'' 7 s \<and> \<not> es_allows ''dev'' 8 s \<and> es_allows ''lab'' 8 s \<and>
     es_allows ''home'' 7 (es_rename_network ''dev'' ''home'' s) \<and> \<not> es_allows ''home'' 8 (es_rename_network ''dev'' ''home'' s) \<and>
     \<not> es_allows ''dev'' 7 (es_rename_network ''dev'' ''home'' s) \<and> es_allows ''lab'' 8 (es_rename_network ''dev'' ''home'' s)"
proof -
  let ?parse = "\<lambda>e. if e = ''u'' then Some 7 else None" and ?l = "[(''dev'', [''u'']), (''lab'', [''*''])]"
  have ok: "distinct (map fst ?l)" "''home'' \<notin> fst ` set ?l \<or> ''home'' = ''dev''" by simp_all
  note e = exit_allow_exact [OF ok, of _ _ ?parse new_exit_server]
  show ?thesis
    unfolding Let_def
    using e [of "''dev''" 7] e [of "''dev''" 8] e [of "''lab''" 8] e [of "''home''" 7] e [of "''home''" 8]
    by (auto split: if_splits)
qed

text \<open>C40. Which IPv6 resolvers are asked under a tunnel that carries only IPv4: exactly those of a configured
  list that replaces the system's and holds no IPv4 resolver the tunnel can reach. Under a list that adds
  to the system's none is, mesh resolvers included, although those are reached over the overlay and not
  through the exit; the two public IPv4 resolvers are asked then.\<close>

theorem v4_tunnel_drops_mesh_resolver:
  shows "(V6 ip \<in> set (tunnel_upstreams parse_ip FamV4 conf) \<longleftrightarrow>
      so_replace conf \<and> \<not> is_own_resolver (V6 ip) \<and> (\<exists>s \<in> set (so_servers conf). parse_ip s = Some (V6 ip)) \<and>
      (\<forall>s \<in> set (so_servers conf). \<forall>a. parse_ip s = Some (V4 a) \<longrightarrow> is_own_resolver (V4 a) \<or> \<not> is_transitable (V4 a))) \<and>
    (\<not> so_replace conf \<longrightarrow>
      {V4 (v4_of_octets [1, 1, 1, 1]), V4 (v4_of_octets [8, 8, 8, 8])} \<subseteq> set (tunnel_upstreams parse_ip FamV4 conf))"
proof -
  define configured where "configured = filter (\<lambda>ip. \<not> is_own_resolver ip) (List.map_filter parse_ip (so_servers conf))"
  define servers where "servers = filter (carries FamV4) (filter (\<lambda>ip. is_overlay_ip ip \<or> is_transitable ip) configured)"
  have u: "tunnel_upstreams parse_ip FamV4 conf =
      (if so_replace conf \<and> configured \<noteq> [] then (if servers = [] then configured else servers)
       else servers @ [V4 (v4_of_octets [1, 1, 1, 1]), V4 (v4_of_octets [8, 8, 8, 8])])"
    by (simp add: tunnel_upstreams_def configured_def servers_def Let_def carries_v4_def public_fallback_dns_def)
  have c: "x \<in> set configured \<longleftrightarrow> \<not> is_own_resolver x \<and> (\<exists>s \<in> set (so_servers conf). parse_ip s = Some x)" for x
    by (auto simp: configured_def set_map_filter)
  have no: "V6 ip \<notin> set servers" by (simp add: servers_def carries_def carries_v6_def)
  have "servers = [] \<longleftrightarrow> (\<forall>a. V4 a \<in> set configured \<longrightarrow> \<not> is_transitable (V4 a))"
  proof
    show "\<forall>a. V4 a \<in> set configured \<longrightarrow> \<not> is_transitable (V4 a)" if "servers = []"
      using that by (auto simp: servers_def filter_empty_conv carries_def carries_v4_def)
    show "servers = []" if "\<forall>a. V4 a \<in> set configured \<longrightarrow> \<not> is_transitable (V4 a)"
      using that
      by (auto simp: servers_def filter_empty_conv carries_def carries_v6_def is_overlay_ip_def split: ip_addr.splits)
  qed
  with c have s: "servers = [] \<longleftrightarrow> (\<forall>s \<in> set (so_servers conf). \<forall>a. parse_ip s = Some (V4 a) \<longrightarrow>
      is_own_resolver (V4 a) \<or> \<not> is_transitable (V4 a))" by blast
  have "V6 ip \<in> set (tunnel_upstreams parse_ip FamV4 conf) \<longleftrightarrow> so_replace conf \<and> V6 ip \<in> set configured \<and> servers = []"
    using no by (auto simp: u)
  then show ?thesis unfolding c s by (auto simp: u)
qed

definition sample_mesh_resolver :: ipv6_addr where
  "sample_mesh_resolver = v6_of_octets [2, 0, 0, 0, 0, 0, 0, 0, 0, 0, 0, 0, 0, 0, 0, 7]"

theorem v4_tunnel_drops_mesh_resolver_witness:
  "let parse = (\<lambda>s. if s = ''200::7'' then Some (V6 sample_mesh_resolver) else None) in
     is_overlay_ip (V6 sample_mesh_resolver) \<and>
     V6 sample_mesh_resolver \<notin> set (tunnel_upstreams parse FamV4 \<lparr> so_servers = [''200::7''], so_replace = False \<rparr>) \<and>
     V4 (v4_of_octets [8, 8, 8, 8]) \<in> set (tunnel_upstreams parse FamV4 \<lparr> so_servers = [''200::7''], so_replace = False \<rparr>) \<and>
     V6 sample_mesh_resolver \<in> set (tunnel_upstreams parse FamV4 \<lparr> so_servers = [''200::7''], so_replace = True \<rparr>)"
proof -
  have "is_overlay_ip (V6 sample_mesh_resolver)" "\<not> is_own_resolver (V6 sample_mesh_resolver)"
    by (simp_all add: sample_mesh_resolver_def is_overlay_ip_def is_own_resolver_def magic_dns_v6_def v6_of_octets_def be_nat_def drop_bit_eq_div)
  then show ?thesis
    using v4_tunnel_drops_mesh_resolver [of sample_mesh_resolver "\<lambda>s. if s = ''200::7'' then Some (V6 sample_mesh_resolver) else None"]
    by (simp add: Let_def)
qed

text \<open>Otherwise the upstreams under a tunnel go where the tunnel goes: unless a replacement list left none,
  each is an overlay or transitable address of a family the tunnel carries, or a public fallback; and this
  node's own resolver is never among the configured ones.\<close>

lemma tunnel_upstreams_reachable:
  assumes "ip \<in> set (tunnel_upstreams parse_ip fams conf)"
  shows "(\<not> is_own_resolver ip \<and> (\<exists>s \<in> set (so_servers conf). parse_ip s = Some ip) \<and>
      (so_replace conf \<or> (is_overlay_ip ip \<or> is_transitable ip) \<and> carries fams ip)) \<or> ip \<in> set public_fallback_dns"
  using assms
  by (auto simp: tunnel_upstreams_def Let_def public_fallback_dns_def public_fallback_dns_v6_def set_map_filter
      split: if_splits)

end
