(* ===== verification/Ssh_Nat.thy ===== *)
theory Ssh_Nat
  imports Packet Ipv4_Rewrite
begin

text \<open>
  The userspace port translation of mesh SSH in \<open>src/src/forward.rs\<close>: the process-wide \<open>SSH_NAT\<close> cell
  (\<open>init_ssh_nat\<close>, \<open>set_ssh_nat_active\<close>, \<open>set_ssh_nat_port\<close>, \<open>ssh_port\<close>, \<open>ssh_nat\<close>), the rewrite of a TCP
  port with its checksum (\<open>rewrite_ssh_port\<close>) and the test for a fragmented SSH segment. The cell is an
  argument and a result of the operations on it.
\<close>

section \<open>Definitions\<close>

definition ssh_listen_port :: u16 where "ssh_listen_port = 30022"

definition default_mesh_port :: u16 where "default_mesh_port = 22"

record ssh_nat =
  sn_active :: bool
  sn_v6 :: ipv6_addr
  sn_listen_port :: u16
  sn_mesh_port :: u16

type_synonym ssh_cell = "ssh_nat option"

definition init_ssh_nat :: "ipv6_addr \<Rightarrow> u16 \<Rightarrow> ssh_cell \<Rightarrow> ssh_cell" where
  "init_ssh_nat ip listen cell =
     (case cell of
        Some sn \<Rightarrow> Some sn
      | None \<Rightarrow> Some \<lparr> sn_active = False, sn_v6 = ip, sn_listen_port = listen, sn_mesh_port = default_mesh_port \<rparr>)"

definition set_ssh_nat_active :: "bool \<Rightarrow> ssh_cell \<Rightarrow> ssh_cell" where
  "set_ssh_nat_active on cell = map_option (\<lambda>sn. sn \<lparr> sn_active := on \<rparr>) cell"

definition set_ssh_nat_port :: "u16 \<Rightarrow> ssh_cell \<Rightarrow> ssh_cell" where
  "set_ssh_nat_port p cell = map_option (\<lambda>sn. sn \<lparr> sn_mesh_port := p \<rparr>) cell"

definition ssh_port :: "ssh_cell \<Rightarrow> u16" where
  "ssh_port cell = (case cell of Some sn \<Rightarrow> sn_mesh_port sn | None \<Rightarrow> default_mesh_port)"

definition live_ssh_nat :: "ssh_cell \<Rightarrow> ssh_nat option" where
  "live_ssh_nat cell = (case cell of Some sn \<Rightarrow> if sn_active sn then Some sn else None | None \<Rightarrow> None)"

definition is_ours :: "ssh_nat \<Rightarrow> ip_addr \<Rightarrow> bool" where
  "is_ours sn ip = (case ip of V6 v \<Rightarrow> v = sn_v6 sn | V4 _ \<Rightarrow> False)"

datatype ssh_rewrite = Untouched | Rewritten | Truncated

definition put_port :: "bytes \<Rightarrow> nat \<Rightarrow> nat \<Rightarrow> u16 \<Rightarrow> u16 \<Rightarrow> bytes" where
  "put_port pkt ihl port_off old new =
     (let pkt = put pkt port_off (to_be16 new);
          ck_off = ihl + 16;
          old_ck = from_be16 [pkt ! ck_off, pkt ! (ck_off + 1)]
      in put pkt ck_off (to_be16 (csum_replace2 old_ck old new)))"

definition rewrite_ssh_port :: "bytes \<Rightarrow> packet_info \<Rightarrow> bool \<Rightarrow> ssh_cell \<Rightarrow> ssh_rewrite \<times> bytes" where
  "rewrite_ssh_port pkt info inbound cell =
     (case live_ssh_nat cell of
        None \<Rightarrow> (Untouched, pkt)
      | Some sn \<Rightarrow>
          if protocol info \<noteq> 6 then (Untouched, pkt)
          else let ihl = transport_offset info; mesh_port = sn_mesh_port sn in
            if (if inbound then \<not> is_ours sn (dst_ip info) \<or> dst_port info \<noteq> mesh_port
                else \<not> is_ours sn (src_ip info) \<or> src_port info \<noteq> sn_listen_port sn)
            then (Untouched, pkt)
            else let (port_off, old, new) = (if inbound then (ihl + 2, mesh_port, sn_listen_port sn)
                                             else (ihl, sn_listen_port sn, mesh_port)) in
              if length pkt < ihl + 18 then (Truncated, pkt)
              else (Rewritten, put_port pkt ihl port_off old new))"

definition is_ssh_fragment :: "packet_info \<Rightarrow> u16 \<Rightarrow> bool" where
  "is_ssh_fragment info mesh_port \<longleftrightarrow> protocol info = 6 \<and> dst_port info = mesh_port"

section \<open>The walk only reads in front of the transport header\<close>

lemma chain_loop_offset_ge: "chain_loop n p nxt off frag = Some c \<Longrightarrow> off \<le> ch_offset c"
proof (induction n p nxt off frag rule: chain_loop.induct)
  case (2 n p nxt off frag)
  show ?case
  proof (cases "chain_match p nxt off frag")
    case (Done r)
    with "2.prems" show ?thesis by (auto simp: chain_match_def split: if_splits option.splits)
  next
    case (Skip len frag')
    with "2.prems" obtain nxt' where "get p off = Some nxt'" "\<not> off + len \<ge> length p"
      "chain_loop n p nxt' (off + len) frag' = Some c"
      by (auto simp del: get_Some_iff split: option.splits if_splits)
    from "2.IH" [OF Skip this] show ?thesis by simp
  qed
qed simp

lemma chain_match_Skip_len: "chain_match p nxt off frag = Skip len frag' \<Longrightarrow> 8 \<le> len"
  by (auto simp: chain_match_def split: if_splits option.splits)

lemma get_range_cong:
  assumes "length p' = length p" "\<And>j. j < b \<Longrightarrow> p' ! j = p ! j"
  shows "get_range p' a b = get_range p a b"
  using assms by (auto simp: get_range_def slice_def intro!: nth_equalityI)

lemma get_cong: "length p' = length p \<Longrightarrow> p' ! j = p ! j \<Longrightarrow> get p' j = get p j"
  by (simp add: get_def)

lemma chain_match_cong:
  assumes "length p' = length p" "\<And>j. j < off + 8 \<Longrightarrow> p' ! j = p ! j"
  shows "chain_match p' nxt off frag = chain_match p nxt off frag"
  using assms get_range_cong [of p' p "off + 8" off] get_cong [of p' p "off + 1"]
  by (simp add: chain_match_def read_fragment_header_def)

lemma chain_match_Done_cong:
  assumes "chain_match p nxt off frag = Done (Some c)"
    and "length p' = length p" "\<And>j. j < ch_offset c \<Longrightarrow> p' ! j = p ! j"
  shows "chain_match p' nxt off frag = Done (Some c)"
proof (cases "nxt = ipv6_fragment_nh")
  case True
  with assms(1) have "ch_offset c = off + 8" by (auto simp: chain_match_def split: if_splits option.splits)
  with assms chain_match_cong [of p' p off] show ?thesis by simp
next
  case False
  with assms(1) show ?thesis by (auto simp: chain_match_def split: if_splits option.splits)
qed

lemma chain_loop_cong:
  assumes "chain_loop n p nxt off frag = Some c"
    and "length p' = length p" "\<And>j. j < ch_offset c \<Longrightarrow> p' ! j = p ! j"
  shows "chain_loop n p' nxt off frag = Some c"
  using assms
proof (induction n p nxt off frag rule: chain_loop.induct)
  case (2 n p nxt off frag)
  show ?case
  proof (cases "chain_match p nxt off frag")
    case (Done r)
    with "2.prems" chain_match_Done_cong [of p nxt off frag c p'] show ?thesis by simp
  next
    case (Skip len frag')
    with "2.prems"(1) obtain nxt' where nxt': "get p off = Some nxt'" and lt: "\<not> off + len \<ge> length p"
      and rest: "chain_loop n p nxt' (off + len) frag' = Some c"
      by (auto simp del: get_Some_iff split: option.splits if_splits)
    have "off + 8 \<le> ch_offset c" using chain_loop_offset_ge [OF rest] chain_match_Skip_len [OF Skip] by simp
    then have "chain_match p' nxt off frag = Skip len frag'" "get p' off = Some nxt'"
      using chain_match_cong [of p' p off nxt frag] get_cong [of p' p off] "2.prems"(2,3) Skip nxt' by (simp_all del: get_Some_iff)
    with "2.IH" [OF Skip nxt' lt rest "2.prems"(2,3)] lt "2.prems"(2) show ?thesis by (simp del: get_Some_iff)
  qed
qed simp

lemma walk_ipv6_chain_cong:
  assumes "walk_ipv6_chain p = Some c" "length p' = length p" "\<And>j. j < ch_offset c \<Longrightarrow> p' ! j = p ! j"
  shows "walk_ipv6_chain p' = Some c"
proof -
  have "40 \<le> ch_offset c" using assms(1) chain_loop_offset_ge unfolding walk_ipv6_chain_def by blast
  then have "p' ! 6 = p ! 6" using assms(3) by simp
  with chain_loop_cong [OF _ assms(2,3)] assms(1) show ?thesis by (simp add: walk_ipv6_chain_def)
qed

lemma v6_addrs_cong:
  assumes "length p' = length p" "\<And>j. j < 40 \<Longrightarrow> p' ! j = p ! j"
  shows "v6_src p' = v6_src p" "v6_dst p' = v6_dst p"
proof -
  have "slice p' a b = slice p a b" if "b \<le> 40" for a b
    using assms that by (auto simp: slice_def intro!: nth_equalityI)
  then show "v6_src p' = v6_src p" "v6_dst p' = v6_dst p" by (simp_all add: v6_src_def v6_dst_def)
qed

section \<open>A rewritten segment\<close>

lemma slice_two: "a + 2 \<le> length p \<Longrightarrow> slice p a (a + 2) = [p ! a, p ! (a + 1)]"
  by (intro nth_equalityI) (auto simp: wire_simps less_Suc_eq numeral_2_eq_2)

lemma put_port_bytes:
  assumes "off + 18 \<le> length p" "port_off = off \<or> port_off = off + 2"
  shows "length (put_port p off port_off old new) = length p"
    and "j < off \<Longrightarrow> put_port p off port_off old new ! j = p ! j"
    and "put_port p off port_off old new ! (off + 13) = p ! (off + 13)"
    and "slice (put_port p off port_off old new) port_off (port_off + 2) = to_be16 new"
    and "k = off \<or> k = off + 2 \<Longrightarrow> k \<noteq> port_off \<Longrightarrow>
      slice (put_port p off port_off old new) k (k + 2) = slice p k (k + 2)"
    and "put_port p off port_off old new ! (off + 12) = p ! (off + 12)"
proof -
  have "slice (put p port_off (to_be16 new)) port_off (port_off + 2) = to_be16 new"
    using slice_put_same [of port_off "to_be16 new" p] assms by auto
  moreover have "port_off + 2 \<le> off + 16" using assms(2) by auto
  ultimately show "slice (put_port p off port_off old new) port_off (port_off + 2) = to_be16 new"
    using assms(1) by (simp add: put_port_def Let_def wire_simps)
qed (use assms in \<open>auto simp: put_port_def Let_def wire_simps nth_put\<close>)

lemma put_port_info:
  assumes "off + 18 \<le> length p" "port_off = off \<or> port_off = off + 2"
  shows "mk_packet_info (put_port p off port_off old new) 6 off s d =
    (if port_off = off then (mk_packet_info p 6 off s d) \<lparr> src_port := new \<rparr>
     else (mk_packet_info p 6 off s d) \<lparr> dst_port := new \<rparr>)"
proof -
  let ?p = "put_port p off port_off old new"
  note b = put_port_bytes [OF assms, where ?old = old and ?new = new]
  have port: "read_port q 6 off k = from_be16 (slice q (off + k) (off + k + 2))" if "length q = length p" "k \<le> 2" for q k
    using that assms(1) by (simp add: read_port_def get_range_def)
  have "read_tcp_flags ?p 6 off = read_tcp_flags p 6 off"
    using b(1,3) assms(1) by (simp add: read_tcp_flags_def get_def)
  moreover have "read_icmp_type q 6 off = 0" "read_icmp_id q 6 off = 0" for q
    by (simp_all add: read_icmp_type_def read_icmp_id_def is_icmp_def is_icmp_echo_request_def is_icmp_echo_reply_def)
  moreover have "read_port ?p 6 off 0 = (if port_off = off then new else read_port p 6 off 0)"
    using port [OF b(1), of 0] port [of p 0] b(4) b(5) [of off] by (auto simp: codec_simps)
  moreover have "read_port ?p 6 off 2 = (if port_off = off then read_port p 6 off 2 else new)"
    using port [OF b(1), of 2] port [of p 2] b(4) b(5) [of "off + 2"] assms(2) by (auto simp: codec_simps)
  ultimately show ?thesis using assms(2) by (auto simp: mk_packet_info_def)
qed

lemma put_port_checksum:
  assumes "off + 18 \<le> length p" "port_off = off \<or> port_off = off + 2" "from_be16 (slice p port_off (port_off + 2)) = old"
    and "0 < A" "csum_ok (A + words_sum (drop off p))"
  shows "csum_ok (A + words_sum (drop off (put_port p off port_off old new)))"
proof -
  define k where "k = port_off - off"
  define t where "t = drop off p"
  have k: "port_off = off + k" "k = 0 \<or> k = 2" using assms(2) by (auto simp: k_def)
  have t: "18 \<le> length t" using assms(1) by (simp add: t_def)
  have old: "from_be16 (slice t k (k + 2)) = old" using assms(3) by (simp add: k t_def slice_def add.commute)
  let ?q = "put t k (to_be16 new)" and ?c = "from_be16 (slice t 16 18)"
  let ?n = "csum_replace2 ?c old new"
  have p: "p = take off p @ t" "length (take off p) = off" using assms(1) by (simp_all add: t_def)
  have "put_port (take off p @ t) off port_off old new = take off p @ put ?q 16 (to_be16 ?n)"
  proof -
    have c: "from_be16 [?q ! 16, ?q ! 17] = ?c"
      using t k(2) slice_two [of 16 t] by (auto simp: nth_put)
    show ?thesis
      using p(2) t k c by (auto simp: put_port_def Let_def put_append_right nth_append)
  qed
  then have d: "drop off (put_port p off port_off old new) = put ?q 16 (to_be16 ?n)" using p by simp
  have w1: "words_sum ?q + unat old = words_sum t + unat new" using words_sum_put [of k t new] t k(2) old by auto
  have "slice ?q 16 18 = slice t 16 18" using t k(2) by (auto simp: wire_simps)
  then have w2: "words_sum (put ?q 16 (to_be16 ?n)) + unat ?c = words_sum ?q + unat ?n"
    using words_sum_put [of 16 ?q ?n] t k(2) by (auto simp: wire_simps)
  let ?z = "put (put t k (to_be16 0)) 16 (to_be16 0)"
  have w3: "words_sum ?z + unat old + unat ?c = words_sum t"
    using words_sum_put [of k t 0] words_sum_put [of 16 "put t k (to_be16 0)" 0] t k(2) old by (auto simp: wire_simps)
  have "csum_ok (A + words_sum ?z + unat old + unat ?c)" using assms(5) w3 by (simp add: t_def ac_simps)
  then have "csum_ok (A + words_sum ?z + unat new + unat ?n)" using assms(4) by (intro csum_replace2_ok) simp_all
  moreover have "A + words_sum ?z + unat new + unat ?n = A + words_sum (put ?q 16 (to_be16 ?n))" using w1 w2 w3 by simp
  ultimately show ?thesis by (simp add: d)
qed

lemma rewrite_ssh_port_RewrittenD:
  assumes "rewrite_ssh_port p i inbound cell = (Rewritten, p')"
  obtains sn where "live_ssh_nat cell = Some sn" "protocol i = 6" "transport_offset i + 18 \<le> length p"
    and "inbound \<longrightarrow> dst_ip i = V6 (sn_v6 sn) \<and> dst_port i = sn_mesh_port sn"
    and "\<not> inbound \<longrightarrow> src_ip i = V6 (sn_v6 sn) \<and> src_port i = sn_listen_port sn"
    and "p' = (if inbound then put_port p (transport_offset i) (transport_offset i + 2) (sn_mesh_port sn) (sn_listen_port sn)
               else put_port p (transport_offset i) (transport_offset i) (sn_listen_port sn) (sn_mesh_port sn))"
  using assms
  by (auto simp: rewrite_ssh_port_def Let_def is_ours_def not_less split: option.splits if_splits ip_addr.splits)

lemma rewrite_ssh_port_unchanged: "rewrite_ssh_port p i inbound cell = (r, p') \<Longrightarrow> r \<noteq> Rewritten \<Longrightarrow> p' = p"
  by (auto simp: rewrite_ssh_port_def Let_def split: option.splits if_splits)

lemma rewrite_ssh_port_hits:
  assumes "live_ssh_nat cell = Some sn" "protocol i = 6" "dst_ip i = V6 (sn_v6 sn)" "dst_port i = sn_mesh_port sn"
  shows "fst (rewrite_ssh_port p i True cell) \<noteq> Untouched"
  using assms by (simp add: rewrite_ssh_port_def Let_def is_ours_def)

lemma parse_ipv6_put_port:
  assumes "parse_ipv6 p = Some i" "protocol i = 6" "transport_offset i + 18 \<le> length p"
    and "port_off = transport_offset i \<or> port_off = transport_offset i + 2"
  shows "parse_ipv6 (put_port p (transport_offset i) port_off old new) =
    Some (if port_off = transport_offset i then i \<lparr> src_port := new \<rparr> else i \<lparr> dst_port := new \<rparr>)"
proof -
  let ?off = "transport_offset i"
  let ?p = "put_port p ?off port_off old new"
  note d = parse_ipv6_SomeD [OF assms(1)] and b = put_port_bytes [OF assms(3,4), where ?old = old and ?new = new]
  have i: "i = mk_packet_info p 6 ?off (V6 (v6_src p)) (V6 (v6_dst p))" using d assms(2) by metis
  have "ipv6_upper_layer p = Some (6, ?off)" using d assms(2) by simp
  then obtain c where c: "walk_ipv6_chain p = Some c" "ch_fragment c = None" "ch_protocol c = 6" "ch_offset c = ?off"
    by (auto simp: ipv6_upper_layer_def split: option.splits if_splits)
  have "walk_ipv6_chain ?p = Some c" using walk_ipv6_chain_cong [OF c(1) b(1)] b(2) c(4) by simp
  then have "ipv6_upper_layer ?p = Some (6, ?off)" using c by (simp add: ipv6_upper_layer_def)
  moreover have "v6_src ?p = v6_src p" "v6_dst ?p = v6_dst p"
    using v6_addrs_cong [OF b(1)] b(2) d by simp_all
  ultimately have "parse_ipv6 ?p = Some (mk_packet_info ?p 6 ?off (V6 (v6_src p)) (V6 (v6_dst p)))"
    using d assms(3) b(1) by (simp add: parse_ipv6_def)
  with put_port_info [OF assms(3,4), of old new "V6 (v6_src p)" "V6 (v6_dst p)"] i show ?thesis by simp
qed

lemma ssh_rewrite_parse:
  assumes parse: "parse_packet_info p = Some i" and rw: "rewrite_ssh_port p i inbound cell = (Rewritten, p')"
  shows "\<exists>sn. live_ssh_nat cell = Some sn \<and>
    parse_packet_info p' = Some (if inbound then i \<lparr> dst_port := sn_listen_port sn \<rparr> else i \<lparr> src_port := sn_mesh_port sn \<rparr>)"
    and "length p' = length p" and "j < transport_offset i \<Longrightarrow> p' ! j = p ! j"
    and "0 < A \<Longrightarrow> csum_ok (A + words_sum (drop (transport_offset i) p)) \<Longrightarrow> csum_ok (A + words_sum (drop (transport_offset i) p'))"
proof -
  let ?off = "transport_offset i"
  from rw obtain sn where sn: "live_ssh_nat cell = Some sn" "protocol i = 6" and len: "?off + 18 \<le> length p"
    and ours: "inbound \<longrightarrow> dst_ip i = V6 (sn_v6 sn) \<and> dst_port i = sn_mesh_port sn"
      "\<not> inbound \<longrightarrow> src_ip i = V6 (sn_v6 sn) \<and> src_port i = sn_listen_port sn"
    and p': "p' = (if inbound then put_port p ?off (?off + 2) (sn_mesh_port sn) (sn_listen_port sn)
               else put_port p ?off ?off (sn_listen_port sn) (sn_mesh_port sn))"
    by (rule rewrite_ssh_port_RewrittenD)
  have v6: "p \<noteq> []" "drop_bit 4 (p ! 0) = 6" "parse_ipv6 p = Some i"
    using parse ours by (cases rule: parse_packet_info_cases; cases inbound; force dest: parse_ipv4_SomeD)+
  have at: "0 < ?off" using parse_ipv6_SomeD [OF v6(3)] by simp
  note b = put_port_bytes [OF len]
  show "length p' = length p" using b(1) by (auto simp: p')
  show same: "p' ! j = p ! j" if "j < ?off" for j using b(2) [OF _ that] by (auto simp: p')
  have "p' ! 0 = p ! 0" using same at by blast
  then show "\<exists>sn. live_ssh_nat cell = Some sn \<and>
      parse_packet_info p' = Some (if inbound then i \<lparr> dst_port := sn_listen_port sn \<rparr> else i \<lparr> src_port := sn_mesh_port sn \<rparr>)"
    using sn(1) v6(1,2) \<open>length p' = length p\<close> parse_ipv6_put_port [OF v6(3) sn(2) len]
    by (auto simp: parse_packet_info_def get_def p')
  have port: "from_be16 (slice p (?off + k) (?off + k + 2)) = read_port p 6 ?off k" if "k \<le> 2" for k
    using that len by (simp add: read_port_def get_range_def)
  have "i = mk_packet_info p 6 ?off (V6 (v6_src p)) (V6 (v6_dst p))" using parse_ipv6_SomeD [OF v6(3)] sn(2) by metis
  then have "read_port p 6 ?off 0 = src_port i" "read_port p 6 ?off 2 = dst_port i" by (metis mk_packet_info_sel(4,5))+
  then show "csum_ok (A + words_sum (drop ?off p'))" if "0 < A" "csum_ok (A + words_sum (drop ?off p))"
    using put_port_checksum [OF len _ _ that] port [of 0] port [of 2] ours by (auto simp: p')
qed

text \<open>C17. The SSH translation shows a peer one port and the server another, and nothing else: a
  rewritten packet still classifies, with only the destination port (inbound) or the source port
  (outbound) replaced, keeps its length and every byte in front of the TCP header, and a valid TCP
  checksum stays valid whatever the pseudo-header sums to; and while the translation is on no packet to
  the mesh port of this node passes unrewritten.\<close>

theorem ssh_rewrite_correct:
  assumes "parse_packet_info p = Some i" and "live_ssh_nat cell = Some sn"
  shows "(rewrite_ssh_port p i inbound cell = (Rewritten, p') \<longrightarrow>
      parse_packet_info p' = Some (if inbound then i \<lparr> dst_port := sn_listen_port sn \<rparr> else i \<lparr> src_port := sn_mesh_port sn \<rparr>) \<and>
      length p' = length p \<and> (\<forall>j < transport_offset i. p' ! j = p ! j) \<and>
      (\<forall>A > 0. csum_ok (A + words_sum (drop (transport_offset i) p)) \<longrightarrow>
        csum_ok (A + words_sum (drop (transport_offset i) p')))) \<and>
    (protocol i = 6 \<and> dst_ip i = V6 (sn_v6 sn) \<and> dst_port i = sn_mesh_port sn \<longrightarrow>
      fst (rewrite_ssh_port p i True cell) \<noteq> Untouched)"
proof (intro conjI impI)
  assume rw: "rewrite_ssh_port p i inbound cell = (Rewritten, p')"
  note r = ssh_rewrite_parse [OF assms(1) rw]
  show "parse_packet_info p' = Some (if inbound then i \<lparr> dst_port := sn_listen_port sn \<rparr> else i \<lparr> src_port := sn_mesh_port sn \<rparr>)"
    using r(1) assms(2) by auto
  show "length p' = length p" "\<forall>j < transport_offset i. p' ! j = p ! j"
    "\<forall>A > 0. csum_ok (A + words_sum (drop (transport_offset i) p)) \<longrightarrow> csum_ok (A + words_sum (drop (transport_offset i) p'))"
    using r(2-4) by blast+
qed (use rewrite_ssh_port_hits [OF assms(2)] in blast)

definition sample_ssh :: bytes where
  "sample_ssh = [0x60, 0, 0, 0, 0, 20, 6, 64,
     0, 0, 0, 0, 0, 0, 0, 0, 0, 0, 0, 0, 0, 0, 0, 2,
     0, 0, 0, 0, 0, 0, 0, 0, 0, 0, 0, 0, 0, 0, 0, 1,
     0x9c, 0x40, 0, 22, 0, 0, 0, 0, 0, 0, 0, 0, 0x50, 2, 0, 0, 0, 0, 0, 0]"

definition sample_ssh_info :: packet_info where
  "sample_ssh_info = \<lparr> src_ip = V6 2, dst_ip = V6 1, protocol = 6, src_port = 40000, dst_port = 22, tcp_flags = 2,
     icmp_type = 0, icmp_id = 0, transport_offset = 40 \<rparr>"

lemma parse_sample_ssh: "parse_packet_info sample_ssh = Some sample_ssh_info"
  by (simp add: sample_ssh_def sample_ssh_info_def parse_packet_info_def parse_ipv6_def ipv6_upper_layer_def walk_ipv6_chain_def
      max_headers_def chain_loop_numeral chain_match_def get_def ipv6_fragment_nh_def ipv6_ah_def ipv6_tlv_ext_headers_def
      mk_packet_info_def read_port_def read_tcp_flags_def read_icmp_type_def read_icmp_id_def get_range_def slice_def
      v6_src_def v6_dst_def v6_of_octets_def from_be16_def be_nat_def is_icmp_def is_icmp_echo_request_def is_icmp_echo_reply_def)

theorem ssh_rewrite_correct_witness:
  "\<exists>p'. rewrite_ssh_port sample_ssh sample_ssh_info True (set_ssh_nat_active True (init_ssh_nat 1 ssh_listen_port None)) = (Rewritten, p') \<and>
    parse_packet_info p' = Some (sample_ssh_info \<lparr> dst_port := 30022 \<rparr>)"
proof -
  let ?cell = "set_ssh_nat_active True (init_ssh_nat 1 ssh_listen_port None)"
  have c: "live_ssh_nat ?cell = Some \<lparr> sn_active = True, sn_v6 = 1, sn_listen_port = 30022, sn_mesh_port = 22 \<rparr>"
    by (simp add: live_ssh_nat_def set_ssh_nat_active_def init_ssh_nat_def ssh_listen_port_def default_mesh_port_def)
  have "\<exists>p'. rewrite_ssh_port sample_ssh sample_ssh_info True ?cell = (Rewritten, p')"
    by (simp add: rewrite_ssh_port_def c sample_ssh_info_def is_ours_def Let_def sample_ssh_def)
  with ssh_rewrite_correct [OF parse_sample_ssh c, of True] show ?thesis by auto
qed

end
