(* ===== verification/Inbound.thy ===== *)
theory Inbound
  imports Firewall_Trace Reject Fragment Frag_Verdicts Peer_Table Exit_Node Ssh_Nat
begin

text \<open>
  The receiving half of the data path in \<open>src/src/forward.rs\<close>: the verdict on a packet from a peer
  (\<open>evaluate_inbound\<close>) and the work of \<open>spawn_peer_reader\<close> on one datagram, on a batch of them and on the
  reassembly timer. What the tasks of the process share (peer table, firewall, exit state, device map, SSH
  cell, counters of \<open>src/src/stats.rs\<close>, the fragment id) is one record passed through; the reassembler and
  the fragment verdicts belong to the reader. Clocks, the path's datagram limit and whether the lease file
  could be written are arguments; what the reader hands to the TUN writer or back to the peer is its output.
\<close>

section \<open>Definitions\<close>

subsection \<open>Counters\<close>

record forward_metrics =
  fm_packets_rx :: nat
  fm_bytes_rx :: nat
  fm_packets_tx :: nat
  fm_bytes_tx :: nat
  fm_drops :: "drop_reason \<Rightarrow> nat"
  fm_rejects_sent :: nat

definition record_rx :: "nat \<Rightarrow> forward_metrics \<Rightarrow> forward_metrics" where
  "record_rx n m = m \<lparr> fm_packets_rx := fm_packets_rx m + 1, fm_bytes_rx := fm_bytes_rx m + n \<rparr>"

definition record_tx :: "nat \<Rightarrow> forward_metrics \<Rightarrow> forward_metrics" where
  "record_tx n m = m \<lparr> fm_packets_tx := fm_packets_tx m + 1, fm_bytes_tx := fm_bytes_tx m + n \<rparr>"

definition record_drop :: "drop_reason \<Rightarrow> forward_metrics \<Rightarrow> forward_metrics" where
  "record_drop r m = m \<lparr> fm_drops := (fm_drops m)(r := fm_drops m r + 1) \<rparr>"

definition record_reject :: "forward_metrics \<Rightarrow> forward_metrics" where
  "record_reject m = m \<lparr> fm_rejects_sent := fm_rejects_sent m + 1 \<rparr>"

definition no_metrics :: forward_metrics where
  "no_metrics = \<lparr> fm_packets_rx = 0, fm_bytes_rx = 0, fm_packets_tx = 0, fm_bytes_tx = 0, fm_drops = \<lambda>_. 0, fm_rejects_sent = 0 \<rparr>"

subsection \<open>The verdict on an inbound packet\<close>

datatype inbound_decision =
    InAccept packet_info
  | DropFirewall packet_info
  | DropMalformed
  | DropFragment
  | DropSpoof
  | DropExit

record inbound_peer =
  in_identity :: endpoint_id
  in_ipv6 :: ipv6_addr
  in_network :: string
  in_shares :: "string \<Rightarrow> bool"

definition delivered_info :: "packet_info \<Rightarrow> packet_info" where
  "delivered_info info =
     (if dst_ip info = V4 wire_client_addr then info \<lparr> dst_ip := V4 local_client_addr \<rparr> else info)"

definition classify_inbound :: "bytes \<Rightarrow> (packet_info \<times> ipv6_fragment option) option" where
  "classify_inbound packet =
     (case parse_packet_info packet of
        Some info \<Rightarrow> Some (info, None)
      | None \<Rightarrow> (case parse_ipv6_fragment packet of Some f \<Rightarrow> Some (if_info f, Some f) | None \<Rightarrow> None))"

definition src_ok :: "ipv6_addr \<Rightarrow> packet_info \<Rightarrow> bool" where
  "src_ok peer_ipv6 info \<longleftrightarrow>
     src_ip info = V6 peer_ipv6 \<or> (src_ip info = V4 wire_client_addr \<and> is_transitable (dst_ip info))"

definition dst_is_me :: "exit_context \<Rightarrow> packet_info \<Rightarrow> bool" where
  "dst_is_me exit info \<longleftrightarrow>
     dst_ip info = V6 (xc_my_v6 exit) \<or>
     (dst_ip info = V4 wire_client_addr \<and> (case xc_client exit of Some s \<Rightarrow> carries_v4 (x_carries s) | None \<Rightarrow> False))"

definition exit_return :: "exit_context \<Rightarrow> inbound_peer \<Rightarrow> packet_info \<Rightarrow> bool" where
  "exit_return exit peer info \<longleftrightarrow>
     is_return_from (in_identity peer) (in_ipv6 peer) (xc_client exit) \<and> is_transitable (src_ip info) \<and> dst_is_me exit info"

definition transit_permitted :: "exit_context \<Rightarrow> inbound_peer \<Rightarrow> packet_info \<Rightarrow> bool" where
  "transit_permitted exit peer info \<longleftrightarrow>
     es_allows (in_network peer) (in_identity peer) (xc_server exit) \<and> is_transitable (dst_ip info) \<and>
     \<not> is_on_link (dst_ip info) (xc_server exit) \<and> \<not> is_self_addr (dst_ip info) (xc_server exit)"

definition firewall_admits ::
    "instant \<Rightarrow> bool \<Rightarrow> inbound_peer \<Rightarrow> packet_info \<Rightarrow> shared_firewall \<Rightarrow> bool \<times> shared_firewall" where
  "firewall_admits now returning peer info fw =
     (if returning then admits_reply (delivered_info info) now fw
      else let (a, fw) = evaluate_packet In info (in_identity peer) (in_shares peer) now fw in (\<not> is_deny a, fw))"

definition evaluate_inbound ::
    "instant \<Rightarrow> ssh_cell \<Rightarrow> exit_context \<Rightarrow> inbound_peer \<Rightarrow> bytes \<Rightarrow> shared_firewall \<Rightarrow> fragment_verdicts \<Rightarrow>
     inbound_decision \<times> shared_firewall \<times> fragment_verdicts" where
  "evaluate_inbound now cell exit peer packet fw fragments =
     (if length packet > max_packet then (DropMalformed, fw, fragments)
      else case classify_inbound packet of
          None \<Rightarrow> (DropMalformed, fw, fragments)
        | Some (info, ip_fragment) \<Rightarrow>
            let returning = (\<not> src_ok (in_ipv6 peer) info \<and> exit_return exit peer info) in
            if \<not> src_ok (in_ipv6 peer) info \<and> \<not> returning then (DropSpoof, fw, fragments)
            else if \<not> returning \<and> \<not> is_overlay_ip (dst_ip info)
            then (if transit_permitted exit peer info then InAccept info else DropExit, fw, fragments)
            else case ip_fragment of
                Some f \<Rightarrow>
                  if \<not> if_first f then
                    let (ok, fragments) = fv_admits (if_key f) now fragments
                    in (if ok then InAccept info else DropFragment, fw, fragments)
                  else if is_ssh_fragment (if_info f) (ssh_port cell) then (DropFragment, fw, fragments)
                  else let (admitted, fw) = firewall_admits now returning peer info fw in
                    if \<not> admitted then (DropFirewall info, fw, fragments)
                    else (InAccept info, fw, fv_allow (if_key f) now fragments)
              | None \<Rightarrow>
                  let (admitted, fw) = firewall_admits now returning peer info fw in
                  if \<not> admitted then (DropFirewall info, fw, fragments) else (InAccept info, fw, fragments))"

subsection \<open>The reader\<close>

record data_plane =
  dp_active :: bool
  dp_peers :: peer_table
  dp_firewall :: shared_firewall
  dp_exit :: exit_context
  dp_users :: device_user_map
  dp_ssh :: ssh_cell
  dp_metrics :: forward_metrics
  dp_next_id :: u64

record reader =
  rd_peer_id :: endpoint_id
  rd_ipv6 :: ipv6_addr
  rd_conn :: conn
  rd_legacy :: bool
  rd_reassembly :: reassembler
  rd_fragments :: fragment_verdicts

text \<open>What the host answers while a datagram is handled: the clocks, the connection's datagram limit and
  whether a lease file could be written.\<close>

record path_io =
  io_now :: instant
  io_secs :: nat
  io_max :: "nat option"
  io_saved :: bool

text \<open>What the tasks of the data path hand on: packets to the TUN writer, datagrams to a connection or to its
  fair-queueing sender, a dial to start and a query for the resolver.\<close>

datatype path_out =
    ToTun bytes
  | ToPeer conn "bytes list"
  | ToScheduler conn packet_info u16 encoded nat
  | StartDial endpoint_id
  | AskResolver bytes packet_info

definition max_peer_datagram :: nat where "max_peer_datagram = max_packet + tag_len"

definition new_reader :: "(bytes \<Rightarrow> bytes) \<Rightarrow> conn \<Rightarrow> endpoint_id \<Rightarrow> bool \<Rightarrow> nat \<Rightarrow> reader" where
  "new_reader blake3 c peer_id legacy permits =
     \<lparr> rd_peer_id = peer_id, rd_ipv6 = derive_ipv6 blake3 peer_id, rd_conn = c, rd_legacy = legacy,
       rd_reassembly = \<lparr> pending = [], budget = permits, evicted = 0 \<rparr>, rd_fragments = no_verdicts \<rparr>"

definition count_drop :: "drop_reason \<Rightarrow> data_plane \<Rightarrow> data_plane" where
  "count_drop r dp = dp \<lparr> dp_metrics := record_drop r (dp_metrics dp) \<rparr>"

definition send_peer_reply :: "path_io \<Rightarrow> conn \<Rightarrow> u16 \<Rightarrow> bytes \<Rightarrow> data_plane \<Rightarrow> path_out list \<times> data_plane" where
  "send_peer_reply io c h reply dp =
     (case io_max io of
        None \<Rightarrow> ([], dp)
      | Some mx \<Rightarrow>
          let (e, next_id) = encode (dp_next_id dp) h reply mx; dp = dp \<lparr> dp_next_id := next_id \<rparr>
          in (case e of Some e \<Rightarrow> [ToPeer c (datagrams e)] | None \<Rightarrow> [], dp))"

text \<open>The translation of an accepted IPv4 packet on its way out of a gateway.\<close>

definition exit_translate :: "path_io \<Rightarrow> reader \<Rightarrow> string \<Rightarrow> packet_info \<Rightarrow> bytes \<Rightarrow> data_plane \<Rightarrow> bytes option \<times> data_plane" where
  "exit_translate io rd network info datagram dp =
     (if (case dst_ip info of V4 _ \<Rightarrow> True | V6 _ \<Rightarrow> False) \<and> is_transitable (dst_ip info) then
        let server = xc_server (dp_exit dp) in
        if \<not> offers_v4 server then (None, count_drop ExitDenied dp)
        else let (r, n) = nat_outbound (io_secs io) (io_saved io) datagram (rd_ipv6 rd) network (es_ipv4 server);
                 dp = dp \<lparr> dp_exit := (dp_exit dp) \<lparr> xc_server := server \<lparr> es_ipv4 := n \<rparr> \<rparr> \<rparr>
          in case r of Inr p \<Rightarrow> (Some p, dp) | Inl _ \<Rightarrow> (None, count_drop ExitDenied dp)
      else (Some datagram, dp))"

definition deliver_ssh :: "packet_info \<Rightarrow> bytes \<Rightarrow> data_plane \<Rightarrow> path_out list \<times> data_plane" where
  "deliver_ssh info datagram dp =
     (case live_ssh_nat (dp_ssh dp) of
        Some s \<Rightarrow>
          if protocol info = 6 \<and> dst_port info = sn_mesh_port s then
            let (r, v) = rewrite_ssh_port datagram info True (dp_ssh dp)
            in if r = Truncated then ([], count_drop Malformed dp) else ([ToTun v], dp)
          else ([ToTun datagram], dp)
      | None \<Rightarrow> ([ToTun datagram], dp))"

definition deliver_inbound :: "path_io \<Rightarrow> reader \<Rightarrow> string \<Rightarrow> packet_info \<Rightarrow> bytes \<Rightarrow> data_plane \<Rightarrow> path_out list \<times> data_plane" where
  "deliver_inbound io rd network info datagram dp =
     (let mtu = pt_local_mtu (dp_peers dp) in
      if length datagram > unat mtu then
        let dp = count_drop PacketTooBig dp in
        case (build_packet_too_big datagram info mtu, out_handle (rd_ipv6 rd) network (dp_peers dp)) of
            (Some reply, Some h) \<Rightarrow> send_peer_reply io (rd_conn rd) h reply dp
          | _ \<Rightarrow> ([], dp)
      else case exit_translate io rd network info datagram dp of
          (None, dp) \<Rightarrow> ([], dp)
        | (Some datagram, dp) \<Rightarrow>
            (case (if dst_ip info = V4 wire_client_addr then client_from_wire datagram else Some datagram) of
               None \<Rightarrow> ([], count_drop Malformed dp)
             | Some datagram \<Rightarrow>
                 deliver_ssh info datagram (dp \<lparr> dp_metrics := record_rx (length datagram) (dp_metrics dp) \<rparr>)))"

definition reject_inbound :: "path_io \<Rightarrow> reader \<Rightarrow> string \<Rightarrow> packet_info \<Rightarrow> bytes \<Rightarrow> data_plane \<Rightarrow> path_out list \<times> data_plane" where
  "reject_inbound io rd network info datagram dp =
     (let dp = count_drop FirewallDrop dp in
      case (if cfg_rejects_denied (ssh_port (dp_ssh dp)) (inner (dp_firewall dp)) info then build_reject datagram info else None) of
          None \<Rightarrow> ([], dp)
        | Some reply \<Rightarrow>
            let dp = dp \<lparr> dp_metrics := record_reject (dp_metrics dp) \<rparr> in
            (case out_handle (rd_ipv6 rd) network (dp_peers dp) of
               Some h \<Rightarrow> send_peer_reply io (rd_conn rd) h reply dp
             | None \<Rightarrow> ([], dp)))"

definition judge_inbound :: "path_io \<Rightarrow> string \<Rightarrow> bytes \<Rightarrow> reader \<Rightarrow> data_plane \<Rightarrow> path_out list \<times> reader \<times> data_plane" where
  "judge_inbound io network datagram rd dp =
     (let peer = \<lparr> in_identity = du_resolve (dp_users dp) (rd_peer_id rd), in_ipv6 = rd_ipv6 rd, in_network = network,
                   in_shares = (\<lambda>name. shares_network_v6 (rd_ipv6 rd) name (dp_peers dp)) \<rparr>;
          (d, fw, fv) = evaluate_inbound (io_now io) (dp_ssh dp) (dp_exit dp) peer datagram (dp_firewall dp) (rd_fragments rd);
          rd = rd \<lparr> rd_fragments := fv \<rparr>;
          dp = dp \<lparr> dp_firewall := fw \<rparr>;
          (out, dp) = (case d of
              InAccept info \<Rightarrow> deliver_inbound io rd network info datagram dp
            | DropFirewall info \<Rightarrow> reject_inbound io rd network info datagram dp
            | DropMalformed \<Rightarrow> ([], count_drop Malformed dp)
            | DropFragment \<Rightarrow> ([], count_drop FirewallDrop dp)
            | DropSpoof \<Rightarrow> ([], count_drop Spoof dp)
            | DropExit \<Rightarrow> ([], count_drop ExitDenied dp))
      in (out, rd, dp))"

definition read_datagram :: "path_io \<Rightarrow> bytes \<Rightarrow> reader \<Rightarrow> data_plane \<Rightarrow> path_out list \<times> reader \<times> data_plane" where
  "read_datagram io datagram rd dp =
     (if length datagram > max_peer_datagram \<or> (rd_legacy rd \<and> get datagram tag_len = Some 0) then ([], rd, count_drop Malformed dp)
      else case untag_datagram datagram of
          None \<Rightarrow> ([], rd, count_drop Malformed dp)
        | Some (h, _) \<Rightarrow>
            (case resolve_inbound (io_now io) (rd_ipv6 rd) (rd_conn rd) h (dp_peers dp) of
               (None, _) \<Rightarrow> ([], rd, count_drop Spoof dp)
             | (Some network, t) \<Rightarrow>
                 let dp = dp \<lparr> dp_peers := t \<rparr>;
                     (r, reassembly) = accept datagram (io_now io) (rd_reassembly rd);
                     rd = rd \<lparr> rd_reassembly := reassembly \<rparr>
                 in case r of
                      Inl reason \<Rightarrow> ([], rd, count_drop reason dp)
                    | Inr None \<Rightarrow> ([], rd, dp)
                    | Inr (Some packet) \<Rightarrow> judge_inbound io network packet rd dp))"

fun read_all :: "(path_io \<times> bytes) list \<Rightarrow> reader \<Rightarrow> data_plane \<Rightarrow> path_out list \<times> reader \<times> data_plane" where
  "read_all [] rd dp = ([], rd, dp)"
| "read_all ((io, d) # ds) rd dp =
     (let (out, rd, dp) = read_datagram io d rd dp; (rest, rd, dp) = read_all ds rd dp in (out @ rest, rd, dp))"

definition count_drops :: "nat \<Rightarrow> drop_reason \<Rightarrow> data_plane \<Rightarrow> data_plane" where
  "count_drops n r dp = (count_drop r ^^ n) dp"

definition read_batch :: "(path_io \<times> bytes) list \<Rightarrow> reader \<Rightarrow> data_plane \<Rightarrow> path_out list \<times> reader \<times> data_plane" where
  "read_batch ds rd dp =
     (let (out, rd, dp) = read_all ds rd dp; (n, reassembly) = take_evicted (rd_reassembly rd)
      in (out, rd \<lparr> rd_reassembly := reassembly \<rparr>, count_drops n ReassemblyLimit dp))"

definition reader_timer :: "instant \<Rightarrow> reader \<Rightarrow> data_plane \<Rightarrow> reader \<times> data_plane" where
  "reader_timer now rd dp =
     (let (n, reassembly) = expire now (rd_reassembly rd)
      in (rd \<lparr> rd_reassembly := reassembly \<rparr>, count_drops n ReassemblyTimeout dp))"

section \<open>What an accepted packet is\<close>

lemma classify_inbound_cases [consumes 1, case_names whole fragment]:
  assumes "classify_inbound p = Some (info, fr)"
  obtains "parse_packet_info p = Some info" "fr = None"
  | f where "parse_packet_info p = None" "parse_ipv6_fragment p = Some f" "info = if_info f" "fr = Some f"
  using assms by (auto simp: classify_inbound_def split: option.splits)

lemma evaluate_inbound_accept_cases:
  assumes "evaluate_inbound now cell exit peer packet fw fv = (InAccept info, fw', fv')"
  obtains (transit) fr where "classify_inbound packet = Some (info, fr)" "length packet \<le> max_packet" "src_ok (in_ipv6 peer) info"
      "\<not> is_overlay_ip (dst_ip info)" "transit_permitted exit peer info" "fw' = fw" "fv' = fv"
  | (later) f where "classify_inbound packet = Some (info, Some f)" "length packet \<le> max_packet" "\<not> if_first f"
      "src_ok (in_ipv6 peer) info \<and> is_overlay_ip (dst_ip info) \<or> \<not> src_ok (in_ipv6 peer) info \<and> exit_return exit peer info"
      "fv_admits (if_key f) now fv = (True, fv')" "fw' = fw"
  | (judged) fr ret where "classify_inbound packet = Some (info, fr)" "length packet \<le> max_packet"
      "\<And>f. fr = Some f \<Longrightarrow> if_first f \<and> \<not> is_ssh_fragment (if_info f) (ssh_port cell)"
      "ret \<longrightarrow> \<not> src_ok (in_ipv6 peer) info \<and> exit_return exit peer info"
      "\<not> ret \<longrightarrow> src_ok (in_ipv6 peer) info \<and> is_overlay_ip (dst_ip info)"
      "firewall_admits now ret peer info fw = (True, fw')"
      "fv' = (case fr of Some f \<Rightarrow> fv_allow (if_key f) now fv | None \<Rightarrow> fv)"
proof -
  let ?ret = "\<not> src_ok (in_ipv6 peer) info \<and> exit_return exit peer info"
  obtain fr where c: "classify_inbound packet = Some (info, fr)" "length packet \<le> max_packet"
    using assms
    by (auto simp: evaluate_inbound_def Let_def not_less split: if_splits option.splits prod.splits)
  have s: "src_ok (in_ipv6 peer) info \<or> ?ret"
    using assms c by (auto simp: evaluate_inbound_def Let_def split: if_splits)
  show thesis
  proof (cases "\<not> ?ret \<and> \<not> is_overlay_ip (dst_ip info)")
    case True
    then show thesis using assms c s by (intro transit) (auto simp: evaluate_inbound_def Let_def split: if_splits)
  next
    case False
    show thesis
    proof (cases "\<exists>f. fr = Some f \<and> \<not> if_first f")
      case True
      then obtain f where f: "fr = Some f" "\<not> if_first f" by blast
      then show thesis using assms c s False
        by (intro later [of f]) (auto simp: evaluate_inbound_def Let_def split: if_splits prod.splits)
    next
      case whole: False
      show thesis
        using assms c s False whole
        by (intro judged [of fr ?ret]) (auto simp: evaluate_inbound_def Let_def split: if_splits prod.splits option.splits)
    qed
  qed
qed

lemma src_ok_overlay: "src_ok ip info \<Longrightarrow> is_overlay_ip (dst_ip info) \<Longrightarrow> src_ip info = V6 ip"
  by (auto simp: src_ok_def is_transitable_def)

lemma reply_on_live_flow:
  assumes "fw_run (new_firewall cfg) evs fw" "fst (admits_reply info now fw)" "\<not> disabled (inner fw)"
  shows "\<exists>t. flow_live (new_firewall cfg) evs (flow_of In info) t \<and> now - t < flow_timeout (protocol info)"
proof -
  have "fst (fw_track In info now fw)" using assms(2,3) by (simp add: admits_reply_def)
  then obtain st where "conntrack fw (flow_of In info) = Some st" "flow_active st (protocol info) now"
    using fst_fw_track_In by blast
  moreover have "flows_justified (new_firewall cfg) evs (conntrack fw)"
    using flows_justified_run [OF assms(1)] by (simp add: new_firewall_def)
  ultimately show ?thesis using flow_active_seen by (fastforce simp: flows_justified_def)
qed

definition later_fragment :: "ipv6_fragment option \<Rightarrow> bool" where
  "later_fragment fr = (case fr of Some f \<Rightarrow> \<not> if_first f | None \<Rightarrow> False)"

definition verdict_kept :: "ipv6_fragment option \<Rightarrow> instant \<Rightarrow> fragment_verdicts \<Rightarrow> bool" where
  "verdict_kept fr now fv = (case fr of Some f \<Rightarrow> fst (fv_admits (if_key f) now fv) | None \<Rightarrow> False)"

text \<open>C2. What a peer can get past the verdict: a packet of at most 1500 bytes that is either its own mesh
  traffic, sourced from its own address and allowed by the firewall; or transit it was allowed, to an
  address the internet reaches and that is neither this host nor on its links; or a reply from the exit it
  was chosen as, from a routable address to this node, on a live flow of this node (unless the firewall is
  off). For whole packets and first fragments the firewall judges the packet itself; a later fragment of
  mesh traffic or of a reply passes on the verdict kept for its packet.\<close>

theorem inbound_accept_safe:
  assumes "evaluate_inbound now cell exit peer packet fw fv = (InAccept info, fw', fv')" and "fw_run (new_firewall cfg) evs fw"
  shows "\<exists>fr. classify_inbound packet = Some (info, fr) \<and> length packet \<le> 1500 \<and>
    (src_ip info = V6 (in_ipv6 peer) \<and> is_overlay_ip (dst_ip info) \<and>
       (if later_fragment fr then verdict_kept fr now fv
        else fst (evaluate_packet In info (in_identity peer) (in_shares peer) now fw) = Allow)
     \<or> (src_ip info = V6 (in_ipv6 peer) \<or> src_ip info = V4 wire_client_addr) \<and> \<not> is_overlay_ip (dst_ip info) \<and>
       es_allows (in_network peer) (in_identity peer) (xc_server exit) \<and> is_transitable (dst_ip info) \<and>
       \<not> is_on_link (dst_ip info) (xc_server exit) \<and> \<not> is_self_addr (dst_ip info) (xc_server exit)
     \<or> is_return_from (in_identity peer) (in_ipv6 peer) (xc_client exit) \<and> is_transitable (src_ip info) \<and>
       (dst_ip info = V6 (xc_my_v6 exit) \<or> dst_ip info = V4 wire_client_addr) \<and>
       (if later_fragment fr then verdict_kept fr now fv
        else disabled (inner fw) \<or>
          (\<exists>t. flow_live (new_firewall cfg) evs (flow_of In (delivered_info info)) t \<and> now - t < flow_timeout (protocol info))))"
  using assms(1)
proof (cases rule: evaluate_inbound_accept_cases)
  case (transit fr)
  then show ?thesis by (auto simp: max_packet_def src_ok_def transit_permitted_def)
next
  case (later f)
  then have "later_fragment (Some f)" "verdict_kept (Some f) now fv" by (simp_all add: later_fragment_def verdict_kept_def)
  then show ?thesis using later src_ok_overlay [of "in_ipv6 peer" info]
    by (intro exI [of _ "Some f"]) (auto simp: max_packet_def exit_return_def dst_is_me_def)
next
  case (judged fr ret)
  have first: "\<not> later_fragment fr" using judged(3) by (auto simp: later_fragment_def split: option.splits)
  show ?thesis
  proof (cases ret)
    case True
    then have "fst (admits_reply (delivered_info info) now fw)" using judged(6) by (simp add: firewall_admits_def)
    from reply_on_live_flow [OF assms(2) this] judged(1,2,4) True first show ?thesis
      by (intro exI [of _ fr]) (auto simp: max_packet_def exit_return_def dst_is_me_def delivered_info_def)
  next
    case False
    then have "fst (evaluate_packet In info (in_identity peer) (in_shares peer) now fw) \<noteq> Deny"
      using judged(6) by (auto simp: firewall_admits_def is_deny_def split: prod.splits)
    then have "fst (evaluate_packet In info (in_identity peer) (in_shares peer) now fw) = Allow"
      using action.exhaust by blast
    then show ?thesis using judged(1,2,5) False first src_ok_overlay [of "in_ipv6 peer" info]
      by (intro exI [of _ fr]) (simp add: max_packet_def)
  qed
qed

subsection \<open>Later fragments\<close>

text \<open>A reader's history: what it was given, what it decided and the verdicts it ended with. Between two
  packets the firewall and the exit state may have changed in any way.\<close>

inductive inbound_trace :: "(instant \<times> bytes \<times> inbound_decision) list \<Rightarrow> instant \<Rightarrow> fragment_verdicts \<Rightarrow> bool" where
  trace_start: "inbound_trace [] t no_verdicts"
| trace_packet: "inbound_trace log t fv \<Longrightarrow> t \<le> now \<Longrightarrow>
    evaluate_inbound now cell exit peer packet fw fv = (d, fw', fv') \<Longrightarrow> inbound_trace (log @ [(now, packet, d)]) now fv'"

definition first_accepted :: "(instant \<times> bytes \<times> inbound_decision) list \<Rightarrow> (fragment_key \<times> instant) set" where
  "first_accepted log = {(k, u). \<exists>p i f. (u, p, InAccept i) \<in> set log \<and> parse_ipv6_fragment p = Some f \<and> if_first f \<and> if_key f = k}"

lemma evaluate_inbound_verdicts:
  assumes "evaluate_inbound now cell exit peer packet fw fv = (d, fw', fv')"
  obtains (same) "fv' = fv"
  | (asked) k ok where "fv_admits k now fv = (ok, fv')"
  | (allowed) i f where "d = InAccept i" "parse_ipv6_fragment packet = Some f" "if_first f" "fv' = fv_allow (if_key f) now fv"
  using assms
  by (auto simp: evaluate_inbound_def Let_def classify_inbound_def split: if_splits option.splits prod.splits)

lemma no_verdicts_ok: "fv_ok t no_verdicts" "fgate.justified past no_verdicts"
  by (simp_all add: fv_ok_def no_verdicts_def fgate.justified_def fv_live_def)

lemma fv_ok_mono: "fv_ok t v \<Longrightarrow> t \<le> t' \<Longrightarrow> fv_ok t' v"
  by (force simp: fv_ok_def)

lemma inbound_trace_justified:
  "inbound_trace log t fv \<Longrightarrow> fv_ok t fv \<and> fgate.justified (first_accepted log) fv"
proof (induction rule: inbound_trace.induct)
  case (trace_packet log t fv now cell exit peer packet fw d fw' fv')
  have mono: "first_accepted log \<subseteq> first_accepted (log @ [(now, packet, d)])" by (auto simp: first_accepted_def)
  note ih = trace_packet.IH [THEN conjunct1] trace_packet.IH [THEN conjunct2, THEN fgate.justified_mono, OF mono]
  from trace_packet.hyps(3) show ?case
  proof (cases rule: evaluate_inbound_verdicts)
    case same
    then show ?thesis using ih fv_ok_mono trace_packet.hyps(2) by simp
  next
    case (asked k ok)
    then have "fv' = snd (fv_admits k now fv)" by simp
    then show ?thesis using ih fgate.ok_admits trace_packet.hyps(2) fgate.justified_admits by simp
  next
    case (allowed i f)
    then have "(if_key f, now) \<in> first_accepted (log @ [(now, packet, d)])" by (auto simp: first_accepted_def)
    then have "fgate.justified (first_accepted (log @ [(now, packet, d)])) fv'"
      using fgate.justified_allow [OF ih(2), of "if_key f" now] allowed(4) by (simp add: insert_absorb)
    then show ?thesis using ih(1) fgate.ok_allow trace_packet.hyps(2) allowed(4) by simp
  qed
qed (simp add: no_verdicts_ok)

text \<open>C19. A later fragment rides on its first: in every history of a reader, a later fragment is accepted
  only if the first fragment of the same packet (same addresses, same identification) was accepted
  earlier, less than the ten-second lifetime of its verdict ago; or if it is transit, to an address
  outside the mesh that this peer is allowed to reach through this node, where each fragment is judged
  by its addresses alone.\<close>

theorem later_fragment_follows_first:
  assumes "inbound_trace log t fv" "evaluate_inbound now cell exit peer packet fw fv = (InAccept info, fw', fv')"
    and "parse_ipv6_fragment packet = Some f" "\<not> if_first f"
  shows "(\<exists>u q i g. (u, q, InAccept i) \<in> set log \<and> parse_ipv6_fragment q = Some g \<and> if_first g \<and>
      if_key g = if_key f \<and> now < u + secs 10) \<or>
    \<not> is_overlay_ip (dst_ip info) \<and> src_ok (in_ipv6 peer) info \<and> transit_permitted exit peer info"
proof -
  have np: "parse_packet_info packet = None"
    using whole_not_fragment assms(3) by (cases "parse_packet_info packet") auto
  have follows: "\<exists>u q i g. (u, q, InAccept i) \<in> set log \<and> parse_ipv6_fragment q = Some g \<and> if_first g \<and>
      if_key g = if_key f \<and> now < u + secs 10" if "fst (fv_admits (if_key f) now fv)"
  proof -
    from that inbound_trace_justified [OF assms(1)] obtain u where "(if_key f, u) \<in> first_accepted log" "now < u + verdict_ttl"
      using fgate.admits_justified by blast
    then show ?thesis by (auto simp: first_accepted_def verdict_ttl_def)
  qed
  from assms(2) show ?thesis
  proof (cases rule: evaluate_inbound_accept_cases)
    case (transit fr)
    then show ?thesis by blast
  next
    case (later g)
    then have "fst (fv_admits (if_key f) now fv)" using assms(3) np by (simp add: classify_inbound_def)
    then show ?thesis using follows by blast
  qed (use assms(3,4) np in \<open>auto simp: classify_inbound_def\<close>)
qed

section \<open>What reaches the TUN\<close>

lemma parse_family:
  assumes "parse_packet_info p = Some i"
  obtains (v4) s d where "src_ip i = V4 s" "dst_ip i = V4 d" "parse_ipv4 p = Some i" "p \<noteq> []" "drop_bit 4 (p ! 0) = 4"
  | (v6) s d where "src_ip i = V6 s" "dst_ip i = V6 d" "parse_ipv6 p = Some i" "drop_bit 4 (p ! 0) = 6"
  using assms
proof (cases rule: parse_packet_info_cases)
  case ipv4
  have "i = mk_packet_info p (p ! 9) (unat (p ! 0 AND 15) * 4)
      (V4 (v4_of_octets [p ! 12, p ! 13, p ! 14, p ! 15])) (V4 (v4_of_octets [p ! 16, p ! 17, p ! 18, p ! 19]))"
    using parse_ipv4_SomeD [OF ipv4(3)] by blast
  then show ?thesis using v4 ipv4 by (metis mk_packet_info_sel(1,2))
next
  case ipv6
  have "i = mk_packet_info p (protocol i) (transport_offset i) (V6 (v6_src p)) (V6 (v6_dst p))"
    using parse_ipv6_SomeD [OF ipv6(3)] by blast
  then show ?thesis using v6 ipv6(2,3) by (metis mk_packet_info_sel(1,2))
qed

lemma wire_octets: "v4_octets wire_client_addr = [192, 0, 0, 2]"
  by (simp add: wire_client_addr_def v4c.enc_dec)

lemma wire_not_transitable: "\<not> is_transitable (V4 wire_client_addr)"
  by (simp add: is_transitable_def is_transitable_v4_def Let_def wire_octets)

lemma octets_slice:
  assumes "at + 4 \<le> length p"
  shows "[p ! at, p ! (at + 1), p ! (at + 2), p ! (at + 3)] = slice p at (at + 4)"
  using assms by (intro nth_equalityI) (auto simp: wire_simps less_Suc_eq numeral_eq_Suc)

lemma swap_addr_octets:
  "length s = 4 \<Longrightarrow> v4_of_octets (swap_addr (v4_octets old) (v4_octets new) s) = (if v4_of_octets s = old then new else v4_of_octets s)"
  using v4c.enc_dec [of s] by (auto simp: swap_addr_def)

lemma rewrite_v4_parse:
  assumes "rewrite_v4 p old new = Some p'" "parse_packet_info p = Some i" "parse_packet_info p' = Some j"
  shows "src_ip j = (if src_ip i = V4 old then V4 new else src_ip i)" "dst_ip j = (if dst_ip i = V4 old then V4 new else dst_ip i)"
proof -
  note h = rewrite_v4_header [OF assms(1)]
  have four: "drop_bit 4 (p ! 0) = 4" "drop_bit 4 (p' ! 0) = 4"
    using assms(1) h(3) [of 0] by (auto simp: rewrite_v4_def rewrite_inner_def rewrite_header_def split: if_splits option.splits)
  then have i: "parse_ipv4 p = Some i" "parse_ipv4 p' = Some j"
    using assms(2,3) by (auto simp: parse_packet_info_def split: option.splits)
  have "src_ip k = V4 (v4_of_octets (slice q 12 16)) \<and> dst_ip k = V4 (v4_of_octets (slice q 16 20))" if "parse_ipv4 q = Some k" for q k
  proof -
    have l: "20 \<le> length q" and k: "k = mk_packet_info q (q ! 9) (unat (q ! 0 AND 15) * 4)
        (V4 (v4_of_octets [q ! 12, q ! 13, q ! 14, q ! 15])) (V4 (v4_of_octets [q ! 16, q ! 17, q ! 18, q ! 19]))"
      using parse_ipv4_SomeD [OF that] by blast+
    have "[q ! 12, q ! 13, q ! 14, q ! 15] = slice q 12 16" "[q ! 16, q ! 17, q ! 18, q ! 19] = slice q 16 20"
      using octets_slice [of 12 q] octets_slice [of 16 q] l by simp_all
    then show ?thesis unfolding k by simp
  qed
  then show "src_ip j = (if src_ip i = V4 old then V4 new else src_ip i)" "dst_ip j = (if dst_ip i = V4 old then V4 new else dst_ip i)"
    using i h(1,4,5) by (simp_all add: swap_addr_octets wire_simps)
qed

lemma rewrite_v4_parses:
  assumes "rewrite_v4 p old new = Some p'" "parse_packet_info p = Some i"
  obtains j where "parse_packet_info p' = Some j"
proof -
  note h = rewrite_v4_header [OF assms(1)]
  have four: "drop_bit 4 (p ! 0) = 4"
    using assms(1) by (auto simp: rewrite_v4_def rewrite_inner_def rewrite_header_def split: if_splits option.splits)
  then have "parse_ipv4 p = Some i" using assms(2) by (auto simp: parse_packet_info_def split: option.splits)
  then have "\<exists>j. parse_ipv4 p' = Some j"
    using h(2) h(3) [of 0] h(3) [of 6] h(3) [of 7] by (auto simp: parse_ipv4_def Let_def split: if_splits)
  moreover have "p' \<noteq> []" using h(1,2) by auto
  ultimately show thesis using that four h(3) [of 0] by (auto simp: parse_packet_info_def get_def)
qed

lemma send_peer_reply_tun: "ToTun q \<notin> set (fst (send_peer_reply io c h reply dp))"
  by (auto simp: send_peer_reply_def Let_def split: option.splits prod.splits)

lemma count_drop_sel [simp]:
  "dp_ssh (count_drop r dp) = dp_ssh dp" "dp_exit (count_drop r dp) = dp_exit dp" "dp_peers (count_drop r dp) = dp_peers dp"
  "dp_active (count_drop r dp) = dp_active dp" "dp_firewall (count_drop r dp) = dp_firewall dp"
  "dp_users (count_drop r dp) = dp_users dp" "dp_next_id (count_drop r dp) = dp_next_id dp"
  by (simp_all add: count_drop_def)

lemma exit_translate_ssh: "dp_ssh (snd (exit_translate io rd network info p dp)) = dp_ssh dp"
  by (auto simp: exit_translate_def Let_def split: prod.splits sum.splits)

text \<open>The path of an accepted packet into the TUN.\<close>

lemma deliver_inbound_tun:
  assumes "ToTun q \<in> set (fst (deliver_inbound io rd network info p dp))"
  obtains p1 dp1 p2 where "length p \<le> unat (pt_local_mtu (dp_peers dp))" "exit_translate io rd network info p dp = (Some p1, dp1)"
    "(if dst_ip info = V4 wire_client_addr then client_from_wire p1 else Some p1) = Some p2"
    "q = p2 \<and> \<not> (\<exists>s. live_ssh_nat (dp_ssh dp) = Some s \<and> protocol info = 6 \<and> dst_port info = sn_mesh_port s)
     \<or> (\<exists>r. rewrite_ssh_port p2 info True (dp_ssh dp) = (r, q) \<and> r \<noteq> Truncated)"
    "dp_exit (snd (deliver_inbound io rd network info p dp)) = dp_exit dp1"
proof -
  have len: "\<not> length p > unat (pt_local_mtu (dp_peers dp))"
    using assms send_peer_reply_tun by (auto simp: deliver_inbound_def Let_def split: option.splits)
  obtain p1 dp1 where 1: "exit_translate io rd network info p dp = (Some p1, dp1)"
    using assms len by (auto simp: deliver_inbound_def Let_def split: prod.splits option.splits)
  have s: "dp_ssh dp1 = dp_ssh dp" using exit_translate_ssh [of io rd network info p dp] 1 by simp
  obtain p2 where 2: "(if dst_ip info = V4 wire_client_addr then client_from_wire p1 else Some p1) = Some p2"
    using assms len 1 by (cases "if dst_ip info = V4 wire_client_addr then client_from_wire p1 else Some p1") (auto simp: deliver_inbound_def Let_def)
  let ?dp = "dp1 \<lparr> dp_metrics := record_rx (length p2) (dp_metrics dp1) \<rparr>"
  have d: "deliver_inbound io rd network info p dp = deliver_ssh info p2 ?dp"
    using len 1 2 by (simp add: deliver_inbound_def Let_def)
  have "q = p2 \<and> \<not> (\<exists>s. live_ssh_nat (dp_ssh dp) = Some s \<and> protocol info = 6 \<and> dst_port info = sn_mesh_port s)
     \<or> (\<exists>r. rewrite_ssh_port p2 info True (dp_ssh dp) = (r, q) \<and> r \<noteq> Truncated)"
    using assms s unfolding d by (auto simp: deliver_ssh_def Let_def split: option.splits if_splits prod.splits)
  moreover have "dp_exit (snd (deliver_ssh info p2 ?dp)) = dp_exit dp1"
    by (auto simp: deliver_ssh_def Let_def split: option.splits prod.splits)
  ultimately show ?thesis using that [OF _ 1 2] len d by simp
qed

lemma judge_inbound_tun:
  assumes "judge_inbound io network p rd dp = (out, rd', dp')" "ToTun q \<in> set out"
  obtains peer info fw fv where "evaluate_inbound (io_now io) (dp_ssh dp) (dp_exit dp) peer p (dp_firewall dp) (rd_fragments rd) = (InAccept info, fw, fv)"
    "peer = \<lparr> in_identity = du_resolve (dp_users dp) (rd_peer_id rd), in_ipv6 = rd_ipv6 rd, in_network = network,
       in_shares = (\<lambda>name. shares_network_v6 (rd_ipv6 rd) name (dp_peers dp)) \<rparr>"
    "deliver_inbound io (rd \<lparr> rd_fragments := fv \<rparr>) network info p (dp \<lparr> dp_firewall := fw \<rparr>) = (out, dp')"
proof -
  define peer where "peer = \<lparr> in_identity = du_resolve (dp_users dp) (rd_peer_id rd), in_ipv6 = rd_ipv6 rd, in_network = network,
       in_shares = (\<lambda>name. shares_network_v6 (rd_ipv6 rd) name (dp_peers dp)) \<rparr>"
  obtain d fw fv where e: "evaluate_inbound (io_now io) (dp_ssh dp) (dp_exit dp) peer p (dp_firewall dp) (rd_fragments rd) = (d, fw, fv)"
    by (metis prod_cases3)
  have "ToTun q \<notin> set (fst (reject_inbound io r network i p x))" for r i x
    using send_peer_reply_tun by (auto simp: reject_inbound_def Let_def split: option.splits)
  then have no: "reject_inbound io r network i p x = (out, y) \<Longrightarrow> False" for r i x y
    using assms(2) by (metis fst_conv)
  obtain info where "d = InAccept info"
    using assms e no unfolding judge_inbound_def peer_def [symmetric]
    by (cases d) (auto simp: Let_def peer_def [symmetric] split: prod.splits)
  with assms e that [of peer info fw fv] show ?thesis
    unfolding judge_inbound_def peer_def [symmetric] by (auto simp: Let_def peer_def [symmetric] split: prod.splits)
qed

lemma resolve_inbound_network:
  assumes "resolve_inbound now ip c h t = (Some network, t')"
  shows "shares_network_v6 ip network t" "pt_local_mtu t' = pt_local_mtu t" "shares_network_v6 ip n t' = shares_network_v6 ip n t"
  using assms
  by (auto simp: resolve_inbound_def shares_network_v6_def set_peer_def peer_at_def edit_active_def update_conv' split: option.splits if_splits)

lemma read_datagram_tun:
  assumes "read_datagram io d rd dp = (out, rd', dp')" "ToTun q \<in> set out"
  obtains h rest network t p r1 where "untag_datagram d = Some (h, rest)"
    "resolve_inbound (io_now io) (rd_ipv6 rd) (rd_conn rd) h (dp_peers dp) = (Some network, t)"
    "accept d (io_now io) (rd_reassembly rd) = (Inr (Some p), r1)"
    "judge_inbound io network p (rd \<lparr> rd_reassembly := r1 \<rparr>) (dp \<lparr> dp_peers := t \<rparr>) = (out, rd', dp')"
  using assms
  by (auto simp: read_datagram_def Let_def split: if_splits option.splits prod.splits sum.splits)

lemma put_port_fragment:
  assumes "parse_ipv6_fragment p = Some f" "transport_offset (if_info f) + 18 \<le> length p"
    and "port_off = transport_offset (if_info f) \<or> port_off = transport_offset (if_info f) + 2"
  shows "parse_packet_info (put_port p (transport_offset (if_info f)) port_off old new) = None"
proof -
  let ?q = "put_port p (transport_offset (if_info f)) port_off old new"
  note b = put_port_bytes [OF assms(2,3), where ?old = old and ?new = new]
  from parse_ipv6_fragment_SomeD [OF assms(1)] obtain c h where c: "walk_ipv6_chain p = Some c" "ch_fragment c = Some h"
    and p: "40 \<le> length p" "drop_bit 4 (p ! 0) = 6" "40 \<le> ch_offset c"
    and i: "if_info f = mk_packet_info p (ch_protocol c) (ch_offset c) (V6 (v6_src p)) (V6 (v6_dst p))"
    by (auto simp: chain_ok_def)
  have off: "transport_offset (if_info f) = ch_offset c" by (simp add: i)
  have "walk_ipv6_chain ?q = Some c" using walk_ipv6_chain_cong [OF c(1) b(1)] b(2) off by simp
  then have "parse_ipv6 ?q = None" using c(2) by (simp add: parse_ipv6_def ipv6_upper_layer_def)
  moreover have "?q ! 0 = p ! 0" using b(2) [of 0] off p(3) by simp
  ultimately show ?thesis using p b(1) by (simp add: parse_packet_info_def get_def)
qed

lemma ssh_delivered:
  assumes "classify_inbound p = Some (info, fr)" "rewrite_ssh_port p info True cell = (r, q)" "parse_packet_info q = Some j"
  shows "fr = None" "j = info \<or> r = Rewritten \<and> (\<exists>sn. live_ssh_nat cell = Some sn \<and> j = info \<lparr> dst_port := sn_listen_port sn \<rparr>)"
proof -
  from assms(1) have "fr = None \<and> (j = info \<or> r = Rewritten \<and> (\<exists>sn. live_ssh_nat cell = Some sn \<and> j = info \<lparr> dst_port := sn_listen_port sn \<rparr>))"
  proof (cases rule: classify_inbound_cases)
    case whole
    then show ?thesis
      using ssh_rewrite_parse(1) [OF whole(1), of True cell q] rewrite_ssh_port_unchanged [OF assms(2)] assms(2,3)
      by (cases "r = Rewritten") auto
  next
    case (fragment f)
    have "r = Rewritten" using rewrite_ssh_port_unchanged [OF assms(2)] assms(3) fragment(1) by (metis option.distinct(1))
    with assms(2) have "rewrite_ssh_port p info True cell = (Rewritten, q)" by simp
    then obtain sn :: ssh_nat where "transport_offset info + 18 \<le> length p"
      "q = put_port p (transport_offset info) (transport_offset info + 2) (sn_mesh_port sn) (sn_listen_port sn)"
      by (rule rewrite_ssh_port_RewrittenD) simp
    then have "parse_packet_info q = None" using put_port_fragment [OF fragment(2)] fragment(3) by simp
    then show ?thesis using assms(3) by simp
  qed
  then show "fr = None" "j = info \<or> r = Rewritten \<and> (\<exists>sn. live_ssh_nat cell = Some sn \<and> j = info \<lparr> dst_port := sn_listen_port sn \<rparr>)" by blast+
qed

lemma put_port_fragment_parse:
  assumes "parse_ipv6_fragment p = Some f" "transport_offset (if_info f) + 18 \<le> length p"
    and "port_off = transport_offset (if_info f) \<or> port_off = transport_offset (if_info f) + 2"
  obtains g where "parse_ipv6_fragment (put_port p (transport_offset (if_info f)) port_off old new) = Some g"
    "src_ip (if_info g) = src_ip (if_info f)" "dst_ip (if_info g) = dst_ip (if_info f)"
proof -
  let ?q = "put_port p (transport_offset (if_info f)) port_off old new"
  note b = put_port_bytes [OF assms(2,3), where ?old = old and ?new = new]
  from parse_ipv6_fragment_SomeD [OF assms(1)] obtain c h where c: "walk_ipv6_chain p = Some c" "ch_fragment c = Some h"
    and p: "40 \<le> length p" "drop_bit 4 (p ! 0) = 6" "40 \<le> ch_offset c"
    and first: "if_first f = (fh_offset h = 0)" "if_first f \<longrightarrow> carries_upper_header p (ch_protocol c) (ch_offset c)"
    and i: "if_info f = mk_packet_info p (ch_protocol c) (ch_offset c) (V6 (v6_src p)) (V6 (v6_dst p))"
    by (auto simp: chain_ok_def)
  have off: "transport_offset (if_info f) = ch_offset c" by (simp add: i)
  have w: "walk_ipv6_chain ?q = Some c" using walk_ipv6_chain_cong [OF c(1) b(1)] b(2) off by simp
  have low: "?q ! k = p ! k" if "k < 40" for k using b(2) that off p(3) by simp
  have "slice ?q 8 24 = slice p 8 24" "slice ?q 24 40 = slice p 24 40"
    using b(1) low p(1) by (auto intro!: nth_equalityI simp: slice_def)
  then have addr: "v6_src ?q = v6_src p" "v6_dst ?q = v6_dst p" by (simp_all add: v6_src_def v6_dst_def)
  have "carries_upper_header ?q (ch_protocol c) (ch_offset c) = carries_upper_header p (ch_protocol c) (ch_offset c)"
    using b(1,6) off by (simp add: carries_upper_header_def get_def)
  then have "\<exists>g. parse_ipv6_fragment ?q = Some g \<and> src_ip (if_info g) = src_ip (if_info f) \<and> dst_ip (if_info g) = dst_ip (if_info f)"
    using w c(2) p(1,2) b(1) low [of 0] first addr by (simp add: parse_ipv6_fragment_def Let_def i)
  then show thesis using that by blast
qed

lemma classify_ssh:
  assumes "classify_inbound p = Some (info, fr)" "rewrite_ssh_port p info True cell = (r, q)"
  obtains j fr' where "classify_inbound q = Some (j, fr')" "src_ip j = src_ip info" "dst_ip j = dst_ip info"
proof (cases "r = Rewritten")
  case False
  then show thesis using that assms rewrite_ssh_port_unchanged [OF assms(2)] by simp
next
  case True
  from assms(1) show thesis
  proof (cases rule: classify_inbound_cases)
    case whole
    from ssh_rewrite_parse(1) [OF whole(1), of True cell q] assms(2) True show thesis
      by (auto intro!: that [of _ None] simp: classify_inbound_def)
  next
    case (fragment f)
    from assms(2) True have "rewrite_ssh_port p info True cell = (Rewritten, q)" by simp
    then obtain sn :: ssh_nat where l: "transport_offset info + 18 \<le> length p"
      and q: "q = put_port p (transport_offset info) (transport_offset info + 2) (sn_mesh_port sn) (sn_listen_port sn)"
      by (rule rewrite_ssh_port_RewrittenD) simp
    have n: "parse_packet_info q = None" using put_port_fragment [OF fragment(2)] l fragment(3) by (simp add: q)
    obtain g where "parse_ipv6_fragment q = Some g" "src_ip (if_info g) = src_ip info" "dst_ip (if_info g) = dst_ip info"
      using put_port_fragment_parse [OF fragment(2), of "transport_offset info + 2" "sn_mesh_port sn" "sn_listen_port sn"] l fragment(3)
      by (auto simp: q)
    then show thesis using n by (intro that [of "if_info g" "Some g"]) (simp_all add: classify_inbound_def)
  qed
qed

lemma ssh_not_ours: "dst_ip info = V4 a \<Longrightarrow> rewrite_ssh_port p info True cell = (Untouched, p)"
  by (simp add: rewrite_ssh_port_def is_ours_def Let_def split: option.splits)

text \<open>An accepted packet on an address of the gateway's lease pool: what the translation made of it.\<close>

lemma exit_translate_v4:
  assumes "exit_translate io rd network info p dp = (Some p1, dp1)" "nat_ok (es_ipv4 (xc_server (dp_exit dp)))"
    and "dst_ip info = V4 d" "is_transitable (V4 d)"
  obtains a where "rewrite_v4 p wire_client_addr a = Some p1" "is_server_addr a" "offers_v4 (xc_server (dp_exit dp))"
    "return_lease a (es_ipv4 (xc_server (dp_exit dp1))) = Some \<lparr> l_peer = rd_ipv6 rd, l_network = network \<rparr>"
proof -
  let ?n = "es_ipv4 (xc_server (dp_exit dp))"
  obtain n where n: "nat_outbound (io_secs io) (io_saved io) p (rd_ipv6 rd) network ?n = (Inr p1, n)"
    and off: "offers_v4 (xc_server (dp_exit dp))" and dp1: "es_ipv4 (xc_server (dp_exit dp1)) = n"
    using assms(1,3,4) by (auto simp: exit_translate_def Let_def split: if_splits prod.splits sum.splits)
  obtain a where a: "rewrite_v4 p wire_client_addr a = Some p1" "holds_since (io_secs io) \<lparr> l_peer = rd_ipv6 rd, l_network = network \<rparr> a n"
    by (rule outbound_holds [OF assms(2) n])
  have "nat_ok n" using nat_ok_outbound [OF assms(2)] n by (metis snd_conv)
  from holds_inverse [OF this a(2)] a(1) off dp1 show ?thesis by (intro that) (auto simp: return_lease_def)
qed

lemma classify_family:
  assumes "classify_inbound p = Some (info, fr)"
  obtains (v4) s d where "src_ip info = V4 s" "dst_ip info = V4 d" "parse_packet_info p = Some info" "fr = None"
  | (v6) s d where "src_ip info = V6 s" "dst_ip info = V6 d"
  using assms
proof (cases rule: classify_inbound_cases)
  case whole
  from whole(1) show ?thesis by (cases rule: parse_family) (use whole v4 v6 in auto)
next
  case (fragment f)
  from parse_ipv6_fragment_SomeD [OF fragment(2)] show ?thesis using v6 fragment(3) by auto
qed

lemma rewrite_ssh_port_length: "rewrite_ssh_port p i inbound cell = (r, q) \<Longrightarrow> length q = length p"
  by (cases "r = Rewritten")
    (auto elim!: rewrite_ssh_port_RewrittenD simp: put_port_bytes(1) dest: rewrite_ssh_port_unchanged split: if_splits)

lemma exit_translate_length: "exit_translate io rd network info p dp = (Some p1, dp1) \<Longrightarrow> length p1 = length p"
  by (auto simp: exit_translate_def nat_outbound_def Let_def split: if_splits prod.splits sum.splits option.splits dest: rewrite_v4_header(2))

lemma deliver_inbound_length:
  assumes "ToTun q \<in> set (fst (deliver_inbound io rd network info p dp))"
  shows "length q = length p" "length p \<le> unat (pt_local_mtu (dp_peers dp))"
proof -
  from assms obtain p1 dp1 p2 where l: "length p \<le> unat (pt_local_mtu (dp_peers dp))"
    and 1: "exit_translate io rd network info p dp = (Some p1, dp1)"
    and 2: "(if dst_ip info = V4 wire_client_addr then client_from_wire p1 else Some p1) = Some p2"
    and q: "q = p2 \<or> (\<exists>r. rewrite_ssh_port p2 info True (dp_ssh dp) = (r, q))"
    by (rule deliver_inbound_tun) blast
  have "length p2 = length p1" using 2 rewrite_v4_header(2) by (auto simp: client_from_wire_def split: if_splits)
  then show "length q = length p" using q rewrite_ssh_port_length exit_translate_length [OF 1] by metis
  show "length p \<le> unat (pt_local_mtu (dp_peers dp))" by (rule l)
qed

lemma accepted_source:
  assumes ev: "evaluate_inbound now cell (dp_exit dp) peer p fw fv = (InAccept info, fw', fv')"
    and del: "ToTun q \<in> set (fst (deliver_inbound io rd network info p dp))"
    and n: "nat_ok (es_ipv4 (xc_server (dp_exit dp)))"
  shows "\<exists>j fr. classify_inbound q = Some (j, fr) \<and> length q \<le> unat (pt_local_mtu (dp_peers dp)) \<and>
    (src_ip j = V6 (in_ipv6 peer)
     \<or> (\<exists>a. src_ip j = V4 a \<and> is_server_addr a \<and> offers_v4 (xc_server (dp_exit dp)) \<and>
          es_allows (in_network peer) (in_identity peer) (xc_server (dp_exit dp)) \<and>
          return_lease a (es_ipv4 (xc_server (dp_exit (snd (deliver_inbound io rd network info p dp))))) =
            Some \<lparr> l_peer = rd_ipv6 rd, l_network = network \<rparr>)
     \<or> is_return_from (in_identity peer) (in_ipv6 peer) (xc_client (dp_exit dp)) \<and>
       is_transitable (src_ip j) \<and> (dst_ip j = V6 (xc_my_v6 (dp_exit dp)) \<or> dst_ip j = V4 local_client_addr))"
proof -
  from del obtain p1 dp1 p2 where 1: "exit_translate io rd network info p dp = (Some p1, dp1)"
    and 2: "(if dst_ip info = V4 wire_client_addr then client_from_wire p1 else Some p1) = Some p2"
    and q: "q = p2 \<or> (\<exists>r. rewrite_ssh_port p2 info True (dp_ssh dp) = (r, q))"
    and dp1: "dp_exit (snd (deliver_inbound io rd network info p dp)) = dp_exit dp1"
    by (rule deliver_inbound_tun) blast
  have len: "length q \<le> unat (pt_local_mtu (dp_peers dp))" using deliver_inbound_length [OF del] by simp
  obtain fr where c: "classify_inbound p = Some (info, fr)" using ev by (auto elim: evaluate_inbound_accept_cases)
  from c show ?thesis
  proof (cases rule: classify_family)
    case (v4 s d)
    have qp: "q = p2" using q ssh_not_ours [OF v4(2)] by auto
    from ev show ?thesis
    proof (cases rule: evaluate_inbound_accept_cases)
      case (transit fr')
      then have t: "s = wire_client_addr" "is_transitable (V4 d)" using v4 by (auto simp: src_ok_def)
      from exit_translate_v4 [OF 1 n v4(2) t(2)] obtain a where a: "rewrite_v4 p wire_client_addr a = Some p1" "is_server_addr a"
        "offers_v4 (xc_server (dp_exit dp))" "return_lease a (es_ipv4 (xc_server (dp_exit dp1))) = Some \<lparr> l_peer = rd_ipv6 rd, l_network = network \<rparr>" .
      have "p2 = p1" using 2 t(2) v4(2) wire_not_transitable by (auto split: if_splits)
      with rewrite_v4_parses [OF a(1) v4(3)] qp obtain j where j: "parse_packet_info q = Some j" by blast
      then have "src_ip j = V4 a" using rewrite_v4_parse(1) [OF a(1) v4(3)] \<open>p2 = p1\<close> qp v4(1) t(1) by simp
      then show ?thesis using a dp1 len transit(5) j
        by (intro exI [of _ j] exI [of _ None]) (auto simp: transit_permitted_def classify_inbound_def)
    next
      case (judged fr' ret)
      then have r: "exit_return (dp_exit dp) peer info" using v4(2) by (cases ret) (auto simp: is_overlay_ip_def)
      then have w: "d = wire_client_addr" using v4(2) by (auto simp: exit_return_def dst_is_me_def)
      have "p1 = p" using 1 v4(2) w wire_not_transitable by (simp add: exit_translate_def)
      then have rw: "rewrite_v4 p wire_client_addr local_client_addr = Some q" using 2 v4(2) w qp by (simp add: client_from_wire_def)
      then obtain j where j: "parse_packet_info q = Some j" using rewrite_v4_parses v4(3) by blast
      from rewrite_v4_parse [OF rw v4(3) j] r v4 w wire_not_transitable show ?thesis using len j
        by (intro exI [of _ j] exI [of _ None]) (auto simp: exit_return_def classify_inbound_def)
    qed (use c v4 in auto)
  next
    case (v6 s d)
    then have "p1 = p" "p2 = p1" using 1 2 by (simp_all add: exit_translate_def)
    then have p: "p2 = p" by simp
    obtain j fq where j: "classify_inbound q = Some (j, fq)" "src_ip j = src_ip info" "dst_ip j = dst_ip info"
    proof (cases "q = p")
      case True
      then show thesis using that c by simp
    next
      case False
      then obtain r where "rewrite_ssh_port p info True (dp_ssh dp) = (r, q)" using q unfolding p by blast
      from classify_ssh [OF c this] that show thesis by blast
    qed
    from ev have "src_ip info = V6 (in_ipv6 peer) \<or> exit_return (dp_exit dp) peer info"
      by (cases rule: evaluate_inbound_accept_cases) (use v6 in \<open>auto simp: src_ok_def\<close>)
    then show ?thesis using j v6 len by (intro exI [of _ j] exI [of _ fq]) (auto simp: exit_return_def dst_is_me_def)
  qed
qed

text \<open>C4. Every packet the TUN is given from a peer, whole or a fragment, can be traced to it: the peer and this
  node share the network its tag names, the packet fits the device, and its source is the peer's own mesh address; or, for
  IPv4 transit, an address of the gateway's pool that is leased to this very peer and network, so that
  replies go back to it; or a routable address, from the exit this node chose, to this node itself.\<close>

theorem delivered_source_traceable:
  assumes "read_datagram io d rd dp = (out, rd', dp')" "ToTun q \<in> set out"
    and "nat_ok (es_ipv4 (xc_server (dp_exit dp)))"
  shows "\<exists>network j fr. classify_inbound q = Some (j, fr) \<and> shares_network_v6 (rd_ipv6 rd) network (dp_peers dp) \<and>
    length q \<le> unat (pt_local_mtu (dp_peers dp)) \<and>
    (src_ip j = V6 (rd_ipv6 rd)
     \<or> (\<exists>a. src_ip j = V4 a \<and> is_server_addr a \<and> offers_v4 (xc_server (dp_exit dp)) \<and>
          es_allows network (du_resolve (dp_users dp) (rd_peer_id rd)) (xc_server (dp_exit dp)) \<and>
          return_lease a (es_ipv4 (xc_server (dp_exit dp'))) = Some \<lparr> l_peer = rd_ipv6 rd, l_network = network \<rparr>)
     \<or> is_return_from (du_resolve (dp_users dp) (rd_peer_id rd)) (rd_ipv6 rd) (xc_client (dp_exit dp)) \<and>
       is_transitable (src_ip j) \<and> (dst_ip j = V6 (xc_my_v6 (dp_exit dp)) \<or> dst_ip j = V4 local_client_addr))"
proof -
  from assms(1,2) obtain h rest network t p r1 where res: "resolve_inbound (io_now io) (rd_ipv6 rd) (rd_conn rd) h (dp_peers dp) = (Some network, t)"
    and judge: "judge_inbound io network p (rd \<lparr> rd_reassembly := r1 \<rparr>) (dp \<lparr> dp_peers := t \<rparr>) = (out, rd', dp')"
    by (rule read_datagram_tun)
  note net = resolve_inbound_network [OF res]
  from judge assms(2) obtain peer info fw fv where
      ev: "evaluate_inbound (io_now io) (dp_ssh dp) (dp_exit dp) peer p (dp_firewall dp) (rd_fragments rd) = (InAccept info, fw, fv)"
    and peer: "in_identity peer = du_resolve (dp_users dp) (rd_peer_id rd)" "in_ipv6 peer = rd_ipv6 rd" "in_network peer = network"
    and del: "deliver_inbound io (rd \<lparr> rd_reassembly := r1, rd_fragments := fv \<rparr>) network info p (dp \<lparr> dp_peers := t, dp_firewall := fw \<rparr>) = (out, dp')"
    by (rule judge_inbound_tun) auto
  let ?dp = "dp \<lparr> dp_peers := t, dp_firewall := fw \<rparr>"
  have n: "nat_ok (es_ipv4 (xc_server (dp_exit ?dp)))" using assms(3) by simp
  have ev: "evaluate_inbound (io_now io) (dp_ssh dp) (dp_exit ?dp) peer p (dp_firewall dp) (rd_fragments rd) = (InAccept info, fw, fv)"
    using ev by simp
  have "ToTun q \<in> set (fst (deliver_inbound io (rd \<lparr> rd_reassembly := r1, rd_fragments := fv \<rparr>) network info p ?dp))"
    using del assms(2) by simp
  from accepted_source [OF ev this n] net del show ?thesis
    by (intro exI [of _ network]) (simp add: peer)
qed

text \<open>An IPv4 packet stays one on its way to the TUN.\<close>

lemma deliver_v4:
  assumes "exit_translate io rd network info p dp = (Some p1, dp1)" "parse_packet_info p = Some info" "dst_ip info = V4 a"
    and "(if dst_ip info = V4 wire_client_addr then client_from_wire p1 else Some p1) = Some q"
  shows "parse_ipv6_fragment q = None" "parse_packet_info q = Some j \<Longrightarrow> \<exists>b. dst_ip j = V4 b"
proof -
  from assms(2) have p: "p \<noteq> []" "drop_bit 4 (p ! 0) = 4" using assms(3) by (auto elim: parse_family)
  have 1: "p1 ! 0 = p ! 0" using assms(1) rewrite_v4_header(3)
    by (fastforce simp: exit_translate_def nat_outbound_def Let_def split: if_splits prod.splits sum.splits option.splits)
  have "q ! 0 = p1 ! 0" using assms(4) rewrite_v4_header(3) by (fastforce simp: client_from_wire_def split: if_splits)
  then have four: "drop_bit 4 (q ! 0) = 4" using p 1 by simp
  then show "parse_ipv6_fragment q = None" by (simp add: parse_ipv6_fragment_def)
  assume "parse_packet_info q = Some j"
  then show "\<exists>b. dst_ip j = V4 b" by (cases rule: parse_family) (use four in simp_all)
qed

definition mesh_ssh :: "ssh_nat \<Rightarrow> packet_info \<Rightarrow> bool" where
  "mesh_ssh sn i \<longleftrightarrow> protocol i = 6 \<and> dst_ip i = V6 (sn_v6 sn) \<and> dst_port i = sn_mesh_port sn"

lemma accepted_mesh_ssh:
  assumes "evaluate_inbound now cell exit peer p fw fv = (InAccept info, fw', fv')" "classify_inbound p = Some (info, Some f)"
    and "live_ssh_nat cell = Some sn" "is_overlay_ip (V6 (sn_v6 sn))" "if_first f"
  shows "\<not> mesh_ssh sn info"
proof -
  have sp: "ssh_port cell = sn_mesh_port sn" using assms(3) by (auto simp: live_ssh_nat_def ssh_port_def split: option.splits if_splits)
  have i: "info = if_info f" using assms(2) by (auto simp: classify_inbound_def split: option.splits)
  from assms(1) show ?thesis
    by (cases rule: evaluate_inbound_accept_cases) (use assms(2,4,5) sp i in \<open>auto simp: mesh_ssh_def is_ssh_fragment_def\<close>)
qed

lemma later_not_tcp:
  assumes "parse_ipv6_fragment p = Some f" "\<not> if_first f"
  shows "protocol (if_info f) \<noteq> 6"
  using parse_ipv6_fragment_SomeD [OF assms(1)] assms(2)
  by (auto simp: chain_ok_def ipv6_fragment_nh_def split: if_splits)

lemma delivered_mesh_ssh:
  assumes ev: "evaluate_inbound now (dp_ssh dp) exit peer p fw fv = (InAccept info, fw', fv')"
    and del: "ToTun q \<in> set (fst (deliver_inbound io rd network info p dp))"
    and sn: "live_ssh_nat (dp_ssh dp) = Some sn" "sn_listen_port sn \<noteq> sn_mesh_port sn" "is_overlay_ip (V6 (sn_v6 sn))"
    and j: "parse_packet_info q = Some j \<or> (\<exists>f. parse_ipv6_fragment q = Some f \<and> if_first f \<and> j = if_info f)"
  shows "\<not> mesh_ssh sn j"
proof -
  from del obtain p1 dp1 p2 where 1: "exit_translate io rd network info p dp = (Some p1, dp1)"
    and 2: "(if dst_ip info = V4 wire_client_addr then client_from_wire p1 else Some p1) = Some p2"
    and q: "q = p2 \<and> \<not> (\<exists>s. live_ssh_nat (dp_ssh dp) = Some s \<and> protocol info = 6 \<and> dst_port info = sn_mesh_port s)
      \<or> (\<exists>r. rewrite_ssh_port p2 info True (dp_ssh dp) = (r, q) \<and> r \<noteq> Truncated)"
    by (rule deliver_inbound_tun) blast
  obtain fr where c: "classify_inbound p = Some (info, fr)" using ev by (auto elim: evaluate_inbound_accept_cases)
  have hit: "r = Rewritten" if "rewrite_ssh_port p info True (dp_ssh dp) = (r, q)" "r \<noteq> Truncated" "mesh_ssh sn info" for r
    using rewrite_ssh_port_hits [OF sn(1), of info p] that by (cases r) (auto simp: mesh_ssh_def)
  from c show ?thesis
  proof (cases rule: classify_family)
    case (v4 s d)
    have "q = p2" using q ssh_not_ours [OF v4(2)] by auto
    then show ?thesis using deliver_v4 [OF 1 v4(3,2) 2] j by (auto simp: mesh_ssh_def)
  next
    case (v6 s d)
    then have p: "p2 = p" using 1 2 by (simp add: exit_translate_def)
    from c show ?thesis
    proof (cases rule: classify_inbound_cases)
      case whole
      have "parse_packet_info q \<noteq> None"
        using q p whole(1) ssh_rewrite_parse(1) [OF whole(1)] rewrite_ssh_port_unchanged by (metis option.distinct(1))
      then have jq: "parse_packet_info q = Some j" using j whole_not_fragment by (cases "parse_packet_info q") auto
      show ?thesis
      proof (cases "mesh_ssh sn info")
        case True
        then obtain r where r: "rewrite_ssh_port p info True (dp_ssh dp) = (Rewritten, q)" using q p hit sn(1) by (auto simp: mesh_ssh_def)
        from ssh_rewrite_parse(1) [OF whole(1) this] jq sn(1,2) show ?thesis by (auto simp: mesh_ssh_def)
      next
        case False
        have "j = info \<or> j = info \<lparr> dst_port := sn_listen_port sn \<rparr>"
        proof (cases "q = p")
          case False
          then obtain r where "rewrite_ssh_port p info True (dp_ssh dp) = (r, q)" using q p by auto
          from ssh_delivered(2) [OF c this jq] sn(1) show ?thesis by auto
        qed (use jq whole(1) in simp)
        with False sn(2) show ?thesis by (auto simp: mesh_ssh_def)
      qed
    next
      case (fragment f)
      have no: "\<not> mesh_ssh sn info"
        using accepted_mesh_ssh [OF ev _ sn(1,3)] c fragment later_not_tcp [OF fragment(2)] by (cases "if_first f") (auto simp: mesh_ssh_def)
      have "rewrite_ssh_port p info True (dp_ssh dp) = (Untouched, p)"
        using no sn(1) by (auto simp: rewrite_ssh_port_def mesh_ssh_def is_ours_def Let_def split: ip_addr.splits)
      then have "q = p" using q p by auto
      then show ?thesis using j fragment no by auto
    qed
  qed
qed

text \<open>C10. With the SSH translation on, nothing a peer sends reaches the port the peers see: no packet the TUN
  is given, whole or a first fragment, is TCP to this node's mesh address and mesh port, so a service of the
  host on that port is not reachable from the mesh.\<close>

theorem delivered_never_to_mesh_port:
  assumes "read_datagram io d rd dp = (out, rd', dp')" "ToTun q \<in> set out"
    and "live_ssh_nat (dp_ssh dp) = Some sn" "sn_listen_port sn \<noteq> sn_mesh_port sn" "is_overlay_ip (V6 (sn_v6 sn))"
    and "parse_packet_info q = Some j \<or> (\<exists>f. parse_ipv6_fragment q = Some f \<and> if_first f \<and> j = if_info f)"
  shows "\<not> (protocol j = 6 \<and> dst_ip j = V6 (sn_v6 sn) \<and> dst_port j = sn_mesh_port sn)"
proof -
  from assms(1,2) obtain h rest network t p r1 where
    judge: "judge_inbound io network p (rd \<lparr> rd_reassembly := r1 \<rparr>) (dp \<lparr> dp_peers := t \<rparr>) = (out, rd', dp')"
    by (rule read_datagram_tun)
  from judge assms(2) obtain peer info fw fv where
      ev: "evaluate_inbound (io_now io) (dp_ssh (dp \<lparr> dp_peers := t, dp_firewall := fw \<rparr>)) (dp_exit dp) peer p (dp_firewall dp) (rd_fragments rd) = (InAccept info, fw, fv)"
    and del: "deliver_inbound io (rd \<lparr> rd_reassembly := r1, rd_fragments := fv \<rparr>) network info p (dp \<lparr> dp_peers := t, dp_firewall := fw \<rparr>) = (out, dp')"
    by (rule judge_inbound_tun) auto
  have "ToTun q \<in> set (fst (deliver_inbound io (rd \<lparr> rd_reassembly := r1, rd_fragments := fv \<rparr>) network info p (dp \<lparr> dp_peers := t, dp_firewall := fw \<rparr>)))"
    using del assms(2) by simp
  from delivered_mesh_ssh [OF ev this _ assms(4-6)] assms(3) show ?thesis by (simp add: mesh_ssh_def)
qed

section \<open>Witnesses\<close>

definition sample_me :: ipv6_addr where "sample_me = 0x02000000000000000000000000000001"
definition sample_peer_ip :: ipv6_addr where "sample_peer_ip = 0x02000000000000000000000000000007"

definition sample_v6_header :: "u8 \<Rightarrow> u8 \<Rightarrow> bytes" where
  "sample_v6_header len nh = [0x60, 0, 0, 0, 0, len, nh, 64, 2, 0, 0, 0, 0, 0, 0, 0, 0, 0, 0, 0, 0, 0, 0, 7,
     2, 0, 0, 0, 0, 0, 0, 0, 0, 0, 0, 0, 0, 0, 0, 1]"

definition sample_syn :: bytes where
  "sample_syn = sample_v6_header 20 6 @ [0x9c, 0x40, 0, 22, 0, 0, 0, 0, 0, 0, 0, 0, 0x50, 2, 0, 0, 0, 0, 0, 0]"

definition sample_syn_info :: packet_info where
  "sample_syn_info = \<lparr> src_ip = V6 sample_peer_ip, dst_ip = V6 sample_me, protocol = 6, src_port = 40000, dst_port = 22, tcp_flags = 2,
     icmp_type = 0, icmp_id = 0, transport_offset = 40 \<rparr>"

lemmas sample_eval = parse_packet_info_def parse_ipv6_def ipv6_upper_layer_def walk_ipv6_chain_def
  max_headers_def chain_loop_numeral chain_match_def get_def ipv6_fragment_nh_def ipv6_ah_def ipv6_tlv_ext_headers_def
  mk_packet_info_def read_port_def read_tcp_flags_def read_icmp_type_def read_icmp_id_def get_range_def slice_def
  v6_src_def v6_dst_def v6_of_octets_def from_be16_def from_be32_def be_nat_def is_icmp_def is_icmp_echo_request_def is_icmp_echo_reply_def
  parse_ipv6_fragment_def read_fragment_header_def carries_upper_header_def

lemma parse_sample_syn: "parse_packet_info sample_syn = Some sample_syn_info"
  by (simp add: sample_syn_def sample_v6_header_def sample_syn_info_def sample_me_def sample_peer_ip_def sample_eval)

definition sample_open :: shared_firewall where
  "sample_open = new_firewall (default_config \<lparr> default_inbound := Allow, rules := [] \<rparr>)"

definition sample_peer :: inbound_peer where
  "sample_peer = \<lparr> in_identity = 9, in_ipv6 = sample_peer_ip, in_network = ''lab'', in_shares = (\<lambda>n. n = ''lab'') \<rparr>"

definition sample_exit :: exit_context where
  "sample_exit = \<lparr> xc_server = new_exit_server, xc_client = None, xc_my_v6 = sample_me \<rparr>"

lemma overlay_me: "is_overlay_ip (V6 sample_me)"
  by (simp add: is_overlay_ip_def sample_me_def drop_bit_eq_div)

lemma open_admits:
  "conntrack_eligible i \<Longrightarrow> fst (firewall_admits now False peer i sample_open)"
  by (simp add: firewall_admits_def evaluate_packet_def sample_open_def new_firewall_def default_config_def match_rule_def
      default_for_def is_deny_def Let_def split: prod.splits)

lemma sample_accepted:
  assumes "in_ipv6 peer = sample_peer_ip"
  shows "\<exists>fw'. evaluate_inbound now cell exit peer sample_syn sample_open fv = (InAccept sample_syn_info, fw', fv)"
proof -
  have "fst (firewall_admits now False peer sample_syn_info sample_open)"
    by (rule open_admits) (simp add: conntrack_eligible_def sample_syn_info_def is_icmp_def)
  then obtain fw' where "firewall_admits now False peer sample_syn_info sample_open = (True, fw')"
    by (cases "firewall_admits now False peer sample_syn_info sample_open") simp
  moreover have "length sample_syn \<le> max_packet" by (simp add: sample_syn_def sample_v6_header_def max_packet_def)
  moreover have "src_ok (in_ipv6 peer) sample_syn_info" "is_overlay_ip (dst_ip sample_syn_info)"
    using overlay_me assms by (simp_all add: src_ok_def sample_syn_info_def)
  ultimately show ?thesis by (simp add: evaluate_inbound_def classify_inbound_def parse_sample_syn)
qed

theorem inbound_accept_safe_witness:
  "\<exists>fw'. evaluate_inbound 5 None sample_exit sample_peer sample_syn sample_open no_verdicts = (InAccept sample_syn_info, fw', no_verdicts) \<and>
     length sample_syn \<le> 1500 \<and> src_ip sample_syn_info = V6 sample_peer_ip"
proof -
  obtain fw' where e: "evaluate_inbound 5 None sample_exit sample_peer sample_syn sample_open no_verdicts = (InAccept sample_syn_info, fw', no_verdicts)"
    using sample_accepted [of sample_peer 5 None sample_exit no_verdicts] by (auto simp: sample_peer_def)
  have "fw_run (new_firewall (default_config \<lparr> default_inbound := Allow, rules := [] \<rparr>)) [] sample_open"
    unfolding sample_open_def by (rule run_nil)
  from inbound_accept_safe [OF e this] e overlay_me show ?thesis
    by (auto simp: sample_syn_info_def sample_peer_def sample_exit_def is_return_from_def)
qed

definition sample_first :: bytes where
  "sample_first = sample_v6_header 16 44 @ [17, 0, 0, 1, 0, 0, 0, 9] @ [0x9c, 0x40, 0, 53, 0, 16, 0, 0]"

definition sample_later :: bytes where
  "sample_later = sample_v6_header 16 44 @ [17, 0, 0, 8, 0, 0, 0, 9] @ [1, 2, 3, 4, 5, 6, 7, 8]"

definition sample_key :: fragment_key where
  "sample_key = \<lparr> fk_src = sample_peer_ip, fk_dst = sample_me, fk_id = 9 \<rparr>"

definition sample_frag_info :: "u8 \<Rightarrow> u16 \<Rightarrow> u16 \<Rightarrow> packet_info" where
  "sample_frag_info proto sp dp = \<lparr> src_ip = V6 sample_peer_ip, dst_ip = V6 sample_me, protocol = proto, src_port = sp, dst_port = dp,
     tcp_flags = 0, icmp_type = 0, icmp_id = 0, transport_offset = 48 \<rparr>"

lemma parse_sample_first:
  "classify_inbound sample_first = Some (sample_frag_info 17 40000 53, Some \<lparr> if_info = sample_frag_info 17 40000 53, if_key = sample_key, if_first = True \<rparr>)"
  by (simp add: classify_inbound_def sample_first_def sample_v6_header_def sample_frag_info_def sample_key_def sample_me_def sample_peer_ip_def sample_eval Let_def)

lemma parse_sample_later:
  "classify_inbound sample_later = Some (sample_frag_info 44 0 0, Some \<lparr> if_info = sample_frag_info 44 0 0, if_key = sample_key, if_first = False \<rparr>)"
  by (simp add: classify_inbound_def sample_later_def sample_v6_header_def sample_frag_info_def sample_key_def sample_me_def sample_peer_ip_def sample_eval Let_def)

lemma sample_frag_info_sel [simp]:
  "src_ip (sample_frag_info p s d) = V6 sample_peer_ip" "dst_ip (sample_frag_info p s d) = V6 sample_me" "protocol (sample_frag_info p s d) = p"
  by (simp_all add: sample_frag_info_def)

theorem later_fragment_follows_first_witness:
  "\<exists>fw fv fw' fv'. evaluate_inbound 0 None sample_exit sample_peer sample_first sample_open no_verdicts = (InAccept (sample_frag_info 17 40000 53), fw, fv) \<and>
     evaluate_inbound 3 None sample_exit sample_peer sample_later sample_open fv = (InAccept (sample_frag_info 44 0 0), fw', fv') \<and>
     (\<exists>u q i g. (u, q, InAccept i) \<in> {(0, sample_first, InAccept (sample_frag_info 17 40000 53))} \<and> parse_ipv6_fragment q = Some g \<and> if_key g = sample_key)"
proof -
  let ?i = "sample_frag_info 17 40000 53" and ?v = "fv_allow sample_key 0 no_verdicts"
  have ok: "src_ok (in_ipv6 sample_peer) (sample_frag_info p s d)" for p s d by (simp add: src_ok_def sample_peer_def)
  have "fst (firewall_admits 0 False sample_peer ?i sample_open)"
    by (rule open_admits) (simp add: conntrack_eligible_def is_icmp_def)
  then obtain fw where f: "firewall_admits 0 False sample_peer ?i sample_open = (True, fw)"
    by (cases "firewall_admits 0 False sample_peer ?i sample_open") simp
  have l: "length sample_first \<le> max_packet" "length sample_later \<le> max_packet"
    by (simp_all add: sample_first_def sample_later_def sample_v6_header_def max_packet_def)
  have 1: "evaluate_inbound 0 None sample_exit sample_peer sample_first sample_open no_verdicts = (InAccept ?i, fw, ?v)"
    using l ok f overlay_me by (simp add: evaluate_inbound_def parse_sample_first is_ssh_fragment_def)
  have "fv_admits sample_key 3 ?v = (True, ?v)"
    by (simp add: fv_admits_def fv_allow_def fv_expire_def no_verdicts_def verdict_ttl_def verdict_capacity_def Let_def)
  then have 2: "evaluate_inbound 3 None sample_exit sample_peer sample_later sample_open ?v = (InAccept (sample_frag_info 44 0 0), sample_open, ?v)"
    using l ok overlay_me by (simp add: evaluate_inbound_def parse_sample_later)
  have t: "inbound_trace ([] @ [(0, sample_first, InAccept ?i)]) 0 ?v"
    by (rule trace_packet [OF trace_start _ 1]) simp
  have p: "parse_ipv6_fragment sample_later = Some \<lparr> if_info = sample_frag_info 44 0 0, if_key = sample_key, if_first = False \<rparr>"
    using parse_sample_later by (auto simp: classify_inbound_def split: option.splits)
  from later_fragment_follows_first [OF t 2 p] 1 2 overlay_me show ?thesis by fastforce
qed

definition sample_conn_in :: conn where
  "sample_conn_in = \<lparr> conn_id = 1, conn_remote = 9, conn_session = 3 \<rparr>"

definition sample_table :: peer_table where
  "sample_table = new_peer_table \<lparr> pt_peers := [(sample_peer_ip, \<lparr> pe_endpoint_id = 9, pe_out_handles = [(''lab'', 1)],
     pe_active = (new_active Standalone 0 sample_conn_in) \<lparr> ac_in_handles := [(1, ''lab'')] \<rparr> \<rparr>)] \<rparr>"

definition sample_dp :: data_plane where
  "sample_dp = \<lparr> dp_active = True, dp_peers = sample_table, dp_firewall = sample_open, dp_exit = sample_exit, dp_users = [],
     dp_ssh = set_ssh_nat_active True (init_ssh_nat sample_me ssh_listen_port None), dp_metrics = no_metrics, dp_next_id = 0 \<rparr>"

definition sample_reader :: reader where
  "sample_reader = \<lparr> rd_peer_id = 9, rd_ipv6 = sample_peer_ip, rd_conn = sample_conn_in, rd_legacy = False,
     rd_reassembly = empty_reassembler, rd_fragments = no_verdicts \<rparr>"

definition sample_io :: path_io where
  "sample_io = \<lparr> io_now = 5, io_secs = 5, io_max = Some 1200, io_saved = True \<rparr>"

lemma sample_ssh_cell:
  "live_ssh_nat (dp_ssh sample_dp) = Some \<lparr> sn_active = True, sn_v6 = sample_me, sn_listen_port = 30022, sn_mesh_port = 22 \<rparr>"
  by (simp add: sample_dp_def live_ssh_nat_def set_ssh_nat_active_def init_ssh_nat_def ssh_listen_port_def default_mesh_port_def)

lemma sample_read:
  "\<exists>q rd' dp'. read_datagram sample_io (tag_datagram 1 sample_syn) sample_reader sample_dp = ([ToTun q], rd', dp') \<and>
     parse_packet_info q = Some (sample_syn_info \<lparr> dst_port := 30022 \<rparr>)"
proof -
  have tag: "tag_datagram 1 sample_syn = [0, 1] @ sample_syn" by (simp add: tag_datagram_def to_be16_def numeral_2_eq_2)
  have len: "length sample_syn = 60" "sample_syn ! 0 = 0x60" by (simp_all add: sample_syn_def sample_v6_header_def)
  have un: "untag_datagram (tag_datagram 1 sample_syn) = Some (1, sample_syn)"
    by (simp add: tag untag_datagram_def tag_len_def from_be16_def be_nat_two)
  have acc: "accept (tag_datagram 1 sample_syn) 5 empty_reassembler = (Inr (Some sample_syn), empty_reassembler)"
    using len by (simp add: tag accept_def tag_len_def max_packet_def from_be16_def be_nat_two)
  obtain t where res: "resolve_inbound 5 sample_peer_ip sample_conn_in 1 sample_table = (Some ''lab'', t)" "pt_local_mtu t = 1280"
    by (simp add: resolve_inbound_def sample_table_def new_peer_table_def peer_at_def active_matches_def new_active_def min_tun_mtu_def set_peer_def)
  define peer where "peer = \<lparr> in_identity = 9, in_ipv6 = sample_peer_ip, in_network = ''lab'', in_shares = \<lambda>name. shares_network_v6 sample_peer_ip name t \<rparr>"
  obtain fw' where ev: "evaluate_inbound 5 (dp_ssh sample_dp) sample_exit peer sample_syn sample_open no_verdicts = (InAccept sample_syn_info, fw', no_verdicts)"
    using sample_accepted [of peer 5 "dp_ssh sample_dp" sample_exit no_verdicts] by (auto simp: peer_def)
  have "\<exists>q. rewrite_ssh_port sample_syn sample_syn_info True (dp_ssh sample_dp) = (Rewritten, q)"
    using len by (simp add: rewrite_ssh_port_def sample_ssh_cell sample_syn_info_def is_ours_def Let_def)
  then obtain q where q: "rewrite_ssh_port sample_syn sample_syn_info True (dp_ssh sample_dp) = (Rewritten, q)" ..
  have i: "dst_ip sample_syn_info = V6 sample_me" "protocol sample_syn_info = 6" "dst_port sample_syn_info = 22"
    by (simp_all add: sample_syn_info_def)
  let ?dp = "sample_dp \<lparr> dp_peers := t, dp_firewall := fw' \<rparr>"
  have "\<exists>dp'. deliver_inbound sample_io sample_reader ''lab'' sample_syn_info sample_syn ?dp = ([ToTun q], dp')"
    using len res(2) q i sample_ssh_cell by (simp add: deliver_inbound_def exit_translate_def deliver_ssh_def)
  then obtain dp' where "deliver_inbound sample_io sample_reader ''lab'' sample_syn_info sample_syn ?dp = ([ToTun q], dp')" ..
  moreover have "judge_inbound sample_io ''lab'' sample_syn sample_reader (sample_dp \<lparr> dp_peers := t \<rparr>) =
      (let (out, dp) = deliver_inbound sample_io sample_reader ''lab'' sample_syn_info sample_syn ?dp in (out, sample_reader, dp))"
    using ev by (simp add: judge_inbound_def sample_io_def sample_reader_def sample_dp_def du_resolve_def peer_def Let_def)
  moreover have "read_datagram sample_io (tag_datagram 1 sample_syn) sample_reader sample_dp =
      judge_inbound sample_io ''lab'' sample_syn sample_reader (sample_dp \<lparr> dp_peers := t \<rparr>)"
    using un acc res(1) len
    by (simp add: read_datagram_def sample_io_def sample_reader_def sample_dp_def max_peer_datagram_def max_packet_def tag_len_def tag)
  moreover have "parse_packet_info q = Some (sample_syn_info \<lparr> dst_port := 30022 \<rparr>)"
    using ssh_rewrite_parse(1) [OF parse_sample_syn q] sample_ssh_cell by auto
  ultimately show ?thesis by auto
qed

theorem delivered_source_traceable_witness:
  "\<exists>q rd' dp' j fr. read_datagram sample_io (tag_datagram 1 sample_syn) sample_reader sample_dp = ([ToTun q], rd', dp') \<and>
     classify_inbound q = Some (j, fr) \<and> length q \<le> 1280 \<and>
     (src_ip j = V6 sample_peer_ip \<or> (\<exists>a. src_ip j = V4 a))"
proof -
  obtain q rd' dp' where r: "read_datagram sample_io (tag_datagram 1 sample_syn) sample_reader sample_dp = ([ToTun q], rd', dp')"
    "parse_packet_info q = Some (sample_syn_info \<lparr> dst_port := 30022 \<rparr>)" using sample_read by blast
  have "nat_ok (es_ipv4 (xc_server (dp_exit sample_dp)))"
    by (simp add: sample_dp_def sample_exit_def new_exit_server_def nat_ok_empty)
  from delivered_source_traceable [OF r(1) _ this] r show ?thesis
    by (fastforce simp: sample_dp_def sample_table_def new_peer_table_def min_tun_mtu_def sample_exit_def is_return_from_def sample_reader_def)
qed

theorem delivered_never_to_mesh_port_witness:
  "\<exists>q rd' dp' j. read_datagram sample_io (tag_datagram 1 sample_syn) sample_reader sample_dp = ([ToTun q], rd', dp') \<and>
     parse_packet_info q = Some j \<and> \<not> (protocol j = 6 \<and> dst_ip j = V6 sample_me \<and> dst_port j = 22)"
proof -
  obtain q rd' dp' where r: "read_datagram sample_io (tag_datagram 1 sample_syn) sample_reader sample_dp = ([ToTun q], rd', dp')"
    "parse_packet_info q = Some (sample_syn_info \<lparr> dst_port := 30022 \<rparr>)" using sample_read by blast
  have q: "ToTun q \<in> set [ToTun q]" by simp
  from delivered_never_to_mesh_port [OF r(1) q sample_ssh_cell, of "sample_syn_info \<lparr> dst_port := 30022 \<rparr>"] r overlay_me show ?thesis by auto
qed

end
