(* ===== verification/Outbound.thy ===== *)
theory Outbound
  imports Inbound Lazy_Dial
begin

text \<open>
  The sending half of the data path in \<open>src/src/forward.rs\<close>: choosing the peer (\<open>dial_dst\<close>,
  \<open>resolve_send_route\<close>), turning a packet into datagrams (\<open>prepare_datagrams\<close>), sending them (\<open>send_routed\<close>,
  \<open>send_batch\<close>, \<open>send_fragment\<close>), the TUN read loop \<open>run_with_pending\<close> with its on-demand dials
  (\<open>flush_or_drop\<close>), the TUN writer and its log budget. The fair-queueing sender of a connection is a sink
  here (its queue is in \<open>Fq_Codel\<close>), as is the resolver. What a connection answers (its datagram limit, its
  protocol version, how many datagrams it queued) is an argument per route. The branch for suspended mobile
  transports is left out, and the channel to the TUN writer is taken to be open. A loop that runs without a
  registry (\<open>dialer = None\<close>) has a data plane with no exit selection, the default the code starts from.
\<close>

section \<open>Definitions\<close>

subsection \<open>Routing\<close>

definition dial_dst :: "exit_client \<Rightarrow> ip_addr \<Rightarrow> ip_addr option" where
  "dial_dst client dst =
     (if is_overlay_ip dst then Some dst
      else case client of
          None \<Rightarrow> None
        | Some sel \<Rightarrow> if carries (x_carries sel) dst then Some (V6 (x_ipv6 sel)) else None)"

definition resolve_send_route :: "peer_table \<Rightarrow> exit_client \<Rightarrow> ip_addr \<Rightarrow> peer_route option" where
  "resolve_send_route t client dst =
     (if is_overlay_ip dst then (case dst of V6 v6 \<Rightarrow> lookup_v6 v6 t | V4 _ \<Rightarrow> None)
      else case client of
          None \<Rightarrow> None
        | Some sel \<Rightarrow> if carries (x_carries sel) dst then route_on_network (x_ipv6 sel) (x_network sel) t else None)"

definition resolve_route :: "roster_route_map \<Rightarrow> ip_addr \<Rightarrow> endpoint_id option" where
  "resolve_route m dst = (case dst of V6 v6 \<Rightarrow> map_option fst (resolve_v6 v6 m) | V4 _ \<Rightarrow> None)"

subsection \<open>Datagrams\<close>

datatype admission = Judge | Admitted

record send_io =
  si_max :: "nat option"
  si_legacy :: bool
  si_queued :: "nat option"

definition set_metrics :: "(forward_metrics \<Rightarrow> forward_metrics) \<Rightarrow> data_plane \<Rightarrow> data_plane" where
  "set_metrics f dp = dp \<lparr> dp_metrics := f (dp_metrics dp) \<rparr>"

definition inject :: "bytes option \<Rightarrow> path_out list" where
  "inject reply = (case reply of Some r \<Rightarrow> [ToTun r] | None \<Rightarrow> [])"

text \<open>The outbound firewall check and the answer to the local application when it denies.\<close>

definition judge_outbound ::
    "instant \<Rightarrow> peer_route \<Rightarrow> packet_info \<Rightarrow> bytes \<Rightarrow> admission \<Rightarrow> data_plane \<Rightarrow> bool \<times> path_out list \<times> data_plane" where
  "judge_outbound now route info pkt adm dp =
     (if adm = Admitted then (True, [], dp)
      else let (a, fw) = evaluate_packet Out info (pr_endpoint_id route)
                           (\<lambda>network. shares_network_v6 (pr_ipv6 route) network (dp_peers dp)) now (dp_firewall dp);
               dp = dp \<lparr> dp_firewall := fw \<rparr>
           in if \<not> is_deny a then (True, [], dp)
              else let dp = count_drop FirewallDrop dp in
                case (if cfg_rejects_denied (ssh_port (dp_ssh dp)) (inner (dp_firewall dp)) info then build_reject pkt info else None) of
                    Some reply \<Rightarrow> (False, [ToTun reply], set_metrics record_reject dp)
                  | None \<Rightarrow> (False, [], dp))"

text \<open>The size checks against the receiver, the path and the framing; \<open>None\<close> when the packet fits.\<close>

definition refuse_size :: "send_io \<Rightarrow> peer_route \<Rightarrow> packet_info \<Rightarrow> bytes \<Rightarrow> (drop_reason \<times> path_out list) option" where
  "refuse_size io route info pkt =
     (if length pkt > unat (pr_receive_mtu route)
      then Some (PacketTooBig, inject (build_packet_too_big pkt info (pr_receive_mtu route)))
      else case si_max io of
          None \<Rightarrow> Some (SendFailure, [])
        | Some mx \<Rightarrow>
            if si_legacy io \<and> length pkt + tag_len > mx
            then Some (PacketTooBig, inject (build_packet_too_big pkt info (word_of_nat (mx - tag_len))))
            else if wire_size (length pkt) mx = None then Some (PacketTooBig, [])
            else None)"

text \<open>The translations done last: the SSH source port and the client's exit address.\<close>

definition translate_outbound :: "ssh_cell \<Rightarrow> packet_info \<Rightarrow> bytes \<Rightarrow> bytes option" where
  "translate_outbound cell info pkt =
     Option.bind
       (case live_ssh_nat cell of
          Some s \<Rightarrow>
            if protocol info = 6 \<and> src_port info = sn_listen_port s then
              (let (r, v) = rewrite_ssh_port pkt info False cell in if r = Truncated then None else Some v)
            else Some pkt
        | None \<Rightarrow> Some pkt)
       (\<lambda>pkt. if src_ip info = V4 local_client_addr then client_to_wire pkt else Some pkt)"

definition frame_outbound :: "send_io \<Rightarrow> u16 \<Rightarrow> bytes \<Rightarrow> data_plane \<Rightarrow> encoded option \<times> data_plane" where
  "frame_outbound io h pkt dp =
     (if si_legacy io then (Some (Whole (tag_datagram h pkt)), dp)
      else let (e, next_id) = encode (dp_next_id dp) h pkt (case si_max io of Some mx \<Rightarrow> mx | None \<Rightarrow> 0)
           in (e, dp \<lparr> dp_next_id := next_id \<rparr>))"

definition prepare_datagrams ::
    "instant \<Rightarrow> send_io \<Rightarrow> peer_route \<Rightarrow> packet_info \<Rightarrow> bytes \<Rightarrow> admission \<Rightarrow> data_plane \<Rightarrow>
     encoded option \<times> path_out list \<times> data_plane" where
  "prepare_datagrams now io route info pkt adm dp =
     (if \<not> dp_active dp then (None, [], dp)
      else if (case dst_ip info of V4 _ \<Rightarrow> True | V6 _ \<Rightarrow> False) \<and> refuses_exit_ipv4 route then (None, [], count_drop NoPeer dp)
      else let (pass, out, dp) = judge_outbound now route info pkt adm dp in
        if \<not> pass then (None, out, dp)
        else case refuse_size io route info pkt of
            Some (reason, out) \<Rightarrow> (None, out, count_drop reason dp)
          | None \<Rightarrow>
              (case translate_outbound (dp_ssh dp) info pkt of
                 None \<Rightarrow> (None, [], count_drop Malformed dp)
               | Some pkt \<Rightarrow>
                   if pr_handle route = 0 then (None, [], count_drop NoPeer dp)
                   else let (e, dp) = frame_outbound io (pr_handle route) pkt dp in (e, [], dp)))"

subsection \<open>Sending\<close>

definition note_activity :: "nat \<Rightarrow> peer_route \<Rightarrow> peer_table \<Rightarrow> peer_table" where
  "note_activity now route = update_current (pr_ipv6 route) (pr_conn route) (edit_active (\<lambda>a. a \<lparr> ac_last_active := now \<rparr>))"

definition count_packet :: "nat \<Rightarrow> nat \<times> nat \<Rightarrow> forward_metrics \<Rightarrow> forward_metrics" where
  "count_packet queued pk = (if fst pk \<le> queued then record_tx (snd pk) else record_drop SendFailure)"

definition send_batch ::
    "instant \<Rightarrow> send_io \<Rightarrow> peer_route \<Rightarrow> bytes list \<Rightarrow> (nat \<times> nat) list \<Rightarrow> data_plane \<Rightarrow> path_out list \<times> data_plane" where
  "send_batch now io route batch packets dp =
     (if batch = [] \<or> \<not> dp_active dp then ([], dp)
      else case si_queued io of
          Some queued \<Rightarrow>
            let dp = set_metrics (fold (count_packet queued) packets) dp in
            if queued > 0 then ([ToPeer (pr_conn route) (take queued batch)], dp \<lparr> dp_peers := note_activity now route (dp_peers dp) \<rparr>)
            else ([], dp)
        | None \<Rightarrow> ([], set_metrics (fold (\<lambda>_. record_drop SendFailure) packets) dp))"

definition send_routed ::
    "instant \<Rightarrow> (peer_route \<Rightarrow> send_io) \<Rightarrow> peer_route \<Rightarrow> packet_info \<Rightarrow> bytes \<Rightarrow> admission \<Rightarrow> data_plane \<Rightarrow>
     bool \<times> path_out list \<times> data_plane" where
  "send_routed now io route info pkt adm dp =
     (case prepare_datagrams now (io route) route info pkt adm dp of
        (None, out, dp) \<Rightarrow> (False, out, dp)
      | (Some e, out, dp) \<Rightarrow>
          if pr_scheduler route then (True, out @ [ToScheduler (pr_conn route) info (pr_handle route) e (length pkt)], dp)
          else let ds = datagrams e; (sent, dp) = send_batch now (io route) route ds [(length ds, length pkt)] dp
               in (True, out @ sent, dp))"

definition send_over_route ::
    "instant \<Rightarrow> (peer_route \<Rightarrow> send_io) \<Rightarrow> peer_route \<Rightarrow> packet_info \<Rightarrow> bytes \<Rightarrow> data_plane \<Rightarrow> path_out list \<times> data_plane" where
  "send_over_route now io route info pkt dp = snd (send_routed now io route info pkt Judge dp)"

definition send_fragment ::
    "instant \<Rightarrow> (peer_route \<Rightarrow> send_io) \<Rightarrow> ipv6_fragment \<Rightarrow> bytes \<Rightarrow> fragment_verdicts \<Rightarrow> data_plane \<Rightarrow>
     path_out list \<times> fragment_verdicts \<times> data_plane" where
  "send_fragment now io f pkt verdicts dp =
     (case resolve_send_route (dp_peers dp) (xc_client (dp_exit dp)) (dst_ip (if_info f)) of
        None \<Rightarrow> ([], verdicts, count_drop NoPeer dp)
      | Some route \<Rightarrow>
          if if_first f then
            let (ok, out, dp) = send_routed now io route (if_info f) pkt Judge dp
            in (out, if ok then fv_allow (if_key f) now verdicts else verdicts, dp)
          else let (ok, verdicts) = fv_admits (if_key f) now verdicts in
            if ok then let (_, out, dp) = send_routed now io route (if_info f) pkt Admitted dp in (out, verdicts, dp)
            else ([], verdicts, count_drop FirewallDrop dp))"

definition flush_packet :: "instant \<Rightarrow> (peer_route \<Rightarrow> send_io) \<Rightarrow> bytes \<Rightarrow> data_plane \<Rightarrow> path_out list \<times> data_plane" where
  "flush_packet now io pkt dp =
     (case parse_packet_info pkt of
        None \<Rightarrow> ([], count_drop Malformed dp)
      | Some info \<Rightarrow>
          (case resolve_send_route (dp_peers dp) (xc_client (dp_exit dp)) (dst_ip info) of
             None \<Rightarrow> ([], count_drop NoPeer dp)
           | Some route \<Rightarrow> send_over_route now io route info pkt dp))"

fun flush_all :: "instant \<Rightarrow> (peer_route \<Rightarrow> send_io) \<Rightarrow> bytes list \<Rightarrow> data_plane \<Rightarrow> path_out list \<times> data_plane" where
  "flush_all now io [] dp = ([], dp)"
| "flush_all now io (p # ps) dp = (let (out, dp) = flush_packet now io p dp; (rest, dp) = flush_all now io ps dp in (out @ rest, dp))"

definition flush_or_drop ::
    "instant \<Rightarrow> (peer_route \<Rightarrow> send_io) \<Rightarrow> bool \<Rightarrow> bytes list \<Rightarrow> data_plane \<Rightarrow> path_out list \<times> data_plane" where
  "flush_or_drop now io connected pkts dp =
     (if \<not> dp_active dp then ([], dp)
      else if \<not> connected then ([], count_drops (length pkts) NoPeer dp)
      else flush_all now io pkts dp)"

subsection \<open>The TUN read loop\<close>

definition dns_queries_max_in_flight :: nat where "dns_queries_max_in_flight = 64"

definition is_magic_dns :: "packet_info \<Rightarrow> bool" where
  "is_magic_dns info \<longleftrightarrow> (protocol info = 6 \<or> protocol info = 17) \<and> dst_port info = 53 \<and> dst_ip info = V6 magic_dns_v6"

record mesh_loop =
  lp_buffered :: lazy_dial_buffers
  lp_in_flight :: "endpoint_id set"
  lp_fragments :: fragment_verdicts
  lp_dns :: nat

definition new_mesh_loop :: mesh_loop where
  "new_mesh_loop = \<lparr> lp_buffered = no_buffers, lp_in_flight = {}, lp_fragments = no_verdicts, lp_dns = 0 \<rparr>"

text \<open>The peer a gateway's IPv4 return goes to, if it still may use the exit.\<close>

definition return_route :: "bool \<Rightarrow> ipv4_addr \<Rightarrow> data_plane \<Rightarrow> peer_route option" where
  "return_route dialer dst dp =
     (if \<not> dialer then None
      else case return_lease dst (es_ipv4 (xc_server (dp_exit dp))) of
          None \<Rightarrow> None
        | Some l \<Rightarrow>
            (case route_on_network (l_peer l) (l_network l) (dp_peers dp) of
               None \<Rightarrow> None
             | Some route \<Rightarrow>
                 if es_allows (l_network l) (du_resolve (dp_users dp) (pr_endpoint_id route)) (xc_server (dp_exit dp))
                 then Some route else None))"

definition send_return :: "instant \<Rightarrow> (peer_route \<Rightarrow> send_io) \<Rightarrow> bool \<Rightarrow> ipv4_addr \<Rightarrow> packet_info \<Rightarrow> bytes \<Rightarrow> data_plane \<Rightarrow> path_out list \<times> data_plane" where
  "send_return now io dialer dst info pkt dp =
     (case return_route dialer dst dp of
        None \<Rightarrow> ([], count_drop ExitDenied dp)
      | Some route \<Rightarrow>
          if \<not> is_transitable (src_ip info) then ([], count_drop Spoof dp)
          else case rewrite_v4 pkt dst wire_client_addr of
              None \<Rightarrow> ([], count_drop Malformed dp)
            | Some pkt \<Rightarrow> send_over_route now io route (info \<lparr> dst_ip := V4 wire_client_addr \<rparr>) pkt dp)"

definition lazy_dial ::
    "roster_route_map option \<Rightarrow> packet_info \<Rightarrow> bytes \<Rightarrow> mesh_loop \<Rightarrow> data_plane \<Rightarrow> path_out list \<times> mesh_loop \<times> data_plane" where
  "lazy_dial dialer info pkt lp dp =
     (case Option.bind dialer (\<lambda>m. Option.bind (dial_dst (xc_client (dp_exit dp)) (dst_ip info)) (resolve_route m)) of
        None \<Rightarrow> ([], lp, count_drop NoPeer dp)
      | Some peer \<Rightarrow>
          if peer \<notin> lp_in_flight lp \<and> card (lp_in_flight lp) \<ge> max_in_flight then ([], lp, count_drop LazyDialConcurrency dp)
          else let (kept, b) = ld_push peer pkt (lp_buffered lp);
                   dp = (if kept then dp else count_drop LazyDialBufferFull dp);
                   out = (if peer \<in> lp_in_flight lp then [] else [StartDial peer])
               in (out, lp \<lparr> lp_buffered := b, lp_in_flight := insert peer (lp_in_flight lp) \<rparr>, dp))"

definition forward_packet ::
    "instant \<Rightarrow> (peer_route \<Rightarrow> send_io) \<Rightarrow> ipv6_addr \<Rightarrow> roster_route_map option \<Rightarrow> packet_info \<Rightarrow> bytes \<Rightarrow> mesh_loop \<Rightarrow> data_plane \<Rightarrow>
     path_out list \<times> mesh_loop \<times> data_plane" where
  "forward_packet now io local dialer info pkt lp dp =
     (if src_ip info = V6 local \<and> dst_ip info = V6 local then ([ToTun pkt], lp, dp)
      else case (case dst_ip info of V4 dst \<Rightarrow> if is_server_addr dst then Some dst else None | V6 _ \<Rightarrow> None) of
          Some dst \<Rightarrow> let (out, dp) = send_return now io (dialer \<noteq> None) dst info pkt dp in (out, lp, dp)
        | None \<Rightarrow>
            if is_magic_dns info then
              (if lp_dns lp \<ge> dns_queries_max_in_flight then ([], lp, count_drop DnsConcurrency dp)
               else ([AskResolver pkt info], lp \<lparr> lp_dns := lp_dns lp + 1 \<rparr>, dp))
            else if dst_ip info = V6 magic_dns_v6 then (inject (build_echo_reply pkt info), lp, dp)
            else case resolve_send_route (dp_peers dp) (xc_client (dp_exit dp)) (dst_ip info) of
                None \<Rightarrow> lazy_dial dialer info pkt lp dp
              | Some route \<Rightarrow> let (out, dp) = send_over_route now io route info pkt dp in (out, lp, dp))"

datatype loop_event =
    TunPacket bytes
  | TunUnreadable
  | DialDone endpoint_id bool
  | ResolverDone

definition loop_step ::
    "instant \<Rightarrow> (peer_route \<Rightarrow> send_io) \<Rightarrow> ipv6_addr \<Rightarrow> roster_route_map option \<Rightarrow> loop_event \<Rightarrow> mesh_loop \<Rightarrow> data_plane \<Rightarrow>
     path_out list \<times> mesh_loop \<times> data_plane" where
  "loop_step now io local dialer ev lp dp =
     (case ev of
        TunUnreadable \<Rightarrow> ([], lp, count_drop TunRead dp)
      | ResolverDone \<Rightarrow> ([], lp \<lparr> lp_dns := lp_dns lp - 1 \<rparr>, dp)
      | DialDone peer connected \<Rightarrow>
          let (pkts, b) = ld_take peer (lp_buffered lp);
              lp = lp \<lparr> lp_buffered := b, lp_in_flight := lp_in_flight lp - {peer} \<rparr>;
              (out, dp) = flush_or_drop now io connected pkts dp
          in (out, lp, dp)
      | TunPacket pkt \<Rightarrow>
          if \<not> dp_active dp \<or> pkt = [] \<or> is_link_scoped_v6 pkt then ([], lp, dp)
          else case parse_packet_info pkt of
              None \<Rightarrow>
                (case parse_ipv6_fragment pkt of
                   Some f \<Rightarrow> let (out, v, dp) = send_fragment now io f pkt (lp_fragments lp) dp in (out, lp \<lparr> lp_fragments := v \<rparr>, dp)
                 | None \<Rightarrow> ([], lp, count_drop Malformed dp))
            | Some info \<Rightarrow> forward_packet now io local dialer info pkt lp dp)"

subsection \<open>The TUN writer\<close>

record log_budget =
  lb_interval :: duration
  lb_last :: "instant option"
  lb_suppressed :: nat

definition write_error_log_interval :: duration where "write_error_log_interval = secs 10"

definition new_log_budget :: "duration \<Rightarrow> log_budget" where
  "new_log_budget interval = \<lparr> lb_interval = interval, lb_last = None, lb_suppressed = 0 \<rparr>"

definition log_allow :: "instant \<Rightarrow> log_budget \<Rightarrow> nat option \<times> log_budget" where
  "log_allow now b =
     (if (case lb_last b of Some seen \<Rightarrow> now - seen < lb_interval b | None \<Rightarrow> False)
      then (None, b \<lparr> lb_suppressed := lb_suppressed b + 1 \<rparr>)
      else (Some (lb_suppressed b), b \<lparr> lb_last := Some now, lb_suppressed := 0 \<rparr>))"

fun write_batch :: "instant \<Rightarrow> nat \<Rightarrow> bytes list \<Rightarrow> log_budget \<Rightarrow> data_plane \<Rightarrow> bytes list \<times> log_budget \<times> data_plane" where
  "write_batch now mtu [] b dp = ([], b, dp)"
| "write_batch now mtu (p # ps) b dp =
     (if \<not> dp_active dp then write_batch now mtu ps b dp
      else if length p > mtu then write_batch now mtu ps (snd (log_allow now b)) (count_drop PacketTooBig dp)
      else let (batch, b, dp) = write_batch now mtu ps b dp in (p # batch, b, dp))"

section \<open>What is sent\<close>

text \<open>\<open>sends c out\<close>: the output hands datagrams to connection \<open>c\<close>, at once or through its sender.\<close>

fun sends :: "conn \<Rightarrow> path_out \<Rightarrow> bool" where
  "sends c (ToPeer c' ds) \<longleftrightarrow> c' = c"
| "sends c (ToScheduler c' info h e n) \<longleftrightarrow> c' = c"
| "sends c _ \<longleftrightarrow> False"

lemma judge_outbound_out: "o' \<in> set (fst (snd (judge_outbound now route info pkt adm dp))) \<Longrightarrow> \<not> sends c o'"
  by (auto simp: judge_outbound_def Let_def split: prod.splits option.splits if_splits)

lemma judge_outbound_pass:
  assumes "judge_outbound now route info pkt adm dp = (True, out, dp')"
  shows "out = []" "dp_ssh dp' = dp_ssh dp" "dp_active dp' = dp_active dp" "dp_peers dp' = dp_peers dp" "dp_exit dp' = dp_exit dp"
    and "dp_next_id dp' = dp_next_id dp"
    and "adm = Admitted \<or> fst (evaluate_packet Out info (pr_endpoint_id route)
           (\<lambda>network. shares_network_v6 (pr_ipv6 route) network (dp_peers dp)) now (dp_firewall dp)) = Allow"
  using assms by (auto simp: judge_outbound_def is_deny_def Let_def split: prod.splits option.splits if_splits intro: action.exhaust)

lemma refuse_size_out: "refuse_size io route info pkt = Some (r, out) \<Longrightarrow> o' \<in> set out \<Longrightarrow> \<not> sends c o'"
  by (auto simp: refuse_size_def inject_def split: if_splits option.splits)

lemma prepare_datagrams_out: "o' \<in> set (fst (snd (prepare_datagrams now io route info pkt adm dp))) \<Longrightarrow> \<not> sends c o'"
  using judge_outbound_out [of o' now route info pkt adm dp c]
  by (auto simp: prepare_datagrams_def Let_def split: prod.splits option.splits if_splits dest: refuse_size_out)

lemma prepare_datagrams_SomeD:
  assumes "prepare_datagrams now io route info pkt adm dp = (Some e, out, dp')"
  obtains q where "dp_active dp" "out = []" "pr_handle route \<noteq> 0" "refuse_size io route info pkt = None"
    "translate_outbound (dp_ssh dp) info pkt = Some q"
    "adm = Admitted \<or> fst (evaluate_packet Out info (pr_endpoint_id route)
           (\<lambda>network. shares_network_v6 (pr_ipv6 route) network (dp_peers dp)) now (dp_firewall dp)) = Allow"
    "if si_legacy io then e = Whole (tag_datagram (pr_handle route) q)
     else \<exists>mx n. si_max io = Some mx \<and> encode (dp_next_id dp) (pr_handle route) q mx = (Some e, n)"
    "dp_active dp'" "dp_peers dp' = dp_peers dp" "dp_exit dp' = dp_exit dp"
proof -
  have act: "dp_active dp" and ex: "\<not> ((case dst_ip info of V4 _ \<Rightarrow> True | V6 _ \<Rightarrow> False) \<and> refuses_exit_ipv4 route)"
    using assms by (auto simp: prepare_datagrams_def split: if_splits)
  obtain pass out1 dp1 where j: "judge_outbound now route info pkt adm dp = (pass, out1, dp1)" by (metis prod_cases3)
  have pass: "pass" using assms act ex j by (auto simp: prepare_datagrams_def split: if_splits)
  note jp = judge_outbound_pass [OF j [unfolded pass [THEN eqTrueI]]]
  have size: "refuse_size io route info pkt = None"
    using assms act ex j pass by (auto simp: prepare_datagrams_def split: if_splits option.splits)
  obtain q where q: "translate_outbound (dp_ssh dp) info pkt = Some q" and h: "pr_handle route \<noteq> 0"
    and f: "frame_outbound io (pr_handle route) q dp1 = (Some e, dp')" "out = []"
    using assms act ex j pass size jp(2) by (auto simp: prepare_datagrams_def split: if_splits option.splits prod.splits)
  have mx: "\<exists>mx. si_max io = Some mx" using size by (auto simp: refuse_size_def split: if_splits option.splits)
  have "if si_legacy io then e = Whole (tag_datagram (pr_handle route) q)
     else \<exists>mx n. si_max io = Some mx \<and> encode (dp_next_id dp) (pr_handle route) q mx = (Some e, n)"
    using f(1) mx jp(6) by (auto simp: frame_outbound_def split: prod.splits)
  moreover have "dp_active dp'" "dp_peers dp' = dp_peers dp" "dp_exit dp' = dp_exit dp"
    using f(1) jp act by (auto simp: frame_outbound_def Let_def split: prod.splits if_splits)
  ultimately show ?thesis using that act f(2) h size q jp(7) by blast
qed

lemma translate_outbound_length: "translate_outbound cell info p = Some q \<Longrightarrow> length q = length p"
  by (auto simp: translate_outbound_def client_to_wire_def bind_eq_Some_conv Let_def split: option.splits if_splits prod.splits
      dest!: rewrite_v4_header(2) rewrite_ssh_port_length)

text \<open>What \<open>send_routed\<close> may hand to a connection.\<close>

definition may_send :: "instant \<Rightarrow> send_io \<Rightarrow> peer_route \<Rightarrow> packet_info \<Rightarrow> admission \<Rightarrow> data_plane \<Rightarrow> bool" where
  "may_send now io route info adm dp \<longleftrightarrow>
     dp_active dp \<and> pr_handle route \<noteq> 0 \<and>
     (adm = Admitted \<or> fst (evaluate_packet Out info (pr_endpoint_id route)
        (\<lambda>network. shares_network_v6 (pr_ipv6 route) network (dp_peers dp)) now (dp_firewall dp)) = Allow)"

fun fits :: "nat \<Rightarrow> path_out \<Rightarrow> bool" where
  "fits mx (ToPeer c ds) \<longleftrightarrow> (\<forall>d \<in> set ds. length d \<le> mx)"
| "fits mx (ToScheduler c info h e n) \<longleftrightarrow> (\<forall>d \<in> set (datagrams e). length d \<le> mx)"
| "fits mx _ \<longleftrightarrow> True"

lemma send_routed_sends:
  assumes "send_routed now io route info pkt adm dp = (ok, out, dp')" "x \<in> set out" "sends c x"
  shows "c = pr_conn route" "may_send now (io route) route info adm dp" "\<exists>mx. si_max (io route) = Some mx \<and> fits mx x"
    and "\<exists>e out1 dp1. prepare_datagrams now (io route) route info pkt adm dp = (Some e, out1, dp1) \<and> set out1 = {}"
proof -
  obtain e' out1 dp1 where p: "prepare_datagrams now (io route) route info pkt adm dp = (e', out1, dp1)" by (metis prod_cases3)
  have no: "x \<notin> set out1" using prepare_datagrams_out [of x now "io route" route info pkt adm dp c] assms(3) p by auto
  obtain e where e: "e' = Some e" using assms p no by (cases e') (auto simp: send_routed_def)
  note p = p [unfolded e]
  from p obtain q where q: "dp_active dp" "out1 = []" "pr_handle route \<noteq> 0" "refuse_size (io route) route info pkt = None"
    "translate_outbound (dp_ssh dp) info pkt = Some q"
    "adm = Admitted \<or> fst (evaluate_packet Out info (pr_endpoint_id route)
           (\<lambda>network. shares_network_v6 (pr_ipv6 route) network (dp_peers dp)) now (dp_firewall dp)) = Allow"
    "if si_legacy (io route) then e = Whole (tag_datagram (pr_handle route) q)
     else \<exists>mx n. si_max (io route) = Some mx \<and> encode (dp_next_id dp) (pr_handle route) q mx = (Some e, n)"
    by (rule prepare_datagrams_SomeD)
  have x: "x = ToScheduler (pr_conn route) info (pr_handle route) e (length pkt) \<or> (\<exists>k. x = ToPeer (pr_conn route) (take k (datagrams e)))"
    using assms(1,2) p q(2) by (auto simp: send_routed_def send_batch_def Let_def split: if_splits option.splits prod.splits)
  then show "c = pr_conn route" using assms(3) by auto
  show "may_send now (io route) route info adm dp" using q by (simp add: may_send_def)
  obtain mx where mx: "si_max (io route) = Some mx" "si_legacy (io route) \<Longrightarrow> length pkt + tag_len \<le> mx"
    using q(4) by (auto simp: refuse_size_def split: if_splits option.splits)
  have "\<forall>d \<in> set (datagrams e). length d \<le> mx"
    using q(7) mx encode_fits translate_outbound_length [OF q(5)]
    by (auto simp: datagrams_def tag_datagram_def tag_len_def split: if_splits)
  then show "\<exists>mx. si_max (io route) = Some mx \<and> fits mx x" using mx(1) x set_take_subset by fastforce
  show "\<exists>e out1 dp1. prepare_datagrams now (io route) route info pkt adm dp = (Some e, out1, dp1) \<and> set out1 = {}" using p q(2) by simp
qed

text \<open>Where a packet from the TUN may go: to the peer at its mesh destination, through the exit this node
  chose, or back to the holder of the lease it was translated to.\<close>

definition rightful_route :: "data_plane \<Rightarrow> packet_info \<Rightarrow> peer_route \<Rightarrow> bool" where
  "rightful_route dp info route \<longleftrightarrow>
     (\<exists>v6. dst_ip info = V6 v6 \<and> is_overlay_ip (V6 v6) \<and> lookup_v6 v6 (dp_peers dp) = Some route) \<or>
     (\<not> is_overlay_ip (dst_ip info) \<and> (\<exists>sel. xc_client (dp_exit dp) = Some sel \<and> carries (x_carries sel) (dst_ip info) \<and>
        route_on_network (x_ipv6 sel) (x_network sel) (dp_peers dp) = Some route)) \<or>
     (\<exists>dst l. dst_ip info = V4 dst \<and> is_server_addr dst \<and> return_lease dst (es_ipv4 (xc_server (dp_exit dp))) = Some l \<and>
        route_on_network (l_peer l) (l_network l) (dp_peers dp) = Some route \<and>
        es_allows (l_network l) (du_resolve (dp_users dp) (pr_endpoint_id route)) (xc_server (dp_exit dp)))"

lemma resolve_send_route_rightful:
  "resolve_send_route (dp_peers dp) (xc_client (dp_exit dp)) (dst_ip info) = Some route \<Longrightarrow> rightful_route dp info route"
  by (auto simp: resolve_send_route_def rightful_route_def split: if_splits ip_addr.splits option.splits)

lemma return_route_rightful:
  assumes "return_route dialer dst dp = Some route" "dst_ip info = V4 dst" "is_server_addr dst"
  shows "rightful_route dp info route"
  using assms by (auto simp: return_route_def rightful_route_def split: if_splits option.splits)

lemma send_fragment_sends:
  assumes "send_fragment now io f pkt v dp = (out, v', dp')" "x \<in> set out" "sends c x"
  obtains route adm where "rightful_route dp (if_info f) route" "c = pr_conn route" "may_send now (io route) route (if_info f) adm dp"
    "\<exists>mx. si_max (io route) = Some mx \<and> fits mx x" "adm = Judge \<or> \<not> if_first f \<and> fst (fv_admits (if_key f) now v)"
proof -
  obtain route where r: "resolve_send_route (dp_peers dp) (xc_client (dp_exit dp)) (dst_ip (if_info f)) = Some route"
    using assms by (auto simp: send_fragment_def split: option.splits)
  obtain adm ok dp'' where s: "send_routed now io route (if_info f) pkt adm dp = (ok, out, dp'')"
    and adm: "adm = Judge \<or> \<not> if_first f \<and> fst (fv_admits (if_key f) now v)"
    using assms r by (auto simp: send_fragment_def Let_def split: if_splits prod.splits)
  show ?thesis using that [OF resolve_send_route_rightful [OF r]] send_routed_sends [OF s assms(2,3)] adm by blast
qed

lemma send_over_route_sends:
  assumes "send_over_route now io route info pkt dp = (out, dp')" "x \<in> set out" "sends c x"
  shows "c = pr_conn route" "may_send now (io route) route info Judge dp" "\<exists>mx. si_max (io route) = Some mx \<and> fits mx x"
  using send_routed_sends [OF _ assms(2,3), of now io route info pkt Judge dp "fst (send_routed now io route info pkt Judge dp)" dp'] assms(1)
  by (simp_all add: send_over_route_def prod_eq_iff)

text \<open>What the firewall is shown of a packet: a gateway's return is judged with the address it has on the mesh.\<close>

definition wire_info :: "packet_info \<Rightarrow> packet_info" where
  "wire_info info = (case dst_ip info of
     V4 dst \<Rightarrow> if is_server_addr dst then info \<lparr> dst_ip := V4 wire_client_addr \<rparr> else info | V6 _ \<Rightarrow> info)"

lemma forward_packet_sends:
  assumes "forward_packet now io local dialer info pkt lp dp = (out, lp', dp')" "x \<in> set out" "sends c x"
  obtains route where "rightful_route dp info route" "c = pr_conn route" "may_send now (io route) route (wire_info info) Judge dp"
    "\<exists>mx. si_max (io route) = Some mx \<and> fits mx x"
proof -
  let ?server = "case dst_ip info of V4 dst \<Rightarrow> if is_server_addr dst then Some dst else None | V6 _ \<Rightarrow> None"
  show ?thesis
  proof (cases "src_ip info = V6 local \<and> dst_ip info = V6 local")
    case True
    then show ?thesis using assms by (auto simp: forward_packet_def)
  next
    case away: False
    show ?thesis
    proof (cases ?server)
      case (Some dst)
      then have d: "dst_ip info = V4 dst" "is_server_addr dst" by (auto split: ip_addr.splits if_splits)
      obtain dp1 where sr: "send_return now io (dialer \<noteq> None) dst info pkt dp = (out, dp1)"
        using assms(1) away Some by (auto simp: forward_packet_def split: prod.splits)
      obtain route pkt' dp2 where r: "return_route (dialer \<noteq> None) dst dp = Some route"
        and s: "send_over_route now io route (info \<lparr> dst_ip := V4 wire_client_addr \<rparr>) pkt' dp = (out, dp2)"
        using sr assms(2) by (auto simp: send_return_def split: option.splits if_splits)
      have "wire_info info = info \<lparr> dst_ip := V4 wire_client_addr \<rparr>" using d by (simp add: wire_info_def)
      then show ?thesis using that [OF return_route_rightful [OF r d]] send_over_route_sends [OF s assms(2,3)] by simp
    next
      case None
      have nm: "\<not> is_magic_dns info" "dst_ip info \<noteq> V6 magic_dns_v6"
        using assms away None by (auto simp: forward_packet_def inject_def split: if_splits option.splits)
      obtain route where r: "resolve_send_route (dp_peers dp) (xc_client (dp_exit dp)) (dst_ip info) = Some route"
        using assms away None nm
        by (cases "resolve_send_route (dp_peers dp) (xc_client (dp_exit dp)) (dst_ip info)")
          (auto simp: forward_packet_def lazy_dial_def Let_def split: if_splits option.splits prod.splits)
      obtain dp1 where s: "send_over_route now io route info pkt dp = (out, dp1)"
        using assms(1) away None nm r by (auto simp: forward_packet_def split: prod.splits)
      have "wire_info info = info" using None by (auto simp: wire_info_def split: ip_addr.splits if_splits)
      then show ?thesis using that [OF resolve_send_route_rightful [OF r]] send_over_route_sends [OF s assms(2,3)] by simp
    qed
  qed
qed

definition out_allowed :: "instant \<Rightarrow> data_plane \<Rightarrow> peer_route \<Rightarrow> packet_info \<Rightarrow> bool" where
  "out_allowed now dp route info \<longleftrightarrow>
     fst (evaluate_packet Out info (pr_endpoint_id route)
       (\<lambda>network. shares_network_v6 (pr_ipv6 route) network (dp_peers dp)) now (dp_firewall dp)) = Allow"

text \<open>An output to connection \<open>c\<close> that is right for a packet: on a rightful route, within the path's limit, and
  on a route for which the firewall's condition \<open>ok\<close> holds.\<close>

definition sent_rightly ::
    "(peer_route \<Rightarrow> send_io) \<Rightarrow> data_plane \<Rightarrow> packet_info \<Rightarrow> (peer_route \<Rightarrow> bool) \<Rightarrow> conn \<Rightarrow> path_out \<Rightarrow> bool" where
  "sent_rightly io dp info ok c x \<longleftrightarrow>
     (\<exists>route mx. rightful_route dp info route \<and> pr_conn route = c \<and> pr_handle route \<noteq> 0 \<and>
        si_max (io route) = Some mx \<and> fits mx x \<and> ok route)"

lemma flush_packet_sends:
  assumes "x \<in> set (fst (flush_packet now io pkt dp))" "sends c x"
  shows "\<exists>info. parse_packet_info pkt = Some info \<and> sent_rightly io dp info (\<lambda>route. out_allowed now dp route info) c x"
proof -
  obtain info route where i: "parse_packet_info pkt = Some info"
    and r: "resolve_send_route (dp_peers dp) (xc_client (dp_exit dp)) (dst_ip info) = Some route"
    and x: "x \<in> set (fst (send_over_route now io route info pkt dp))"
    using assms(1) by (auto simp: flush_packet_def split: option.splits)
  from send_over_route_sends [OF surjective_pairing x assms(2)] resolve_send_route_rightful [OF r] i show ?thesis
    unfolding sent_rightly_def may_send_def out_allowed_def by blast
qed

lemma flush_all_sends:
  "x \<in> set (fst (flush_all now io pkts dp)) \<Longrightarrow>
   \<exists>pre pkt post. pkts = pre @ pkt # post \<and> x \<in> set (fst (flush_packet now io pkt (snd (flush_all now io pre dp))))"
proof (induction pkts arbitrary: dp)
  case (Cons p ps)
  let ?dp = "snd (flush_packet now io p dp)"
  from Cons.prems consider "x \<in> set (fst (flush_packet now io p dp))" | "x \<in> set (fst (flush_all now io ps ?dp))"
    by (auto simp: Let_def split: prod.splits)
  then show ?case
  proof cases
    case 1
    then show ?thesis by (intro exI [of _ "[]"] exI [of _ p] exI [of _ ps]) simp
  next
    case 2
    from Cons.IH [OF this] obtain pre pkt post where "ps = pre @ pkt # post"
      "x \<in> set (fst (flush_packet now io pkt (snd (flush_all now io pre ?dp))))" by blast
    then show ?thesis by (intro exI [of _ "p # pre"]) (auto simp: Let_def split: prod.splits)
  qed
qed simp

lemma ld_take_retained: "fst (ld_take peer b) = retained b peer"
  by (simp add: ld_take_def retained_def split: option.splits)

lemma dial_done_sends:
  assumes "loop_step now io local dialer (DialDone peer connected) lp dp = (out, lp', dp')" "x \<in> set out"
  shows "dp_active dp" "connected" "x \<in> set (fst (flush_all now io (retained (lp_buffered lp) peer) dp))"
  using assms ld_take_retained [of peer "lp_buffered lp"]
  by (auto simp: loop_step_def flush_or_drop_def Let_def split: prod.splits if_splits)

lemma tun_packet_sends:
  assumes "loop_step now io local dialer (TunPacket pkt) lp dp = (out, lp', dp')" "x \<in> set out" "sends c x"
  shows "dp_active dp"
    "(\<exists>info. parse_packet_info pkt = Some info \<and> sent_rightly io dp info (\<lambda>route. out_allowed now dp route (wire_info info)) c x) \<or>
     (\<exists>f. parse_ipv6_fragment pkt = Some f \<and> sent_rightly io dp (if_info f)
        (\<lambda>route. out_allowed now dp route (if_info f) \<or> \<not> if_first f \<and> fst (fv_admits (if_key f) now (lp_fragments lp))) c x)"
proof -
  show "dp_active dp" using assms by (auto simp: loop_step_def split: if_splits)
  show "(\<exists>info. parse_packet_info pkt = Some info \<and> sent_rightly io dp info (\<lambda>route. out_allowed now dp route (wire_info info)) c x) \<or>
     (\<exists>f. parse_ipv6_fragment pkt = Some f \<and> sent_rightly io dp (if_info f)
        (\<lambda>route. out_allowed now dp route (if_info f) \<or> \<not> if_first f \<and> fst (fv_admits (if_key f) now (lp_fragments lp))) c x)"
  proof (cases "parse_packet_info pkt")
    case (Some info)
    then have "forward_packet now io local dialer info pkt lp dp = (out, lp', dp')"
      using assms by (auto simp: loop_step_def split: if_splits)
    then obtain route where "rightful_route dp info route" "c = pr_conn route" "may_send now (io route) route (wire_info info) Judge dp"
      "\<exists>mx. si_max (io route) = Some mx \<and> fits mx x"
      using assms(2,3) by (rule forward_packet_sends)
    then show ?thesis using Some unfolding sent_rightly_def may_send_def out_allowed_def by blast
  next
    case None
    then obtain f v dp1 where f: "parse_ipv6_fragment pkt = Some f" "send_fragment now io f pkt (lp_fragments lp) dp = (out, v, dp1)"
      using assms by (auto simp: loop_step_def split: if_splits option.splits prod.splits)
    from f(2) assms(2,3) obtain route adm where "rightful_route dp (if_info f) route" "c = pr_conn route"
      "may_send now (io route) route (if_info f) adm dp" "\<exists>mx. si_max (io route) = Some mx \<and> fits mx x"
      "adm = Judge \<or> \<not> if_first f \<and> fst (fv_admits (if_key f) now (lp_fragments lp))"
      by (rule send_fragment_sends)
    then show ?thesis using f(1) unfolding sent_rightly_def may_send_def out_allowed_def by blast
  qed
qed

text \<open>C3. Packets leave only to the right peer: whatever the read loop does, datagrams go out only while the data
  plane is up, and only to the connection of the peer at the packet's mesh address, of the exit chosen for
  internet traffic of that family, or of the peer and network holding the lease a returning packet is
  addressed to; each fits the path. They come from the packet the TUN just handed over, or from one that
  waited for a dial that has now succeeded. A whole packet and a first fragment were allowed by the outbound
  firewall (a returning packet as the mesh sees it; a waiting packet in the state those before it left), a
  later fragment by the verdict kept for its packet.\<close>

theorem sent_to_the_right_peer:
  assumes "loop_step now io local dialer ev lp dp = (out, lp', dp')" "x \<in> set out" "sends c x"
  shows "dp_active dp \<and>
    (case ev of
       TunPacket pkt \<Rightarrow>
         (\<exists>info. parse_packet_info pkt = Some info \<and> sent_rightly io dp info (\<lambda>route. out_allowed now dp route (wire_info info)) c x) \<or>
         (\<exists>f. parse_ipv6_fragment pkt = Some f \<and> sent_rightly io dp (if_info f)
            (\<lambda>route. out_allowed now dp route (if_info f) \<or> \<not> if_first f \<and> fst (fv_admits (if_key f) now (lp_fragments lp))) c x)
     | DialDone peer connected \<Rightarrow>
         connected \<and> (\<exists>pre pkt post info. retained (lp_buffered lp) peer = pre @ pkt # post \<and> parse_packet_info pkt = Some info \<and>
           (let dp1 = snd (flush_all now io pre dp) in sent_rightly io dp1 info (\<lambda>route. out_allowed now dp1 route info) c x))
     | _ \<Rightarrow> False)"
proof (cases ev)
  case (TunPacket pkt)
  then show ?thesis using tun_packet_sends [OF _ assms(2,3)] assms(1) by simp
next
  case (DialDone peer connected)
  note d = dial_done_sends [OF assms(1) [unfolded DialDone] assms(2)]
  from flush_all_sends [OF d(3)] obtain pre pkt post where p: "retained (lp_buffered lp) peer = pre @ pkt # post"
    and x: "x \<in> set (fst (flush_packet now io pkt (snd (flush_all now io pre dp))))" by blast
  from flush_packet_sends [OF x assms(3)] d p show ?thesis unfolding DialDone Let_def by auto
qed (use assms in \<open>auto simp: loop_step_def\<close>)

section \<open>The loop's own state\<close>

text \<open>At most sixteen dials and sixty-four resolver queries are in flight, the buffers keep their bounds, and
  packets wait only for peers being dialled, so that the end of the dial takes them.\<close>

definition loop_ok :: "mesh_loop \<Rightarrow> bool" where
  "loop_ok lp \<longleftrightarrow> finite (lp_in_flight lp) \<and> card (lp_in_flight lp) \<le> 16 \<and> lp_dns lp \<le> 64 \<and> ld_ok (lp_buffered lp) \<and>
     (\<forall>peer. retained (lp_buffered lp) peer \<noteq> [] \<longrightarrow> peer \<in> lp_in_flight lp)"

lemma lazy_dial_cases:
  assumes "lazy_dial dialer info pkt lp dp = (out, lp', dp')"
  obtains "lp' = lp"
  | peer kept b where "ld_push peer pkt (lp_buffered lp) = (kept, b)" "peer \<in> lp_in_flight lp \<or> card (lp_in_flight lp) < 16"
      "lp' = lp \<lparr> lp_buffered := b, lp_in_flight := insert peer (lp_in_flight lp) \<rparr>"
proof (cases "Option.bind dialer (\<lambda>m. Option.bind (dial_dst (xc_client (dp_exit dp)) (dst_ip info)) (resolve_route m))")
  case None
  then show ?thesis using assms that(1) by (simp add: lazy_dial_def)
next
  case (Some peer)
  obtain kept b where b: "ld_push peer pkt (lp_buffered lp) = (kept, b)" by fastforce
  show ?thesis
  proof (cases "peer \<notin> lp_in_flight lp \<and> card (lp_in_flight lp) \<ge> max_in_flight")
    case True
    then show ?thesis using assms Some that(1) by (simp add: lazy_dial_def)
  next
    case False
    then have "lp' = lp \<lparr> lp_buffered := b, lp_in_flight := insert peer (lp_in_flight lp) \<rparr>"
      using assms Some b by (auto simp: lazy_dial_def Let_def)
    then show ?thesis using that(2) [OF b] False by (auto simp: max_in_flight_def not_le)
  qed
qed

lemma lazy_dial_ok:
  assumes "loop_ok lp" "lazy_dial dialer info pkt lp dp = (out, lp', dp')"
  shows "loop_ok lp'"
  using assms(2)
proof (cases rule: lazy_dial_cases)
  case (2 peer kept b)
  have b: "ld_ok b" "retained b = (if kept then (retained (lp_buffered lp))(peer := retained (lp_buffered lp) peer @ [pkt]) else retained (lp_buffered lp))"
    using ld_push_ok [of "lp_buffered lp" peer pkt kept b] 2(1) assms(1) by (auto simp: loop_ok_def)
  have "card (insert peer (lp_in_flight lp)) \<le> 16"
    using 2(2) assms(1) by (auto simp: loop_ok_def card_insert_if)
  then show ?thesis using assms(1) b by (auto simp: loop_ok_def 2(3) split: if_splits)
qed (use assms(1) in simp)

text \<open>Flushing is one packet after another, each in the state the one before left.\<close>

lemma flush_all_states:
  "\<exists>dps. length dps = length pkts + 1 \<and> dps ! 0 = dp \<and> dps ! length pkts = snd (flush_all now io pkts dp) \<and>
     (\<forall>i < length pkts. dps ! (i + 1) = snd (flush_packet now io (pkts ! i) (dps ! i))) \<and>
     fst (flush_all now io pkts dp) = concat (map (\<lambda>i. fst (flush_packet now io (pkts ! i) (dps ! i))) [0..<length pkts])"
proof (induction pkts arbitrary: dp)
  case Nil
  show ?case by (intro exI [of _ "[dp]"]) simp
next
  case (Cons p ps)
  obtain dps where d: "length dps = length ps + 1" "dps ! 0 = snd (flush_packet now io p dp)"
    "dps ! length ps = snd (flush_all now io ps (snd (flush_packet now io p dp)))"
    "\<forall>i < length ps. dps ! (i + 1) = snd (flush_packet now io (ps ! i) (dps ! i))"
    "fst (flush_all now io ps (snd (flush_packet now io p dp))) =
       concat (map (\<lambda>i. fst (flush_packet now io (ps ! i) (dps ! i))) [0..<length ps])"
    using Cons.IH [of "snd (flush_packet now io p dp)"] by blast
  have up: "[0..<length (p # ps)] = 0 # map Suc [0..<length ps]" by (simp add: map_Suc_upt upt_conv_Cons del: upt_Suc)
  have "(dp # dps) ! (i + 1) = snd (flush_packet now io ((p # ps) ! i) ((dp # dps) ! i))" if "i < length (p # ps)" for i
    using that d(2,4) by (cases i) simp_all
  then show ?case
    using d(1,3,5) unfolding up
    by (intro exI [of _ "dp # dps"]) (simp add: Let_def case_prod_beta comp_def)
qed

text \<open>A packet from the TUN changes the buffers in one way only: it joins the end of one peer's queue.\<close>

lemma tun_packet_retains:
  assumes "loop_ok lp" "loop_step now io local dialer (TunPacket pkt) lp dp = (out, lp', dp')"
  shows "retained (lp_buffered lp') = retained (lp_buffered lp) \<or>
    (\<exists>peer. retained (lp_buffered lp') = (retained (lp_buffered lp))(peer := retained (lp_buffered lp) peer @ [pkt]))"
proof -
  have "retained (lp_buffered lp') = retained (lp_buffered lp) \<or>
    (\<exists>peer. retained (lp_buffered lp') = (retained (lp_buffered lp))(peer := retained (lp_buffered lp) peer @ [pkt]))"
    if "lazy_dial dialer info pkt lp dp = (out, lp', dp')" for info
    using that
  proof (cases rule: lazy_dial_cases)
    case (2 peer kept b)
    then show ?thesis using ld_push_ok [of "lp_buffered lp" peer pkt kept b] assms(1) by (auto simp: loop_ok_def)
  qed simp
  then show ?thesis using assms(2)
    by (auto simp: loop_step_def forward_packet_def Let_def split: if_splits option.splits prod.splits)
qed

text \<open>C12. The read loop's bookkeeping is sound: whatever events come, dials and resolver queries stay within
  their limits, the buffers within theirs, and no packet waits for a peer that is not being dialled. A packet
  that has to wait joins the end of its peer's queue, and nothing else changes the queues until the dial
  ends. Then all of that peer's packets leave the buffer; if the dial succeeded and the data plane is up they
  are sent one after another in the order they came, each in the state the one before left, else nothing is
  handed on. On standby the loop hands on nothing at all.\<close>

theorem mesh_loop_sound:
  assumes "loop_ok lp" "loop_step now io local dialer ev lp dp = (out, lp', dp')"
  shows "loop_ok lp' \<and>
    (case ev of
       TunPacket pkt \<Rightarrow> retained (lp_buffered lp') = retained (lp_buffered lp) \<or>
         (\<exists>peer. retained (lp_buffered lp') = (retained (lp_buffered lp))(peer := retained (lp_buffered lp) peer @ [pkt]))
     | DialDone peer connected \<Rightarrow>
         peer \<notin> lp_in_flight lp' \<and> retained (lp_buffered lp') = (retained (lp_buffered lp))(peer := []) \<and>
         (if connected \<and> dp_active dp then
            let pkts = retained (lp_buffered lp) peer in
            \<exists>dps. length dps = length pkts + 1 \<and> dps ! 0 = dp \<and> dps ! length pkts = dp' \<and>
              (\<forall>i < length pkts. dps ! (i + 1) = snd (flush_packet now io (pkts ! i) (dps ! i))) \<and>
              out = concat (map (\<lambda>i. fst (flush_packet now io (pkts ! i) (dps ! i))) [0..<length pkts])
          else out = [])
     | _ \<Rightarrow> retained (lp_buffered lp') = retained (lp_buffered lp)) \<and>
    (\<not> dp_active dp \<longrightarrow> out = [])"
proof (intro conjI)
  have take: "ld_ok b \<and> pkts = retained (lp_buffered lp) peer \<and> retained b = (retained (lp_buffered lp))(peer := [])"
    if "ld_take peer (lp_buffered lp) = (pkts, b)" for peer pkts b
    using ld_take_ok [of "lp_buffered lp" peer pkts b] that assms(1) by (auto simp: loop_ok_def)
  show "loop_ok lp'"
  proof (cases ev)
    case (TunPacket pkt)
    have "loop_ok lp'" if "forward_packet now io local dialer info pkt lp dp = (out, lp', dp')" for info
      using that assms(1) lazy_dial_ok [OF assms(1)]
      by (auto simp: forward_packet_def dns_queries_max_in_flight_def loop_ok_def Let_def split: if_splits option.splits prod.splits)
    then show ?thesis using assms TunPacket
      by (auto simp: loop_step_def loop_ok_def split: if_splits option.splits prod.splits)
  next
    case (DialDone peer connected)
    obtain pkts b where b: "ld_take peer (lp_buffered lp) = (pkts, b)" by fastforce
    then have "lp' = lp \<lparr> lp_buffered := b, lp_in_flight := lp_in_flight lp - {peer} \<rparr>"
      using assms(2) DialDone by (auto simp: loop_step_def Let_def split: prod.splits)
    then show ?thesis using assms(1) take [OF b] card_Diff1_le [of "lp_in_flight lp" peer] by (auto simp: loop_ok_def)
  qed (use assms in \<open>auto simp: loop_step_def loop_ok_def\<close>)
  show "case ev of
       TunPacket pkt \<Rightarrow> retained (lp_buffered lp') = retained (lp_buffered lp) \<or>
         (\<exists>peer. retained (lp_buffered lp') = (retained (lp_buffered lp))(peer := retained (lp_buffered lp) peer @ [pkt]))
     | DialDone peer connected \<Rightarrow>
         peer \<notin> lp_in_flight lp' \<and> retained (lp_buffered lp') = (retained (lp_buffered lp))(peer := []) \<and>
         (if connected \<and> dp_active dp then
            let pkts = retained (lp_buffered lp) peer in
            \<exists>dps. length dps = length pkts + 1 \<and> dps ! 0 = dp \<and> dps ! length pkts = dp' \<and>
              (\<forall>i < length pkts. dps ! (i + 1) = snd (flush_packet now io (pkts ! i) (dps ! i))) \<and>
              out = concat (map (\<lambda>i. fst (flush_packet now io (pkts ! i) (dps ! i))) [0..<length pkts])
          else out = [])
     | _ \<Rightarrow> retained (lp_buffered lp') = retained (lp_buffered lp)"
  proof (cases ev)
    case (TunPacket pkt)
    then show ?thesis using tun_packet_retains [OF assms(1)] assms(2) by simp
  next
    case (DialDone peer connected)
    obtain pkts b where b: "ld_take peer (lp_buffered lp) = (pkts, b)" by fastforce
    have lp': "lp' = lp \<lparr> lp_buffered := b, lp_in_flight := lp_in_flight lp - {peer} \<rparr>"
      and o: "(out, dp') = flush_or_drop now io connected (retained (lp_buffered lp) peer) dp"
      using assms(2) take [OF b] b unfolding DialDone by (auto simp: loop_step_def Let_def split: prod.splits)
    have "(out, dp') = flush_all now io (retained (lp_buffered lp) peer) dp" if "connected \<and> dp_active dp"
      using o that by (simp add: flush_or_drop_def)
    moreover have "out = []" if "\<not> (connected \<and> dp_active dp)" using o that by (auto simp: flush_or_drop_def split: if_splits)
    ultimately show ?thesis
      using take [OF b] flush_all_states [of "retained (lp_buffered lp) peer" dp now io] unfolding DialDone Let_def
      by (simp add: lp' prod_eq_iff)
  qed (use assms(2) in \<open>auto simp: loop_step_def\<close>)
  show "\<not> dp_active dp \<longrightarrow> out = []"
    using assms(2) by (cases ev) (auto simp: loop_step_def flush_or_drop_def Let_def split: prod.splits)
qed

section \<open>Witnesses\<close>

definition sample_out :: bytes where
  "sample_out = [0x60, 0, 0, 0, 0, 20, 6, 64, 2, 0, 0, 0, 0, 0, 0, 0, 0, 0, 0, 0, 0, 0, 0, 1,
     2, 0, 0, 0, 0, 0, 0, 0, 0, 0, 0, 0, 0, 0, 0, 7, 0x9c, 0x40, 0, 80, 0, 0, 0, 0, 0, 0, 0, 0, 0x50, 2, 0, 0, 0, 0, 0, 0]"

definition sample_out_info :: packet_info where
  "sample_out_info = \<lparr> src_ip = V6 sample_me, dst_ip = V6 sample_peer_ip, protocol = 6, src_port = 40000, dst_port = 80, tcp_flags = 2,
     icmp_type = 0, icmp_id = 0, transport_offset = 40 \<rparr>"

definition sample_send_io :: "peer_route \<Rightarrow> send_io" where
  "sample_send_io _ = \<lparr> si_max = Some 1200, si_legacy = False, si_queued = Some 1 \<rparr>"

lemma parse_sample_out: "parse_packet_info sample_out = Some sample_out_info"
  by (simp add: sample_out_def sample_out_info_def sample_me_def sample_peer_ip_def sample_eval)

definition sample_route :: peer_route where
  "sample_route = \<lparr> pr_conn = sample_conn_in, pr_scheduler = False, pr_endpoint_id = 9, pr_ipv6 = sample_peer_ip, pr_network = ''lab'',
     pr_handle = 1, pr_receive_mtu = 1280, pr_exit_ipv4 = 0 \<rparr>"

lemma sample_lookup: "lookup_v6 sample_peer_ip (dp_peers sample_dp) = Some sample_route"
  by (simp add: lookup_v6_def sample_dp_def sample_table_def peer_at_def entry_route_def pick_network_def route_to_def sample_route_def
      new_active_def min_tun_mtu_def)

lemma overlay_peer: "is_overlay_ip (V6 sample_peer_ip)"
  by (simp add: is_overlay_ip_def sample_peer_ip_def drop_bit_eq_div)

lemma sample_prepare:
  "\<exists>dp'. prepare_datagrams 5 (sample_send_io sample_route) sample_route sample_out_info sample_out Judge sample_dp =
     (Some (Whole (tag_datagram 1 sample_out)), [], dp') \<and> dp_active dp'"
proof -
  have len: "length sample_out = 60" by (simp add: sample_out_def)
  have i: "dst_ip sample_out_info = V6 sample_peer_ip" "src_ip sample_out_info = V6 sample_me" "src_port sample_out_info = 40000"
    by (simp_all add: sample_out_info_def)
  have fw: "inner (dp_firewall sample_dp) = default_config \<lparr> default_inbound := Allow, rules := [] \<rparr>"
    by (simp add: sample_dp_def sample_open_def new_firewall_def)
  have allow: "fst (evaluate_packet Out sample_out_info 9 sh 5 (dp_firewall sample_dp)) = Allow" for sh
    by (simp add: evaluate_packet_def fw match_rule_def default_for_def default_config_def)
  obtain v fw' where e: "evaluate_packet Out sample_out_info 9 (\<lambda>network. shares_network_v6 sample_peer_ip network (dp_peers sample_dp)) 5
      (dp_firewall sample_dp) = (v, fw')" by fastforce
  then have "v = Allow" using allow [of "\<lambda>network. shares_network_v6 sample_peer_ip network (dp_peers sample_dp)"] by simp
  then obtain dp1 where j: "judge_outbound 5 sample_route sample_out_info sample_out Judge sample_dp = (True, [], dp1)"
    using e by (simp add: judge_outbound_def sample_route_def is_deny_def Let_def)
  note jp = judge_outbound_pass [OF j]
  have act: "dp_active sample_dp" by (simp add: sample_dp_def)
  have "refuse_size (sample_send_io sample_route) sample_route sample_out_info sample_out = None"
    using len by (simp add: refuse_size_def sample_send_io_def sample_route_def wire_size_def max_packet_def tag_len_def)
  moreover have "translate_outbound (dp_ssh dp1) sample_out_info sample_out = Some sample_out"
    using jp(2) sample_ssh_cell i by (simp add: translate_outbound_def)
  moreover have "encode n 1 sample_out 1200 = (Some (Whole (tag_datagram 1 sample_out)), n)" for n
    using len by (simp add: encode_def wire_size_def max_packet_def tag_len_def)
  ultimately show ?thesis
    using act j i jp(3) by (simp add: prepare_datagrams_def frame_outbound_def sample_send_io_def sample_route_def)
qed

lemma sample_forward:
  "\<exists>lp' dp'. loop_step 5 sample_send_io sample_me None (TunPacket sample_out) new_mesh_loop sample_dp =
     ([ToPeer sample_conn_in [tag_datagram 1 sample_out]], lp', dp')"
proof -
  have i: "dst_ip sample_out_info = V6 sample_peer_ip" "src_ip sample_out_info = V6 sample_me" by (simp_all add: sample_out_info_def)
  have ne: "sample_me \<noteq> sample_peer_ip" "sample_peer_ip \<noteq> magic_dns_v6"
    by (simp_all add: sample_me_def sample_peer_ip_def magic_dns_v6_def v6_of_octets_def be_nat_def)
  obtain dp' where p: "prepare_datagrams 5 (sample_send_io sample_route) sample_route sample_out_info sample_out Judge sample_dp =
     (Some (Whole (tag_datagram 1 sample_out)), [], dp')" "dp_active dp'" using sample_prepare by blast
  have "\<exists>dp''. send_over_route 5 sample_send_io sample_route sample_out_info sample_out sample_dp =
      ([ToPeer sample_conn_in [tag_datagram 1 sample_out]], dp'')"
    using p by (simp add: send_over_route_def send_routed_def send_batch_def datagrams_def) (simp add: sample_route_def sample_send_io_def Let_def)
  moreover have "resolve_send_route (dp_peers sample_dp) c (V6 sample_peer_ip) = Some sample_route" for c
    using sample_lookup overlay_peer by (simp add: resolve_send_route_def)
  moreover have "\<not> is_link_scoped_v6 sample_out" "sample_out \<noteq> []" "dp_active sample_dp"
    by (simp_all add: is_link_scoped_v6_def sample_out_def sample_dp_def Let_def)
  ultimately show ?thesis
    using i ne by (auto simp: loop_step_def parse_sample_out forward_packet_def is_magic_dns_def)
qed

theorem sent_to_the_right_peer_witness:
  "\<exists>lp' dp' info. loop_step 5 sample_send_io sample_me None (TunPacket sample_out) new_mesh_loop sample_dp =
      ([ToPeer sample_conn_in [tag_datagram 1 sample_out]], lp', dp') \<and> parse_packet_info sample_out = Some info \<and>
      sent_rightly sample_send_io sample_dp info (\<lambda>route. out_allowed 5 sample_dp route (wire_info info)) sample_conn_in
        (ToPeer sample_conn_in [tag_datagram 1 sample_out])"
proof -
  let ?x = "ToPeer sample_conn_in [tag_datagram 1 sample_out]"
  obtain lp' dp' where s: "loop_step 5 sample_send_io sample_me None (TunPacket sample_out) new_mesh_loop sample_dp = ([?x], lp', dp')"
    using sample_forward by blast
  have x: "?x \<in> set [?x]" "sends sample_conn_in ?x" by simp_all
  have "parse_ipv6_fragment sample_out = None"
    using whole_not_fragment [OF parse_sample_out] by (cases "parse_ipv6_fragment sample_out") auto
  with sent_to_the_right_peer [OF s x] s show ?thesis by auto
qed

definition sample_waiting :: mesh_loop where
  "sample_waiting = new_mesh_loop \<lparr> lp_buffered := snd (ld_push 9 sample_out no_buffers), lp_in_flight := {9} \<rparr>"

lemma sample_waiting_ok: "loop_ok sample_waiting" "retained (lp_buffered sample_waiting) 9 = [sample_out]"
proof -
  have "fst (ld_push 9 sample_out no_buffers)"
    by (simp add: ld_push_def no_buffers_def empty_queue_def max_packets_total_def max_bytes_total_def max_packets_per_peer_def
        max_bytes_per_peer_def sample_out_def)
  then obtain b where b: "ld_push 9 sample_out no_buffers = (True, b)" by (cases "ld_push 9 sample_out no_buffers") simp
  have "ld_ok no_buffers" by (simp add: ld_ok_def no_buffers_def)
  from ld_push_ok [OF this b] have k: "ld_ok b" "retained b = (retained no_buffers)(9 := retained no_buffers 9 @ [sample_out])" by simp_all
  have "retained no_buffers p = []" for p by (simp add: retained_def no_buffers_def)
  with k show "loop_ok sample_waiting" "retained (lp_buffered sample_waiting) 9 = [sample_out]"
    by (simp_all add: sample_waiting_def b loop_ok_def new_mesh_loop_def)
qed

theorem mesh_loop_sound_witness:
  "let (out, lp', dp') = loop_step 5 sample_send_io sample_me None (DialDone 9 True) sample_waiting sample_dp
   in loop_ok lp' \<and> 9 \<notin> lp_in_flight lp' \<and> retained (lp_buffered lp') 9 = [] \<and>
      out = fst (flush_packet 5 sample_send_io sample_out sample_dp)"
proof -
  obtain out lp' dp' where s: "loop_step 5 sample_send_io sample_me None (DialDone 9 True) sample_waiting sample_dp = (out, lp', dp')"
    by (metis prod_cases3)
  have "dp_active sample_dp" by (simp add: sample_dp_def)
  with mesh_loop_sound [OF sample_waiting_ok(1) s] s show ?thesis by (auto simp: sample_waiting_ok(2) Let_def)
qed

end
