(* ===== verification/Mesh_Path.thy ===== *)
theory Mesh_Path
  imports Outbound
begin

text \<open>
  The two halves of the data path put together: what the datagrams of one packet look like to the reader at
  the other end, and what that reader does with them while its peer table keeps resolving their tag. The
  theorem about a packet crossing the mesh in the root theory rests on these lemmas.
\<close>

section \<open>The datagrams of a packet\<close>

lemma encode_count:
  assumes "encode nid h p mx = (Some e, nid')"
  shows "length (datagrams e) \<le> max_fragments"
proof (cases "length p + tag_len \<le> mx")
  case True
  then show ?thesis using assms by (auto simp: encode_def datagrams_def max_fragments_def split: if_splits)
next
  case False
  then have w: "div_ceil (length p) (mx - frag_header_len) \<le> max_fragments"
    using assms by (auto simp: encode_def wire_size_def Let_def split: if_splits)
  from assms show ?thesis
  proof (cases rule: encode_cases)
    case (frags n)
    then have "mx - frag_header_len = n" by simp
    then show ?thesis using w frags(1) by (simp add: datagrams_def)
  qed (use False in simp)
qed

lemma encode_nonempty:
  assumes "encode nid h p mx = (Some e, nid')"
  shows "datagrams e \<noteq> []"
  using assms
proof (cases rule: encode_cases)
  case (frags m)
  then have "0 < div_ceil (length p) m" by (simp add: div_ceil_index)
  then show ?thesis by (simp add: frags(1) datagrams_def)
qed (simp add: datagrams_def)

lemma encode_total: "wire_size (length p) mx \<noteq> None \<Longrightarrow> h \<noteq> 0 \<Longrightarrow> \<exists>e n. encode nid h p mx = (Some e, n)"
  by (auto simp: encode_def Let_def)

lemma encode_tagged:
  assumes "encode nid h p mx = (Some e, nid')" "d \<in> set (datagrams e)"
  shows "length d \<le> max_peer_datagram" "\<exists>rest. untag_datagram d = Some (h, rest)"
proof -
  have "length (to_be16 h) = Suc (Suc 0)" by simp
  then obtain x y where "to_be16 h = [x, y]" unfolding length_Suc_conv by auto
  then have head: "untag_datagram (to_be16 h @ xs) = Some (h, xs)" for xs
    using be16.dec_enc [of h] by (simp add: untag_datagram_def tag_len_def)
  have "(\<exists>xs. d = to_be16 h @ xs) \<and> length d \<le> max_peer_datagram"
    using assms(1)
  proof (cases rule: encode_cases)
    case whole
    then show ?thesis using assms(2) by (auto simp: datagrams_def tag_datagram_def max_peer_datagram_def tag_len_def)
  next
    case (frags n)
    then have "length d \<le> mx" using encode_fits [OF assms] by simp
    then show ?thesis using frags assms(2)
      by (auto simp: datagrams_def part_of_def fragment_datagram_def max_peer_datagram_def)
  qed
  then show "length d \<le> max_peer_datagram" "\<exists>rest. untag_datagram d = Some (h, rest)" using head by auto
qed

section \<open>The reader on a resolving tag\<close>

text \<open>\<open>tag_resolves ip c h network t\<close>: in the table \<open>t\<close> a datagram with tag \<open>h\<close> on connection \<open>c\<close> of the peer at
  \<open>ip\<close> belongs to \<open>network\<close>.\<close>

definition tag_resolves :: "ipv6_addr \<Rightarrow> conn \<Rightarrow> u16 \<Rightarrow> string \<Rightarrow> peer_table \<Rightarrow> bool" where
  "tag_resolves ip c h network t \<longleftrightarrow> fst (resolve_inbound 0 ip c h t) = Some network"

lemma tag_resolves_now: "tag_resolves ip c h network t \<longleftrightarrow> fst (resolve_inbound now ip c h t) = Some network"
  by (auto simp: tag_resolves_def resolve_inbound_def split: option.splits)

text \<open>Reading a datagram touches only the activity clock of the peer.\<close>

lemma resolve_inbound_touch:
  assumes "tag_resolves ip c h network t"
  obtains t' where "resolve_inbound now ip c h t = (Some network, t')" "tag_resolves ip c h network t'"
    "\<forall>ip' n. shares_network_v6 ip' n t' = shares_network_v6 ip' n t" "pt_local_mtu t' = pt_local_mtu t"
proof -
  obtain e where e: "peer_at t ip = Some e" "active_matches (pe_active e) c" "map_of (ac_in_handles (pe_active e)) h = Some network"
    "map_of (pe_out_handles e) network \<noteq> None"
    using assms by (auto simp: tag_resolves_def resolve_inbound_def split: option.splits if_splits)
  let ?t = "set_peer ip (edit_active (\<lambda>a. a \<lparr> ac_last_active := now \<rparr>) e) t"
  have "resolve_inbound now ip c h t = (Some network, ?t)" using e by (auto simp: resolve_inbound_def)
  moreover have "tag_resolves ip c h network ?t"
    using e by (auto simp: tag_resolves_def resolve_inbound_def edit_active_def active_matches_def)
  moreover have "shares_network_v6 ip' n ?t = shares_network_v6 ip' n t" for ip' n
    using e(1) by (auto simp: shares_network_v6_def edit_active_def split: option.splits)
  moreover have "pt_local_mtu ?t = pt_local_mtu t" by (simp add: set_peer_def)
  ultimately show ?thesis using that by blast
qed

lemma set_inbound_handles_local_mtu: "pt_local_mtu (set_inbound_handles ip c hs t) = pt_local_mtu t"
  by (simp add: set_inbound_handles_def update_current_def set_peer_def split: option.splits)

text \<open>What reading a datagram that completes nothing may change in the state of the receiver.\<close>

definition same_policy :: "data_plane \<Rightarrow> data_plane \<Rightarrow> bool" where
  "same_policy dp dp' \<longleftrightarrow>
     (\<exists>t. dp' = dp \<lparr> dp_peers := t \<rparr> \<and> (\<forall>ip n. shares_network_v6 ip n t = shares_network_v6 ip n (dp_peers dp)) \<and>
        pt_local_mtu t = pt_local_mtu (dp_peers dp))"

lemma same_policy_refl [simp]: "same_policy dp dp"
  by (auto simp: same_policy_def intro: exI [of _ "dp_peers dp"])

lemma same_policy_trans: "same_policy a b \<Longrightarrow> same_policy b c \<Longrightarrow> same_policy a c"
  by (auto simp: same_policy_def)

text \<open>A reader whose reassembler is fed a datagram with a resolving tag.\<close>

lemma read_datagram_fed:
  assumes "tag_resolves (rd_ipv6 rd) (rd_conn rd) h network (dp_peers dp)" "\<not> rd_legacy rd"
    and "length d \<le> max_peer_datagram" "untag_datagram d = Some (h, rest)"
    and "accept d (io_now io) (rd_reassembly rd) = (r, re)" "r = Inr None \<or> r = Inr (Some p)"
  obtains dp' where "same_policy dp dp'" "tag_resolves (rd_ipv6 rd) (rd_conn rd) h network (dp_peers dp')"
    "read_datagram io d rd dp =
       (case r of Inr (Some p) \<Rightarrow> judge_inbound io network p (rd \<lparr> rd_reassembly := re \<rparr>) dp' | _ \<Rightarrow> ([], rd \<lparr> rd_reassembly := re \<rparr>, dp'))"
proof -
  obtain t' where t': "resolve_inbound (io_now io) (rd_ipv6 rd) (rd_conn rd) h (dp_peers dp) = (Some network, t')"
    "tag_resolves (rd_ipv6 rd) (rd_conn rd) h network t'"
    "\<forall>ip' n. shares_network_v6 ip' n t' = shares_network_v6 ip' n (dp_peers dp)" "pt_local_mtu t' = pt_local_mtu (dp_peers dp)"
    by (rule resolve_inbound_touch [OF assms(1), where now = "io_now io"])
  have "same_policy dp (dp \<lparr> dp_peers := t' \<rparr>)" using t'(3,4) by (auto simp: same_policy_def)
  then show ?thesis using that [of "dp \<lparr> dp_peers := t' \<rparr>"] t'(1,2) assms(2-6)
    by (auto simp: read_datagram_def Let_def)
qed

lemma read_all_fed:
  assumes "tag_resolves (rd_ipv6 rd) (rd_conn rd) h network (dp_peers dp)" "\<not> rd_legacy rd"
    and "\<forall>(io, d) \<in> set evs. length d \<le> max_peer_datagram \<and> (\<exists>rest. untag_datagram d = Some (h, rest))"
    and "fst (feed (map (\<lambda>(io, d). (io_now io, d)) evs) (rd_reassembly rd)) = replicate (length evs) (Inr None)"
  shows "\<exists>dp'. same_policy dp dp' \<and> tag_resolves (rd_ipv6 rd) (rd_conn rd) h network (dp_peers dp') \<and>
    read_all evs rd dp = ([], rd \<lparr> rd_reassembly := snd (feed (map (\<lambda>(io, d). (io_now io, d)) evs) (rd_reassembly rd)) \<rparr>, dp')"
  using assms
proof (induction evs arbitrary: rd dp)
  case Nil
  then show ?case by auto
next
  case (Cons x evs)
  obtain io d where x: "x = (io, d)" by (cases x)
  let ?f = "\<lambda>(io, d). (io_now io, d)"
  obtain r re where a: "accept d (io_now io) (rd_reassembly rd) = (r, re)" by fastforce
  have r: "r = Inr None" "fst (feed (map ?f evs) re) = replicate (length evs) (Inr None)"
    using Cons.prems(4) by (auto simp: x a Let_def split: prod.splits)
  obtain rest where u: "length d \<le> max_peer_datagram" "untag_datagram d = Some (h, rest)" using Cons.prems(3) by (auto simp: x)
  obtain dp1 where dp1: "same_policy dp dp1" "tag_resolves (rd_ipv6 rd) (rd_conn rd) h network (dp_peers dp1)"
    "read_datagram io d rd dp = ([], rd \<lparr> rd_reassembly := re \<rparr>, dp1)"
    using read_datagram_fed [OF Cons.prems(1,2) u a, of p] r(1) by auto
  have "\<exists>dp'. same_policy dp1 dp' \<and> tag_resolves (rd_ipv6 rd) (rd_conn rd) h network (dp_peers dp') \<and>
    read_all evs (rd \<lparr> rd_reassembly := re \<rparr>) dp1 = ([], rd \<lparr> rd_reassembly := snd (feed (map ?f evs) re) \<rparr>, dp')"
    using Cons.IH [of "rd \<lparr> rd_reassembly := re \<rparr>" dp1] dp1(2) Cons.prems(2,3) r(2) by auto
  then show ?case using dp1 same_policy_trans [OF dp1(1)] by (auto simp: x a Let_def split: prod.splits)
qed

section \<open>Delivery and sending of a mesh packet\<close>

definition in_allowed :: "instant \<Rightarrow> data_plane \<Rightarrow> reader \<Rightarrow> packet_info \<Rightarrow> bool" where
  "in_allowed now dp rd info \<longleftrightarrow>
     fst (evaluate_packet In info (du_resolve (dp_users dp) (rd_peer_id rd))
       (\<lambda>name. shares_network_v6 (rd_ipv6 rd) name (dp_peers dp)) now (dp_firewall dp)) = Allow"

text \<open>The SSH translation leaves a packet alone on the way in, or on the way out.\<close>

definition ssh_passes_in :: "ssh_cell \<Rightarrow> packet_info \<Rightarrow> bool" where
  "ssh_passes_in cell info \<longleftrightarrow> (\<forall>s. live_ssh_nat cell = Some s \<longrightarrow> protocol info \<noteq> 6 \<or> dst_port info \<noteq> sn_mesh_port s)"

definition ssh_passes_out :: "ssh_cell \<Rightarrow> packet_info \<Rightarrow> bool" where
  "ssh_passes_out cell info \<longleftrightarrow> (\<forall>s. live_ssh_nat cell = Some s \<longrightarrow> protocol info \<noteq> 6 \<or> src_port info \<noteq> sn_listen_port s)"

lemma same_policy_allowed: "same_policy dp dp' \<Longrightarrow> in_allowed now dp' rd info = in_allowed now dp rd info"
  by (auto simp: same_policy_def in_allowed_def)

lemma judge_inbound_delivers:
  assumes "parse_packet_info p = Some info" "src_ip info = V6 (rd_ipv6 rd)" "dst_ip info = V6 ip" "is_overlay_ip (V6 ip)"
    and "length p \<le> max_packet" "length p \<le> unat (pt_local_mtu (dp_peers dp))"
    and "in_allowed (io_now io) dp rd info" "ssh_passes_in (dp_ssh dp) info"
  shows "fst (judge_inbound io network p rd dp) = [ToTun p]"
proof -
  define peer where "peer = \<lparr> in_identity = du_resolve (dp_users dp) (rd_peer_id rd), in_ipv6 = rd_ipv6 rd, in_network = network,
     in_shares = (\<lambda>name. shares_network_v6 (rd_ipv6 rd) name (dp_peers dp)) \<rparr>"
  obtain fw where fw: "evaluate_packet In info (in_identity peer) (in_shares peer) (io_now io) (dp_firewall dp) = (Allow, fw)"
    using assms(7) by (cases "evaluate_packet In info (in_identity peer) (in_shares peer) (io_now io) (dp_firewall dp)")
      (simp add: in_allowed_def peer_def)
  have "src_ok (in_ipv6 peer) info" using assms(2) by (simp add: src_ok_def peer_def)
  then have e: "evaluate_inbound (io_now io) (dp_ssh dp) (dp_exit dp) peer p (dp_firewall dp) (rd_fragments rd) =
      (InAccept info, fw, rd_fragments rd)"
    using assms(1,3-5) fw
    by (simp add: evaluate_inbound_def classify_inbound_def firewall_admits_def is_deny_def Let_def)
  have "fst (deliver_inbound io rd' network info p dp') = [ToTun p]" if "dp_peers dp' = dp_peers dp" "dp_ssh dp' = dp_ssh dp" for rd' dp'
    using assms(3,6,8) that
    by (auto simp: deliver_inbound_def exit_translate_def deliver_ssh_def ssh_passes_in_def Let_def split: option.splits)
  then show ?thesis using e by (simp add: judge_inbound_def peer_def [symmetric] Let_def case_prod_beta)
qed

lemma not_overlay_prefix:
  assumes "length bs = 15" "b = 0xfe \<or> b = 0xff"
  shows "\<not> is_overlay_ip (V6 (v6_of_octets (b # bs)))"
proof -
  define n where "n = be_nat (b # bs)"
  have b: "be_nat bs < 256 ^ 15" using be_nat_bound [of bs] assms(1) by simp
  have n: "n = unat b * 256 ^ 15 + be_nat bs" by (simp add: n_def be_nat_Cons assms(1))
  then have "n div 2 ^ 121 = 127" using b assms(2) by auto
  moreover have "n < 2 ^ 128" using n b assms(2) by auto
  then have "unat (word_of_nat n :: 128 word) = n" by (simp add: unat_of_nat_small)
  ultimately have "unat (drop_bit 121 (word_of_nat n :: 128 word)) = 127"
    unfolding unat_drop_bit_eq by (simp add: drop_bit_eq_div)
  then have "drop_bit 121 (word_of_nat n :: 128 word) = 127"
    by (intro unsigned_word_eqI [where 'a = nat]) simp
  then have "drop_bit 9 (drop_bit 112 (word_of_nat n :: 128 word)) = 127" by simp
  then show ?thesis by (simp add: is_overlay_ip_def v6_of_octets_def n_def [symmetric] and_fe00)
qed

lemma overlay_not_link_scoped:
  assumes "parse_packet_info p = Some info" "dst_ip info = V6 ip" "is_overlay_ip (V6 ip)"
  shows "\<not> is_link_scoped_v6 p"
  using assms(1)
proof (cases rule: parse_family)
  case (v6 s d)
  have i: "info = mk_packet_info p (protocol info) (transport_offset info) (V6 (v6_src p)) (V6 (v6_dst p))" "40 \<le> length p"
    using parse_ipv6_SomeD [OF v6(3)] by blast+
  have "dst_ip info = V6 (v6_dst p)" by (subst i(1)) simp
  with assms(2) i(2) have ip: "ip = v6_of_octets (slice p 24 40)" "40 \<le> length p" by (simp_all add: v6_dst_def)
  then have "slice p 24 40 = p ! 24 # slice p 25 40" "length (slice p 25 40) = 15"
    by (auto simp: slice_def drop_take Cons_nth_drop_Suc [symmetric] take_Cons')
  then have "p ! 24 \<noteq> 0xfe \<and> p ! 24 \<noteq> 0xff" using not_overlay_prefix [of "slice p 25 40" "p ! 24"] assms(3) ip(1) by auto
  then show ?thesis by (simp add: is_link_scoped_v6_def Let_def)
qed (use assms(2) in simp)

lemma loop_step_sends:
  assumes "parse_packet_info p = Some info" "src_ip info = V6 ip_a" "dst_ip info = V6 ip_b"
    and "ip_a \<noteq> ip_b" "is_overlay_ip (V6 ip_b)" "ip_b \<noteq> magic_dns_v6"
    and "dp_active dp" "lookup_v6 ip_b (dp_peers dp) = Some route" "\<not> pr_scheduler route" "pr_handle route \<noteq> 0"
    and "out_allowed now dp route info" "ssh_passes_out (dp_ssh dp) info"
    and "length p \<le> unat (pr_receive_mtu route)" "si_max (io route) = Some mx" "wire_size (length p) mx \<noteq> None" "\<not> si_legacy (io route)"
    and "si_queued (io route) = Some k" "max_fragments \<le> k"
  obtains e n lp' dp' where "encode (dp_next_id dp) (pr_handle route) p mx = (Some e, n)"
    "loop_step now io ip_a dialer (TunPacket p) lp dp = ([ToPeer (pr_conn route) (datagrams e)], lp', dp')"
proof -
  obtain e n where e: "encode (dp_next_id dp) (pr_handle route) p mx = (Some e, n)"
    using encode_total [OF assms(15,10)] by blast
  note ne = encode_nonempty [OF e]
  have ct: "length (datagrams e) \<le> k" "0 < k" using encode_count [OF e] assms(18) by (auto simp: max_fragments_def)
  obtain v fw where "evaluate_packet Out info (pr_endpoint_id route)
       (\<lambda>network. shares_network_v6 (pr_ipv6 route) network (dp_peers dp)) now (dp_firewall dp) = (v, fw)" by fastforce
  with assms(11) have j: "judge_outbound now route info p Judge dp = (True, [], dp \<lparr> dp_firewall := fw \<rparr>)"
    by (simp add: judge_outbound_def out_allowed_def is_deny_def Let_def)
  have sz: "refuse_size (io route) route info p = None" using assms(13-16) by (auto simp: refuse_size_def)
  have tr: "translate_outbound (dp_ssh dp) info p = Some p"
    using assms(2,12) by (auto simp: translate_outbound_def ssh_passes_out_def split: option.splits)
  have pd: "prepare_datagrams now (io route) route info p Judge dp = (Some e, [], dp \<lparr> dp_firewall := fw, dp_next_id := n \<rparr>)"
    using assms(3,7,10,14,16) j sz tr e by (simp add: prepare_datagrams_def frame_outbound_def)
  have "\<exists>dp'. send_over_route now io route info p dp = ([ToPeer (pr_conn route) (datagrams e)], dp')"
    using pd assms(7,9,17) ne ct by (simp add: send_over_route_def send_routed_def send_batch_def set_metrics_def Let_def)
  then obtain dp' where "send_over_route now io route info p dp = ([ToPeer (pr_conn route) (datagrams e)], dp')" by blast
  moreover have "resolve_send_route (dp_peers dp) c (V6 ip_b) = Some route" for c
    using assms(5,8) by (simp add: resolve_send_route_def)
  moreover have "p \<noteq> []" using assms(15) by (auto simp: wire_size_def)
  moreover have "\<not> is_link_scoped_v6 p" using assms(1,3,5) by (rule overlay_not_link_scoped)
  ultimately have "loop_step now io ip_a dialer (TunPacket p) lp dp = ([ToPeer (pr_conn route) (datagrams e)], lp, dp')"
    using assms(1-4,6,7) by (simp add: loop_step_def forward_packet_def is_magic_dns_def)
  then show ?thesis using that e by blast
qed

section \<open>All datagrams of a packet\<close>

lemma read_all_append:
  "read_all (xs @ ys) rd dp =
     (let (out, rd, dp) = read_all xs rd dp; (rest, rd, dp) = read_all ys rd dp in (out @ rest, rd, dp))"
  by (induction xs rd dp rule: read_all.induct) (auto simp: Let_def split: prod.splits)

text \<open>\<open>arrives ds evs last\<close>: the events bring the datagrams \<open>ds\<close> in some order and multiplicity, the last one to
  complete them with \<open>last\<close>, all within the reassembly timeout of the first.\<close>

definition arrives :: "bytes list \<Rightarrow> (path_io \<times> bytes) list \<Rightarrow> path_io \<times> bytes \<Rightarrow> bool" where
  "arrives ds evs final \<longleftrightarrow>
     set (map snd evs) \<union> {snd final} = set ds \<and> snd final \<notin> set (map snd evs) \<and>
     (\<forall>x \<in> set (evs @ [final]). io_now (fst x) < io_now (fst (hd (evs @ [final]))) + secs 5)"

lemma read_all_delivers:
  assumes "encode nid h p mx = (Some e, nid')" "arrives (datagrams e) evs (io, d)"
    and "tag_resolves (rd_ipv6 rd) (rd_conn rd) h network (dp_peers dp)" "\<not> rd_legacy rd"
    and "has_room \<lparr> ak_handle = h, ak_id = nid \<rparr> (rd_reassembly rd)"
    and "parse_packet_info p = Some info" "src_ip info = V6 (rd_ipv6 rd)" "dst_ip info = V6 ip" "is_overlay_ip (V6 ip)"
    and "length p \<le> unat (pt_local_mtu (dp_peers dp))" "in_allowed (io_now io) dp rd info" "ssh_passes_in (dp_ssh dp) info"
  shows "fst (read_all (evs @ [(io, d)]) rd dp) = [ToTun p]"
proof -
  let ?f = "\<lambda>(io, d). (io_now io, d)"
  have maps: "map fst (map ?f evs) @ [io_now io] = map (\<lambda>x. io_now (fst x)) (evs @ [(io, d)])" "map snd (map ?f evs) = map snd evs"
    by (auto simp: case_prod_beta)
  have hd: "hd (map (\<lambda>x. io_now (fst x)) (evs @ [(io, d)])) = io_now (fst (hd (evs @ [(io, d)])))" by (rule hd_map) simp
  have six: "drop_bit 4 (p ! 0) = 6" using assms(6,8) by (cases rule: parse_family) auto
  have "fst (feed (map ?f evs @ [(io_now io, d)]) (rd_reassembly rd)) = replicate (length (map ?f evs)) (Inr None) @ [Inr (Some p)]"
  proof (rule encoded_reassembles [OF assms(1) _ assms(5)])
    show "\<forall>t\<in>set (map fst (map ?f evs) @ [io_now io]). t < hd (map fst (map ?f evs) @ [io_now io]) + secs 5"
      unfolding maps hd using assms(2) by (auto simp: arrives_def)
  qed (use six assms(2) maps(2) in \<open>auto simp: arrives_def\<close>)
  then have fed: "fst (feed (map ?f evs) (rd_reassembly rd)) = replicate (length evs) (Inr None)"
    "fst (accept d (io_now io) (snd (feed (map ?f evs) (rd_reassembly rd)))) = Inr (Some p)"
    by (auto simp: feed_snoc Let_def split: prod.splits)
  have tag: "length x \<le> max_peer_datagram \<and> (\<exists>rest. untag_datagram x = Some (h, rest))" if "x \<in> set (map snd evs) \<union> {d}" for x
  proof -
    have "set (map snd evs) \<union> {d} = set (datagrams e)" using assms(2) by (simp add: arrives_def)
    then have "x \<in> set (datagrams e)" using that by blast
    then show ?thesis using encode_tagged [OF assms(1)] by blast
  qed
  then have evs: "\<forall>(io, d) \<in> set evs. length d \<le> max_peer_datagram \<and> (\<exists>rest. untag_datagram d = Some (h, rest))"
    by (metis (mono_tags, lifting) UnI1 case_prodI2 image_eqI list.set_map snd_conv)
  obtain rest where d: "length d \<le> max_peer_datagram" "untag_datagram d = Some (h, rest)" using tag [of d] by auto
  obtain dp1 where dp1: "same_policy dp dp1" "tag_resolves (rd_ipv6 rd) (rd_conn rd) h network (dp_peers dp1)"
    "read_all evs rd dp = ([], rd \<lparr> rd_reassembly := snd (feed (map ?f evs) (rd_reassembly rd)) \<rparr>, dp1)"
    using read_all_fed [OF assms(3,4) evs fed(1)] by blast
  let ?rd = "rd \<lparr> rd_reassembly := snd (feed (map ?f evs) (rd_reassembly rd)) \<rparr>"
  obtain re where re: "accept d (io_now io) (rd_reassembly ?rd) = (Inr (Some p), re)" using fed(2) by (cases "accept d (io_now io) (rd_reassembly ?rd)") simp
  have pre: "tag_resolves (rd_ipv6 ?rd) (rd_conn ?rd) h network (dp_peers dp1)" "\<not> rd_legacy ?rd" using dp1(2) assms(4) by simp_all
  obtain dp2 where dp2: "same_policy dp1 dp2" "read_datagram io d ?rd dp1 = judge_inbound io network p (?rd \<lparr> rd_reassembly := re \<rparr>) dp2"
    using read_datagram_fed [OF pre d re, of p] by auto
  have pol: "same_policy dp dp2" using dp1(1) dp2(1) by (rule same_policy_trans)
  have "fst (judge_inbound io network p (?rd \<lparr> rd_reassembly := re \<rparr>) dp2) = [ToTun p]"
  proof (rule judge_inbound_delivers [OF assms(6) _ assms(8,9)])
    show "length p \<le> max_packet" using assms(1) by (cases rule: encode_cases) simp_all
    show "in_allowed (io_now io) dp2 (?rd \<lparr> rd_reassembly := re \<rparr>) info"
      using assms(11) same_policy_allowed [OF pol] by (simp add: in_allowed_def)
  qed (use assms(7,10,12) pol in \<open>auto simp: same_policy_def\<close>)
  then show ?thesis by (simp add: read_all_append dp1(3) dp2(2) Let_def case_prod_beta)
qed

end
