(* ===== verification/Spec2Isabelle.thy ===== *)
theory Spec2Isabelle
  imports Firewall_Trace Firewall_Text Reject Fragment Frag_Verdicts Lazy_Dial Fq_Codel Rate_Limit Hostname Invite
    Peer_Table Exit_Node Ssh_Nat Inbound Outbound Mesh_Path
begin

text \<open>
  \<^bold>\<open>The program.\<close> Rayfish is a peer-to-peer mesh VPN. Each machine has an IPv6 address in the overlay
  derived from its public key, and a TUN device through which the host sends and receives mesh traffic.
  A packet read from the TUN is routed to the connection of the peer at its destination, checked by the
  outbound firewall, tagged with the handle of a network both machines share, split into datagrams that fit
  the path and sent over QUIC. The peer puts the datagrams together again, finds the network of the tag,
  checks that the packet comes from that peer and may go where it says, runs the inbound firewall, and writes
  it to its own TUN. A machine may also act as an exit for internet traffic of peers it allows, with leased
  IPv4 addresses. What admits a machine to a network is an invite and a signed roster.

  \<^bold>\<open>Theories and sources\<close> (paths under \<open>src/\<close>).

  \<^item> \<open>Ray_Prelude\<close>, \<open>Ray_Text\<close>, \<open>Ordered_Map\<close>: bytes and big-endian words, addresses, clocks, optional reads,
    decimal and hexadecimal text, maps kept in key order; the lemmas every component uses.
  \<^item> \<open>Packet\<close> (\<open>src/firewall/packet.rs\<close>): classification of IPv4 and IPv6 packets and of IPv6 fragments.
  \<^item> \<open>Firewall\<close>, \<open>Firewall_Trace\<close>, \<open>Firewall_Text\<close> (\<open>src/firewall.rs\<close>, \<open>ray-proto/src/firewall.rs\<close>,
    \<open>ray-proto/src/policy.rs\<close>): rules, verdicts, connection tracking, the histories of a tracked flow, the
    textual rule syntax and the rules a network suggests.
  \<^item> \<open>Checksum\<close>, \<open>Reject\<close> (\<open>src/reject.rs\<close>, \<open>src/dns/packet.rs\<close>, \<open>csum_replace2\<close> of \<open>src/forward.rs\<close>): Internet
    checksums and the packets built in answer to others.
  \<^item> \<open>Fragment\<close>, \<open>Frag_Verdicts\<close>, \<open>Lazy_Dial\<close>, \<open>Fq_Codel\<close> (\<open>src/forward/\<close>): the mesh framing and its reassembler,
    the verdicts kept for IPv6 fragments, the buffers of peers being dialled, the fair queue with CoDel.
  \<^item> \<open>Rate_Limit\<close> (\<open>src/ratelimit.rs\<close>), \<open>Hostname\<close> (\<open>src/hostname.rs\<close>), \<open>Invite\<close> (\<open>src/invite.rs\<close>,
    \<open>ray-proto/src/invite.rs\<close>), \<open>Membership\<close> (\<open>src/membership.rs\<close> and what it uses of \<open>src/control.rs\<close>).
  \<^item> \<open>Peer_Table\<close> (\<open>src/peers.rs\<close>, \<open>src/peers/\<close>): connections, network handles, routes, reachability.
  \<^item> \<open>Ipv4_Rewrite\<close>, \<open>Exit_Node\<close> (\<open>src/exit_node.rs\<close>, \<open>src/exit_node/\<close>): address translation, leases, allow-lists,
    transit policy, the resolvers used under a tunnel.
  \<^item> \<open>Ssh_Nat\<close>, \<open>Inbound\<close>, \<open>Outbound\<close> (\<open>src/forward.rs\<close>, \<open>src/stats.rs\<close>): the SSH port translation, the reader of a
    peer's connection, the TUN read loop and the senders, over the components above.
  \<^item> \<open>Mesh_Path\<close>: the two halves of the path together; the theorem \<open>packet_crosses_mesh\<close> below composes the read loop
    of one machine, the framing, the peer tables of both and the reader of the other.

  \<^bold>\<open>How the model corresponds to the code.\<close> A struct is a record with a prefix of its own, an enum a datatype, a
  method a function from the state to the state and its result. Concurrent maps and atomics are plain state: the
  model is sequential, one operation after the other. Machine integers that the code computes with are words;
  counters and lengths that cannot wrap are natural numbers. Clocks are natural numbers of nanoseconds (or of
  seconds where the code reads seconds) passed as arguments, as are random bytes, the success of a write to disk
  and what a connection answers. BLAKE3, signatures, msgpack and base58 are parameters; a theorem that needs
  something of them says so in a hypothesis. Output (packets to the TUN, datagrams to a connection, dials,
  resolver queries) is a list of values returned by the step.

  \<^bold>\<open>What the lemmas show.\<close>

  \<^item> Safety of the path: what a peer can get delivered (\<open>inbound_accept_safe\<close>, \<open>delivered_source_traceable\<close>,
    \<open>delivered_never_to_mesh_port\<close>, \<open>later_fragment_follows_first\<close>) and where packets leave
    (\<open>sent_to_the_right_peer\<close>); and that a packet both machines allow arrives (\<open>packet_crosses_mesh\<close>).
  \<^item> State invariants kept by every operation: \<open>peer_table_invariant\<close>, \<open>reassembler_invariant\<close>, \<open>mesh_loop_sound\<close>,
    \<open>lazy_dial_queues\<close>, the lease table of \<open>Exit_Node\<close>, the ledger of \<open>Invite\<close>.
  \<^item> Histories: a tracked flow answers an outbound packet, ends with a reset and cannot be kept open while
    closing (\<open>Firewall_Trace\<close>); an invite admits one machine and a revoked one none (\<open>Invite\<close>); a lease keeps its
    owner (\<open>Exit_Node\<close>); two machines keep the same one of several connections (\<open>Peer_Table\<close>).
  \<^item> Round trips and equivalences: fragments reassemble in any order, codes and selectors parse back, equal
    rosters have equal bytes, the explanation of a verdict is the verdict.
  \<^item> Bytes: every reply and every translated packet has valid checksums and parses as intended.
  \<^item> Progress: the fair queue returns every packet or counts it dropped, collision resolution ends.

  \<^bold>\<open>Bounds and fuel.\<close> No definition takes fuel: recursion is structural or comes with a termination proof. Where the code
  would panic or not return, the result is \<open>None\<close>, and \<open>fq_enqueue_total\<close>, \<open>fq_dequeue_conserves\<close> and
  \<open>resolve_collision_total\<close> show that this does not happen on the states that occur. Limits such
  as 16 dials, 64 resolver queries, 65534 leases or 64 pending assemblies are the constants of the source.

  \<^bold>\<open>Not modelled.\<close> Asynchronous plumbing (tasks, channels, cancellation), the QUIC library, files and their
  serialisation, and everything that drives the operating system: TUN devices, routes, host firewalls, DNS
  configuration, SSH sessions, file transfer, discovery, the command line and the mobile, Windows and Apple
  applications. The control plane's handlers are not modelled either, only the state they edit. The true
  interleaving of concurrent tasks on shared maps is outside a sequential model.
\<close>

section \<open>A packet crosses the mesh\<close>

text \<open>C1. A packet crosses the mesh: take two machines that hold a current connection to each other, share a
  network that both call by the same name and have announced their handles, in any state their peer tables can
  reach. If the first reads from its TUN a mesh packet for the second that its outbound firewall allows and that
  fits the receiver's limit, then it sends datagrams for it on its connection. Let these arrive at the second
  within five seconds of the first to arrive, in any order, those that do not complete the packet any number of
  times. When the last missing one is in, the reader has given its TUN exactly that packet, once, provided its
  inbound firewall allows it and its reassembler has room. Nothing is said of datagrams repeated after that.\<close>

theorem packet_crosses_mesh:
  assumes "pt_ok N a" "pt_ok M b" "conn_is_current ip_b (conn_id ca) a" "conn_is_current ip_a (conn_id cb) b"
    and "shares_network_v6 ip_b network a" "shares_network_v6 ip_a network b"
    and "dp_peers A = set_inbound_handles ip_b ca (announcement ip_a b) a" "dp_peers B = set_inbound_handles ip_a cb (announcement ip_b a) b"
    and "parse_packet_info p = Some info" "src_ip info = V6 ip_a" "dst_ip info = V6 ip_b"
    and "ip_a \<noteq> ip_b" "is_overlay_ip (V6 ip_b)" "ip_b \<noteq> magic_dns_v6"
    and "dp_active A" "lookup_v6 ip_b (dp_peers A) = Some route" "\<not> pr_scheduler route" "length p \<le> unat (pr_receive_mtu route)"
    and "si_max (io route) = Some mx" "wire_size (length p) mx \<noteq> None" "\<not> si_legacy (io route)" "si_queued (io route) = Some k" "max_fragments \<le> k"
    and "out_allowed now A route info" "ssh_passes_out (dp_ssh A) info"
    and "rd_ipv6 rd = ip_a" "rd_conn rd = cb" "\<not> rd_legacy rd"
    and "has_room \<lparr> ak_handle = pr_handle route, ak_id = dp_next_id A \<rparr> (rd_reassembly rd)"
    and "length p \<le> unat (pt_local_mtu b)" "ssh_passes_in (dp_ssh B) info"
  shows "\<exists>ds lp' A'. loop_step now io ip_a dialer (TunPacket p) lp A = ([ToPeer (pr_conn route) ds], lp', A') \<and> ds \<noteq> [] \<and>
    (\<forall>evs last. arrives ds evs last \<and> in_allowed (io_now (fst last)) B rd info \<longrightarrow> fst (read_all (evs @ [last]) rd B) = [ToTun p])"
proof -
  from announced_tag_resolves [OF assms(1-6), of 0]
  have tag: "tag_resolves (rd_ipv6 rd) (rd_conn rd) (pr_handle route) (pr_network route) (dp_peers B)" and h: "pr_handle route \<noteq> 0"
    using assms(7,8,16,26,27) by (auto simp: tag_resolves_def)
  obtain e n lp' A' where e: "encode (dp_next_id A) (pr_handle route) p mx = (Some e, n)"
    "loop_step now io ip_a dialer (TunPacket p) lp A = ([ToPeer (pr_conn route) (datagrams e)], lp', A')"
    by (rule loop_step_sends [where io = io, OF assms(9-17) h assms(24,25,18-23)])
  have mtu: "length p \<le> unat (pt_local_mtu (dp_peers B))"
    using assms(8,30) by (simp add: set_inbound_handles_local_mtu)
  have "fst (read_all (evs @ [last]) rd B) = [ToTun p]" if "arrives (datagrams e) evs last" "in_allowed (io_now (fst last)) B rd info" for evs last
    using read_all_delivers [OF e(1) _ tag assms(28,29,9) _ assms(11,13) mtu, of evs "fst last" "snd last"] that assms(10,26,31) by simp
  then show ?thesis using e encode_nonempty [OF e(1)] by blast
qed

definition table_a :: peer_table where
  "table_a = peer_run (\<lambda>x. x) (sample_ops 1 sample_peer_ip ''aa'' ''dev'') (with_engine Standalone with_audit)"

definition table_b :: peer_table where
  "table_b = peer_run (\<lambda>x. x) (sample_ops 5 sample_me ''dev'' ''zz'') (with_engine Standalone with_audit)"

definition plane_a :: data_plane where
  "plane_a = sample_dp \<lparr> dp_peers := set_inbound_handles sample_peer_ip (sample_conn 1 9) (announcement sample_me table_b) table_a \<rparr>"

definition plane_b :: data_plane where
  "plane_b = sample_dp \<lparr> dp_peers := set_inbound_handles sample_me (sample_conn 5 9) (announcement sample_peer_ip table_a) table_b \<rparr>"

definition reader_b :: reader where
  "reader_b = sample_reader \<lparr> rd_ipv6 := sample_me, rd_conn := sample_conn 5 9 \<rparr>"

definition link_io :: "peer_route \<Rightarrow> send_io" where
  "link_io _ = \<lparr> si_max = Some 55, si_legacy = False, si_queued = Some 16 \<rparr>"

lemmas table_defs = peer_run_def sample_ops_def with_engine_def with_audit_def new_peer_table_def pt_add_def resolve_inbound_def
  attach_network_def peer_at_def new_entry_def new_active_def set_peer_def audit_def clear_incompatible_def active_matches_def
  conn_is_current_def shares_network_v6_def sample_conn_def Let_def

lemma tables_connected:
  "conn_is_current sample_peer_ip (conn_id (sample_conn 1 9)) table_a" "conn_is_current sample_me (conn_id (sample_conn 5 9)) table_b"
  "shares_network_v6 sample_peer_ip ''dev'' table_a" "shares_network_v6 sample_me ''dev'' table_b"
  by (simp_all add: table_a_def table_b_def table_defs)

lemma tables_ok: "pt_ok {''aa'', ''dev''} table_a" "pt_ok {''dev'', ''zz''} table_b"
  unfolding table_a_def table_b_def by (rule sample_ops_ok)+

lemma route_a:
  assumes "lookup_v6 sample_peer_ip (dp_peers plane_a) = Some route"
  shows "\<not> pr_scheduler route" "pr_receive_mtu route = 1280"
proof -
  obtain e where e: "peer_at table_a sample_peer_ip = Some e" "\<not> ac_scheduler (pe_active e)" "ac_receive_mtu (pe_active e) = 1280"
    by (simp add: table_a_def table_defs edit_active_def min_tun_mtu_def)
  then show "\<not> pr_scheduler route" "pr_receive_mtu route = 1280"
    using assms by (auto simp: plane_a_def lookup_v6_def entry_route_def route_to_def set_inbound_handles_def update_current_def
        edit_active_def split: option.splits if_splits)
qed

lemma allowed_a: "out_allowed now plane_a route sample_out_info"
  by (simp add: out_allowed_def plane_a_def sample_dp_def sample_open_def new_firewall_def evaluate_packet_def match_rule_def
      default_for_def default_config_def)

lemma allowed_b: "in_allowed now plane_b reader_b sample_out_info"
  by (simp add: in_allowed_def plane_b_def sample_dp_def sample_open_def new_firewall_def evaluate_packet_def match_rule_def
      default_for_def default_config_def Let_def split: prod.splits)

text \<open>Over a path for 55 bytes the packet of 60 travels in two pieces of different lengths.\<close>

lemma sample_pieces:
  assumes "encode nid h sample_out 55 = (Some e, n)"
  obtains d1 d2 where "datagrams e = [d1, d2]" "d1 \<noteq> d2"
proof -
  have len: "length sample_out = 60" by (simp add: sample_out_def)
  have chunks: "chunks 40 sample_out = [take 40 sample_out, drop 40 sample_out]"
    by (subst chunks.simps, subst chunks.simps, subst chunks.simps) (simp add: sample_out_def)
  have "h \<noteq> 0" using assms by (auto simp: encode_def split: if_splits)
  then have "datagrams e = [fragment_datagram h nid 60 0 (take 40 sample_out), fragment_datagram h nid 60 40 (drop 40 sample_out)]"
    using assms chunks by (auto simp: encode_def len wire_size_def max_packet_def tag_len_def frag_header_len_def div_ceil_def
        max_fragments_def datagrams_def Let_def split: if_splits)
  moreover have "length (fragment_datagram h nid 60 0 (take 40 sample_out)) \<noteq> length (fragment_datagram h nid 60 40 (drop 40 sample_out))"
    by (simp add: fragment_datagram_def len)
  ultimately show thesis using that by metis
qed

theorem packet_crosses_mesh_witness:
  "\<exists>c d1 d2 lp' A'. loop_step 5 link_io sample_me None (TunPacket sample_out) new_mesh_loop plane_a = ([ToPeer c [d1, d2]], lp', A') \<and>
    fst (read_all [(sample_io, d2), (sample_io, d2), (sample_io, d1)] reader_b plane_b) = [ToTun sample_out]"
proof -
  obtain route where r: "lookup_v6 sample_peer_ip (dp_peers plane_a) = Some route" and h: "pr_handle route \<noteq> 0"
    using announced_tag_resolves [OF tables_ok tables_connected] by (auto simp: plane_a_def)
  have i: "src_ip sample_out_info = V6 sample_me" "dst_ip sample_out_info = V6 sample_peer_ip" by (simp_all add: sample_out_info_def)
  have ne: "sample_me \<noteq> sample_peer_ip" "sample_peer_ip \<noteq> magic_dns_v6"
    by (simp_all add: sample_me_def sample_peer_ip_def magic_dns_v6_def v6_of_octets_def be_nat_def)
  have len: "length sample_out = 60" by (simp add: sample_out_def)
  have w: "wire_size (length sample_out) 55 \<noteq> None"
    by (simp add: len wire_size_def max_packet_def tag_len_def frag_header_len_def div_ceil_def max_fragments_def)
  have ssh: "ssh_passes_out (dp_ssh plane_a) sample_out_info" "ssh_passes_in (dp_ssh plane_b) sample_out_info"
    using sample_ssh_cell by (simp_all add: ssh_passes_out_def ssh_passes_in_def plane_a_def plane_b_def sample_out_info_def)
  have "pt_local_mtu table_b = 1280" by (simp add: table_b_def table_defs min_tun_mtu_def)
  then have mtu: "length sample_out \<le> unat (pr_receive_mtu route)" "length sample_out \<le> unat (pt_local_mtu table_b)"
    using route_a(2) [OF r] by (simp_all add: len)
  have rd: "rd_ipv6 reader_b = sample_me" "rd_conn reader_b = sample_conn 5 9" "\<not> rd_legacy reader_b" "has_room key (rd_reassembly reader_b)" for key
    by (simp_all add: reader_b_def sample_reader_def has_room_def empty_reassembler_def max_pending_def assembly_cost_def max_packet_def global_budget_def)
  have io: "si_max (link_io route) = Some 55" "\<not> si_legacy (link_io route)" "si_queued (link_io route) = Some 16" "max_fragments \<le> 16"
    by (simp_all add: link_io_def max_fragments_def)
  have pl: "dp_peers plane_a = set_inbound_handles sample_peer_ip (sample_conn 1 9) (announcement sample_me table_b) table_a"
    "dp_peers plane_b = set_inbound_handles sample_me (sample_conn 5 9) (announcement sample_peer_ip table_a) table_b" "dp_active plane_a"
    by (simp_all add: plane_a_def plane_b_def sample_dp_def)
  note sent = loop_step_sends [where io = link_io and dialer = None and lp = new_mesh_loop and now = 5, OF parse_sample_out i ne(1)
      overlay_peer ne(2) pl(3) r route_a(1) [OF r] h allowed_a ssh(1) mtu(1) io(1) w io(2-4)]
  obtain e n lp1 A1 where e: "encode (dp_next_id plane_a) (pr_handle route) sample_out 55 = (Some e, n)"
    "loop_step 5 link_io sample_me None (TunPacket sample_out) new_mesh_loop plane_a = ([ToPeer (pr_conn route) (datagrams e)], lp1, A1)"
    by (rule sent)
  obtain d1 d2 where d: "datagrams e = [d1, d2]" "d1 \<noteq> d2" by (rule sample_pieces [OF e(1)])
  have arr: "arrives [d1, d2] [(sample_io, d2), (sample_io, d2)] (sample_io, d1)" using d(2) by (auto simp: arrives_def)
  from packet_crosses_mesh [where io = link_io and dialer = None and lp = new_mesh_loop and now = 5,
      OF tables_ok tables_connected pl(1,2) parse_sample_out i ne(1) overlay_peer ne(2) pl(3) r route_a(1) [OF r] mtu(1) io(1) w io(2-4)
      allowed_a ssh(1) rd(1-4) mtu(2) ssh(2)]
  obtain ds lp' A' where s: "loop_step 5 link_io sample_me None (TunPacket sample_out) new_mesh_loop plane_a = ([ToPeer (pr_conn route) ds], lp', A')"
    and read: "\<forall>evs last. arrives ds evs last \<and> in_allowed (io_now (fst last)) plane_b reader_b sample_out_info \<longrightarrow>
       fst (read_all (evs @ [last]) reader_b plane_b) = [ToTun sample_out]" by blast
  have ds: "ds = [d1, d2]" using s e(2) d(1) by simp
  from read [unfolded ds, rule_format, OF conjI, OF arr allowed_b] s show ?thesis unfolding ds by auto
qed

end
